(* ===== verification/Prelude.thy ===== *)
theory Prelude
  imports Main "HOL-Library.Word"
begin

text \<open>
  The shared vocabulary of the development.
  \<^item> Names for the machine integers of the code, and strings of bytes (a C++ \<open>char\<close> is one
    byte, an Isabelle \<open>char\<close> is one byte too).
  \<^item> The outcome of a C++ call: a value, a thrown exception, or undefined behaviour (a null
    dereference, an access past the end, a call the library forbids), with sequencing and
    \<open>catch\<close>.
  \<^item> Reachability over a step relation, the invariant rule and forward simulation, as locales.
  \<^item> The contracts that several components share, as locales: a FIFO queue and a table in
    which a key is registered once.
  \<^item> Decimal numerals, as \<open>fmt\<close> prints them and a \<open>\d+\<close> group reads them.
\<close>

section \<open>Types\<close>

type_synonym u8 = "8 word"
type_synonym u16 = "16 word"
type_synonym u32 = "32 word"
type_synonym u64 = "64 word"
type_synonym bytes = string

named_theorems outcome_simps

section \<open>Outcomes of calls\<close>

datatype ('e, 'a) outcome = Ok 'a | Throw 'e | Undefined

fun bind_out :: "('e, 'a) outcome \<Rightarrow> ('a \<Rightarrow> ('e, 'b) outcome) \<Rightarrow> ('e, 'b) outcome" where
  "bind_out (Ok x) f = f x"
| "bind_out (Throw e) f = Throw e"
| "bind_out Undefined f = Undefined"

fun catch_out :: "('e, 'a) outcome \<Rightarrow> ('e \<Rightarrow> ('e, 'a) outcome) \<Rightarrow> ('e, 'a) outcome" where
  "catch_out (Ok x) h = Ok x"
| "catch_out (Throw e) h = h e"
| "catch_out Undefined h = Undefined"

fun is_ok :: "('e, 'a) outcome \<Rightarrow> bool" where
  "is_ok (Ok x) = True"
| "is_ok _ = False"

lemma bind_out_Ok_iff [outcome_simps]:
  "bind_out r f = Ok y \<longleftrightarrow> (\<exists>x. r = Ok x \<and> f x = Ok y)"
  by (cases r) auto

lemma bind_out_Throw_iff [outcome_simps]:
  "bind_out r f = Throw e \<longleftrightarrow> r = Throw e \<or> (\<exists>x. r = Ok x \<and> f x = Throw e)"
  by (cases r) auto

lemma bind_out_Undefined_iff [outcome_simps]:
  "bind_out r f = Undefined \<longleftrightarrow> r = Undefined \<or> (\<exists>x. r = Ok x \<and> f x = Undefined)"
  by (cases r) auto

lemma catch_out_Ok_iff [outcome_simps]:
  "catch_out r h = Ok y \<longleftrightarrow> r = Ok y \<or> (\<exists>e. r = Throw e \<and> h e = Ok y)"
  by (cases r) auto

lemma catch_out_Undefined_iff [outcome_simps]:
  "catch_out r h = Undefined \<longleftrightarrow> r = Undefined \<or> (\<exists>e. r = Throw e \<and> h e = Undefined)"
  by (cases r) auto

lemma catch_out_Throw_iff [outcome_simps]:
  "catch_out r h = Throw e' \<longleftrightarrow> (\<exists>e. r = Throw e \<and> h e = Throw e')"
  by (cases r) auto

lemma is_ok_iff: "is_ok r \<longleftrightarrow> (\<exists>x. r = Ok x)"
  by (cases r) auto

lemma bind_out_assoc: "bind_out (bind_out r f) g = bind_out r (\<lambda>x. bind_out (f x) g)"
  by (cases r) auto

section \<open>Step relations and invariants\<close>

inductive reach :: "('s \<Rightarrow> bool) \<Rightarrow> ('s \<Rightarrow> 's \<Rightarrow> bool) \<Rightarrow> 's \<Rightarrow> bool"
  for init :: "'s \<Rightarrow> bool" and step :: "'s \<Rightarrow> 's \<Rightarrow> bool" where
  reach_init: "init s \<Longrightarrow> reach init step s"
| reach_step: "reach init step s \<Longrightarrow> step s t \<Longrightarrow> reach init step t"

locale invariant_system =
  fixes init :: "'s \<Rightarrow> bool"
    and step :: "'s \<Rightarrow> 's \<Rightarrow> bool"
    and inv :: "'s \<Rightarrow> bool"
  assumes init_inv: "init s \<Longrightarrow> inv s"
    and step_inv: "inv s \<Longrightarrow> step s t \<Longrightarrow> inv t"
begin

lemma reach_inv: "reach init step s \<Longrightarrow> inv s"
  by (induction rule: reach.induct) (auto intro: init_inv step_inv)

lemma steps_inv: "step\<^sup>*\<^sup>* s t \<Longrightarrow> inv s \<Longrightarrow> inv t"
  by (induction rule: rtranclp_induct) (auto intro: step_inv)

end

lemma reach_steps: "step\<^sup>*\<^sup>* s t \<Longrightarrow> reach init step s \<Longrightarrow> reach init step t"
  by (induction rule: rtranclp_induct) (auto intro: reach_step)

text \<open>
  Forward simulation: every step of the detailed system is matched by any number of steps of the
  abstract one, so every reachable detailed state matches a reachable abstract state.
\<close>

locale simulation =
  fixes init :: "'c \<Rightarrow> bool"
    and step :: "'c \<Rightarrow> 'c \<Rightarrow> bool"
    and abs_init :: "'a \<Rightarrow> bool"
    and abs_step :: "'a \<Rightarrow> 'a \<Rightarrow> bool"
    and matches :: "'c \<Rightarrow> 'a \<Rightarrow> bool"
  assumes init_match: "init c \<Longrightarrow> \<exists>a. abs_init a \<and> matches c a"
    and step_match: "reach init step c \<Longrightarrow> reach abs_init abs_step a \<Longrightarrow> matches c a \<Longrightarrow> step c c' \<Longrightarrow>
      \<exists>a'. abs_step\<^sup>*\<^sup>* a a' \<and> matches c' a'"
begin

lemma reach_match: "reach init step c \<Longrightarrow> \<exists>a. reach abs_init abs_step a \<and> matches c a"
proof (induction rule: reach.induct)
  case (reach_init c)
  then obtain a where "abs_init a" "matches c a" using init_match by blast
  then show ?case by (intro exI [of _ a] conjI reach.reach_init)
next
  case (reach_step c c')
  then obtain a where a: "reach abs_init abs_step a" "matches c a" by blast
  obtain a' where a': "abs_step\<^sup>*\<^sup>* a a'" "matches c' a'"
    using step_match [OF reach_step(1) a reach_step(2)] by blast
  then show ?case using reach_steps [OF a'(1) a(1)] by (intro exI [of _ a'] conjI)
qed

end

section \<open>A first-in first-out queue\<close>

locale fifo_queue =
  fixes empty :: "'q"
    and push :: "'a \<Rightarrow> 'q \<Rightarrow> 'q"
    and front :: "'q \<Rightarrow> 'a option"
    and pop :: "'q \<Rightarrow> 'q option"
    and items :: "'q \<Rightarrow> 'a list"
  assumes items_empty: "items empty = []"
    and items_push: "items (push x q) = items q @ [x]"
    and front_items: "front q = (case items q of [] \<Rightarrow> None | x # _ \<Rightarrow> Some x)"
    and pop_items: "map_option items (pop q) = (case items q of [] \<Rightarrow> None | _ # xs \<Rightarrow> Some xs)"
begin

lemma front_empty: "front empty = None"
  by (simp add: front_items items_empty)

lemma pop_defined: "front q = Some x \<Longrightarrow> \<exists>q'. pop q = Some q' \<and> items q = x # items q'"
  using pop_items [of q] front_items [of q] by (auto split: list.splits)

lemma pop_undefined: "front q = None \<longleftrightarrow> pop q = None"
  using pop_items [of q] front_items [of q] by (auto split: list.splits)

lemma items_push_all: "items (foldl (\<lambda>q x. push x q) q xs) = items q @ xs"
  by (induction xs arbitrary: q) (auto simp: items_push)

end

section \<open>A table in which a key is registered once\<close>

fun register_all :: "('k \<Rightarrow> 'v \<Rightarrow> 't \<Rightarrow> ('e, 't) outcome) \<Rightarrow> ('k \<times> 'v) list \<Rightarrow> 't \<Rightarrow> ('e, 't) outcome" where
  "register_all add [] t = Ok t"
| "register_all add ((k, v) # kvs) t = bind_out (add k v t) (register_all add kvs)"

locale unique_table =
  fixes empty :: "'t"
    and add :: "'k \<Rightarrow> 'v \<Rightarrow> 't \<Rightarrow> ('e, 't) outcome"
    and lookup :: "'t \<Rightarrow> 'k \<Rightarrow> 'v option"
  assumes lookup_empty: "lookup empty k = None"
    and add_new: "lookup t k = None \<Longrightarrow> \<exists>t'. add k v t = Ok t' \<and> lookup t' = (lookup t)(k \<mapsto> v)"
    and add_dup: "lookup t k \<noteq> None \<Longrightarrow> \<exists>e. add k v t = Throw e"
begin

lemma add_Ok_iff: "(\<exists>t'. add k v t = Ok t') \<longleftrightarrow> lookup t k = None"
  using add_new [of t k v] add_dup [of t k v] by (cases "lookup t k") auto

lemma add_OkD: "add k v t = Ok t' \<Longrightarrow> lookup t k = None \<and> lookup t' = (lookup t)(k \<mapsto> v)"
  using add_new [of t k v] add_dup [of t k v] by (cases "lookup t k") auto

lemma register_all_lookup:
  "register_all add kvs t = Ok t' \<Longrightarrow> lookup t' = lookup t ++ map_of kvs"
proof (induction kvs arbitrary: t)
  case Nil
  then show ?case by simp
next
  case (Cons kv kvs)
  obtain k v where kv: "kv = (k, v)" by (cases kv)
  from Cons.prems kv obtain t1 where t1: "add k v t = Ok t1" "register_all add kvs t1 = Ok t'"
    by (auto simp: bind_out_Ok_iff)
  have "\<And>k v t t'. add k v t = Ok t' \<Longrightarrow> lookup t k = None" using add_OkD by blast
  have fresh: "register_all add kvs t1 = Ok t' \<Longrightarrow> lookup t1 j \<noteq> None \<Longrightarrow> j \<notin> fst ` set kvs" for j
  proof (induction kvs arbitrary: t1)
    case (Cons kv kvs)
    obtain k v where kv: "kv = (k, v)" by (cases kv)
    from Cons.prems kv obtain t2 where t2: "add k v t1 = Ok t2" "register_all add kvs t2 = Ok t'"
      by (auto simp: bind_out_Ok_iff)
    from add_OkD [OF t2(1)] Cons.prems(2) have "j \<noteq> k" "lookup t2 j \<noteq> None" by auto
    with Cons.IH [OF t2(2)] kv show ?case by auto
  qed simp
  have "k \<notin> fst ` set kvs" using fresh [OF t1(2), of k] add_OkD [OF t1(1)] by auto
  then have "map_of kvs k = None" by (simp add: map_of_eq_None_iff)
  then show ?case
    using Cons.IH [OF t1(2)] add_OkD [OF t1(1)] kv by (auto simp: fun_eq_iff map_add_def)
qed

lemma register_all_Ok_iff:
  "(\<exists>t'. register_all add kvs t = Ok t') \<longleftrightarrow>
     distinct (map fst kvs) \<and> (\<forall>k \<in> fst ` set kvs. lookup t k = None)"
proof (induction kvs arbitrary: t)
  case Nil
  then show ?case by simp
next
  case (Cons kv kvs)
  obtain k v where kv: "kv = (k, v)" by (cases kv)
  show ?case
  proof (cases "lookup t k")
    case None
    then obtain t1 where t1: "add k v t = Ok t1" "lookup t1 = (lookup t)(k \<mapsto> v)"
      using add_new by blast
    then show ?thesis using Cons.IH [of t1] kv None by (auto simp: image_iff)
  next
    case (Some w)
    then obtain e where "add k v t = Throw e" using add_dup [of t k v] by auto
    then show ?thesis using kv Some by auto
  qed
qed

end

section \<open>Decimal numerals\<close>

definition digit_char :: "nat \<Rightarrow> char" where
  "digit_char d = char_of (48 + d)"

definition is_digit :: "char \<Rightarrow> bool" where
  "is_digit c \<longleftrightarrow> 48 \<le> (of_char c :: nat) \<and> (of_char c :: nat) \<le> 57"

definition digit_value :: "char \<Rightarrow> nat" where
  "digit_value c = of_char c - 48"

fun show_nat :: "nat \<Rightarrow> string" where
  "show_nat n = (if n < 10 then [digit_char n] else show_nat (n div 10) @ [digit_char (n mod 10)])"

declare show_nat.simps [simp del]

definition show_int :: "int \<Rightarrow> string" where
  "show_int i = (if i < 0 then CHR ''-'' # show_nat (nat (- i)) else show_nat (nat i))"

definition read_nat :: "string \<Rightarrow> nat" where
  "read_nat s = foldl (\<lambda>a c. 10 * a + digit_value c) 0 s"

lemma of_char_digit [simp]: "d < 10 \<Longrightarrow> (of_char (digit_char d) :: nat) = 48 + d"
  by (simp add: digit_char_def)

lemma is_digit_digit_char [simp]: "d < 10 \<Longrightarrow> is_digit (digit_char d)"
  by (simp add: is_digit_def)

lemma digit_value_digit_char [simp]: "d < 10 \<Longrightarrow> digit_value (digit_char d) = d"
  by (simp add: digit_value_def)

lemma digit_char_numerals [simp]:
  "digit_char 0 = CHR ''0''" "digit_char (Suc 0) = CHR ''1''" "digit_char 1 = CHR ''1''"
  "digit_char 2 = CHR ''2''" "digit_char 3 = CHR ''3''" "digit_char 4 = CHR ''4''"
  "digit_char 5 = CHR ''5''" "digit_char 6 = CHR ''6''" "digit_char 7 = CHR ''7''"
  "digit_char 8 = CHR ''8''" "digit_char 9 = CHR ''9''"
  by code_simp+

lemma show_nat_digits: "list_all is_digit (show_nat n)"
proof (induction n rule: show_nat.induct)
  case (1 n)
  then show ?case by (subst show_nat.simps) auto
qed

lemma show_nat_nonempty [simp]: "show_nat n \<noteq> []"
  by (subst show_nat.simps) simp

lemma read_nat_snoc: "read_nat (s @ [c]) = 10 * read_nat s + digit_value c"
  by (simp add: read_nat_def)

lemma read_show_nat [simp]: "read_nat (show_nat n) = n"
proof (induction n rule: show_nat.induct)
  case (1 n)
  show ?case
  proof (cases "n < 10")
    case True
    then show ?thesis by (subst show_nat.simps) (simp add: read_nat_def)
  next
    case False
    with 1 show ?thesis by (subst show_nat.simps) (simp add: read_nat_snoc)
  qed
qed

lemma show_nat_inj: "show_nat m = show_nat n \<Longrightarrow> m = n"
  by (metis read_show_nat)

end
