(* ===== verification/Common.thy ===== *)
theory Common
  imports Prelude
begin

text \<open>
  Statuses and the library's exception (\<open>include/msgpack_rpc/common\<close>,
  \<open>src/msgpack_rpc/common\<close>).

  A \<open>Status\<close> is a pointer to a shared, immutable pair of a code and a message; success is the
  null pointer. Sharing cannot be observed (the pair is never written after construction), so
  the pointer is an \<open>option\<close>.
\<close>

section \<open>Status codes\<close>

datatype status_code =
    SUCCESS
  | INVALID_ARGUMENT
  | INVALID_MESSAGE
  | TYPE_ERROR
  | PRECONDITION_NOT_MET
  | OPERATION_ABORTED
  | OPERATION_FAILURE
  | HOST_UNRESOLVED
  | CONNECTION_FAILURE
  | TIMEOUT
  | SERVER_ERROR
  | UNEXPECTED_ERROR

fun format_status_code :: "status_code \<Rightarrow> string" where
  "format_status_code SUCCESS = ''SUCCESS''"
| "format_status_code INVALID_ARGUMENT = ''INVALID_ARGUMENT''"
| "format_status_code INVALID_MESSAGE = ''INVALID_MESSAGE''"
| "format_status_code TYPE_ERROR = ''TYPE_ERROR''"
| "format_status_code PRECONDITION_NOT_MET = ''PRECONDITION_NOT_MET''"
| "format_status_code OPERATION_ABORTED = ''OPERATION_ABORTED''"
| "format_status_code OPERATION_FAILURE = ''OPERATION_FAILURE''"
| "format_status_code HOST_UNRESOLVED = ''HOST_UNRESOLVED''"
| "format_status_code CONNECTION_FAILURE = ''CONNECTION_FAILURE''"
| "format_status_code TIMEOUT = ''TIMEOUT''"
| "format_status_code SERVER_ERROR = ''SERVER_ERROR''"
| "format_status_code UNEXPECTED_ERROR = ''UNEXPECTED_ERROR''"

lemma format_status_code_inj: "format_status_code c = format_status_code d \<Longrightarrow> c = d"
  by (cases c; cases d) simp_all

section \<open>Status\<close>

record status_data =
  data_code :: status_code
  data_message :: string

record status =
  status_ptr :: "status_data option"

definition create_status_data :: "status_code \<Rightarrow> string \<Rightarrow> status_data option" where
  "create_status_data code message =
     (if code = SUCCESS then None
      else Some \<lparr>data_code = code, data_message = message\<rparr>)"

definition success_status :: status where
  "success_status = \<lparr>status_ptr = None\<rparr>"

definition mk_status :: "status_code \<Rightarrow> string \<Rightarrow> status" where
  "mk_status code message = \<lparr>status_ptr = create_status_data code message\<rparr>"

definition code_of :: "status \<Rightarrow> status_code" where
  "code_of s = (case status_ptr s of None \<Rightarrow> SUCCESS | Some d \<Rightarrow> data_code d)"

definition message_of :: "status \<Rightarrow> string" where
  "message_of s = (case status_ptr s of None \<Rightarrow> '''' | Some d \<Rightarrow> data_message d)"

text \<open>
  The representation invariant: the pointer is null exactly for success. Every constructor
  establishes it, and it makes the code of a status determine whether data is owned.
\<close>

definition status_ok :: "status \<Rightarrow> bool" where
  "status_ok s \<longleftrightarrow> (case status_ptr s of None \<Rightarrow> True | Some d \<Rightarrow> data_code d \<noteq> SUCCESS)"

lemma status_ok_success [simp]: "status_ok success_status"
  by (simp add: status_ok_def success_status_def)

lemma status_ok_mk [simp]: "status_ok (mk_status c m)"
  by (simp add: status_ok_def mk_status_def create_status_data_def)

lemma code_of_mk [simp]: "code_of (mk_status c m) = c"
  by (simp add: code_of_def mk_status_def create_status_data_def)

lemma code_of_success [simp]: "code_of success_status = SUCCESS"
  by (simp add: code_of_def success_status_def)

lemma message_of_mk [simp]: "message_of (mk_status c m) = (if c = SUCCESS then '''' else m)"
  by (simp add: message_of_def mk_status_def create_status_data_def)

lemma message_of_success [simp]: "message_of success_status = ''''"
  by (simp add: message_of_def success_status_def)

lemma status_ok_eq_iff:
  "status_ok s \<Longrightarrow> status_ok t \<Longrightarrow> s = t \<longleftrightarrow> code_of s = code_of t \<and> message_of s = message_of t"
  by (cases s; cases t)
    (auto simp: status_ok_def code_of_def message_of_def split: option.splits)

section \<open>The exception of the library\<close>

text \<open>
  \<open>std::runtime_error\<close> is built from \<open>status.message().data()\<close>, a C string: what it keeps stops
  at the first null byte of the message.
\<close>

definition c_str :: "string \<Rightarrow> string" where
  "c_str s = takeWhile (\<lambda>c. c \<noteq> CHR 0x00) s"

lemma c_str_id: "CHR 0x00 \<notin> set s \<Longrightarrow> c_str s = s"
  by (auto simp: c_str_def takeWhile_eq_all_conv)

lemma c_str_no_null: "CHR 0x00 \<notin> set (c_str s)"
  by (auto simp: c_str_def dest: set_takeWhileD)

lemma c_str_idem [simp]: "c_str (c_str s) = c_str s"
  by (rule c_str_id [OF c_str_no_null])

record rpc_exception =
  exc_what :: string
  exc_status :: status

definition rpc_exception_of_status :: "status \<Rightarrow> rpc_exception" where
  "rpc_exception_of_status s = \<lparr>exc_what = c_str (message_of s), exc_status = s\<rparr>"

definition mk_rpc_exception :: "status_code \<Rightarrow> string \<Rightarrow> rpc_exception" where
  "mk_rpc_exception code message = rpc_exception_of_status (mk_status code message)"

lemma exc_status_mk [simp]: "exc_status (mk_rpc_exception c m) = mk_status c m"
  by (simp add: mk_rpc_exception_def rpc_exception_of_status_def)

lemma exc_what_mk: "c \<noteq> SUCCESS \<Longrightarrow> exc_what (mk_rpc_exception c m) = c_str m"
  by (simp add: mk_rpc_exception_def rpc_exception_of_status_def)

lemma mk_rpc_exception_inj:
  "mk_rpc_exception c m = mk_rpc_exception d n \<Longrightarrow> c \<noteq> SUCCESS \<Longrightarrow> c = d \<and> m = n"
  by (metis code_of_mk exc_status_mk message_of_mk)

end
