(* ===== verification/Exceptions.thy ===== *)
theory Exceptions
  imports Common
begin

text \<open>
  The values of the MessagePack library as the code sees them, and the exceptions that travel
  between components.

  \<open>msgpack::object\<close> is a tagged union; the code inspects the tag with the enumerators listed in
  the switch of \<open>src/msgpack_rpc/util/format_msgpack_object_to.h\<close>, and each enumerator is a
  constructor here. \<open>MInvalid\<close> is an object whose tag is none of them, the case the
  \<open>default\<close> branch of that switch is for. A double is kept as its 64 bits.
\<close>

section \<open>Objects\<close>

datatype mp_object =
    MNil
  | MBool bool
  | MPosInt u64
  | MNegInt u64
  | MFloat32 u64
  | MFloat64 u64
  | MStr string
  | MBin bytes
  | MArray "mp_object list"
  | MMap "mp_kv list"
  | MExt u8 bytes
  | MInvalid
and mp_kv = KV (kv_key: mp_object) (kv_val: mp_object)

text \<open>
  \<open>via.array\<close> is a member of the union: reading it is defined only when the tag is \<open>ARRAY\<close>.
\<close>

fun via_array :: "mp_object \<Rightarrow> mp_object list option" where
  "via_array (MArray xs) = Some xs"
| "via_array _ = None"

fun is_nil :: "mp_object \<Rightarrow> bool" where
  "is_nil MNil = True"
| "is_nil _ = False"

lemma via_array_Some_iff [simp]: "via_array obj = Some xs \<longleftrightarrow> obj = MArray xs"
  by (cases obj) auto

lemma is_nil_iff: "is_nil obj \<longleftrightarrow> obj = MNil"
  by (cases obj) auto

section \<open>Exceptions\<close>

text \<open>
  \<open>OtherException\<close> is a thrown value that is not derived from \<open>std::exception\<close>: the handlers of
  the code that name \<open>std::exception\<close> let it pass.
\<close>

datatype exn =
    RpcException rpc_exception
  | ServerException rpc_exception mp_object
  | MethodException mp_object
  | StdException string
  | OtherException

fun is_std_exception :: "exn \<Rightarrow> bool" where
  "is_std_exception OtherException = False"
| "is_std_exception _ = True"

definition method_exception_what :: string where
  "method_exception_what = ''Method threw an exception.''"

fun what :: "exn \<Rightarrow> string" where
  "what (RpcException e) = exc_what e"
| "what (ServerException e obj) = exc_what e"
| "what (MethodException obj) = method_exception_what"
| "what (StdException s) = c_str s"
| "what OtherException = ''''"

fun rpc_status_of :: "exn \<Rightarrow> status option" where
  "rpc_status_of (RpcException e) = Some (exc_status e)"
| "rpc_status_of (ServerException e obj) = Some (exc_status e)"
| "rpc_status_of _ = None"

abbreviation rpc_error :: "status_code \<Rightarrow> string \<Rightarrow> exn" where
  "rpc_error code message \<equiv> RpcException (mk_rpc_exception code message)"

abbreviation throw_rpc :: "status_code \<Rightarrow> string \<Rightarrow> (exn, 'a) outcome" where
  "throw_rpc code message \<equiv> Throw (rpc_error code message)"

definition code_of_exn :: "exn \<Rightarrow> status_code option" where
  "code_of_exn e = map_option code_of (rpc_status_of e)"

lemma code_of_rpc_error [simp]: "code_of_exn (rpc_error c m) = Some c"
  by (simp add: code_of_exn_def)

lemma what_rpc_error [simp]: "c \<noteq> SUCCESS \<Longrightarrow> what (rpc_error c m) = c_str m"
  by (simp add: exc_what_mk)

section \<open>Actions\<close>

text \<open>
  Code that reads and writes a state and may throw. The state at the time of the throw is kept: C++
  does not roll anything back.
\<close>

type_synonym ('s, 'a) action = "'s \<Rightarrow> (exn, 'a) outcome \<times> 's"

definition return_act :: "'a \<Rightarrow> ('s, 'a) action" where
  "return_act x = (\<lambda>s. (Ok x, s))"

definition throw_act :: "exn \<Rightarrow> ('s, 'a) action" where
  "throw_act e = (\<lambda>s. (Throw e, s))"

definition lift_out :: "(exn, 'a) outcome \<Rightarrow> ('s, 'a) action" where
  "lift_out r = (\<lambda>s. (r, s))"

definition bind_act :: "('s, 'a) action \<Rightarrow> ('a \<Rightarrow> ('s, 'b) action) \<Rightarrow> ('s, 'b) action" where
  "bind_act m f = (\<lambda>s. case m s of
     (Ok x, s') \<Rightarrow> f x s' | (Throw e, s') \<Rightarrow> (Throw e, s') | (Undefined, s') \<Rightarrow> (Undefined, s'))"

definition try_act :: "('s, 'a) action \<Rightarrow> (exn \<Rightarrow> ('s, 'a) action) \<Rightarrow> ('s, 'a) action" where
  "try_act m h = (\<lambda>s. case m s of
     (Ok x, s') \<Rightarrow> (Ok x, s') | (Throw e, s') \<Rightarrow> h e s' | (Undefined, s') \<Rightarrow> (Undefined, s'))"

lemmas act_defs = return_act_def throw_act_def lift_out_def bind_act_def try_act_def

lemma bind_act_Ok [simp]: "m s = (Ok x, s') \<Longrightarrow> bind_act m f s = f x s'"
  by (simp add: bind_act_def)

lemma bind_act_Throw [simp]: "m s = (Throw e, s') \<Longrightarrow> bind_act m f s = (Throw e, s')"
  by (simp add: bind_act_def)

lemma bind_act_Undefined [simp]: "m s = (Undefined, s') \<Longrightarrow> bind_act m f s = (Undefined, s')"
  by (simp add: bind_act_def)

lemma try_act_Ok [simp]: "m s = (Ok x, s') \<Longrightarrow> try_act m h s = (Ok x, s')"
  by (simp add: try_act_def)

lemma try_act_Throw [simp]: "m s = (Throw e, s') \<Longrightarrow> try_act m h s = h e s'"
  by (simp add: try_act_def)

lemma try_act_Undefined [simp]: "m s = (Undefined, s') \<Longrightarrow> try_act m h s = (Undefined, s')"
  by (simp add: try_act_def)

lemma act_simps [simp]:
  "return_act x s = (Ok x, s)" "throw_act e s = (Throw e, s)" "lift_out r s = (r, s)"
  by (simp_all add: return_act_def throw_act_def lift_out_def)

lemma bind_act_assoc: "bind_act (bind_act m f) g = bind_act m (\<lambda>x. bind_act (f x) g)"
  by (rule ext) (simp add: bind_act_def split: outcome.splits prod.splits)

end
