(* ===== verification/Format_Object.thy ===== *)
theory Format_Object
  imports Exceptions
begin

text \<open>
  Formatting of MessagePack objects (\<open>src/msgpack_rpc/util/format_msgpack_object_to.h\<close>).

  The code is a template over an output iterator. An iterator is modelled by what its users do
  with it: assign through it (\<open>*it = c\<close>) and increment it (\<open>++it\<close>). Two kinds of iterator are
  instances: an appender (\<open>std::back_insert_iterator\<close>, the iterator every caller of the code
  passes), where the assignment appends and the increment does nothing, and a pointer into a
  buffer, where the assignment overwrites the current position.
  The text \<open>fmt\<close> prints for a double is a parameter, \<open>fd\<close>.
\<close>

section \<open>Output iterators\<close>

record 'it out_iter =
  it_put :: "char \<Rightarrow> 'it \<Rightarrow> 'it"
  it_next :: "'it \<Rightarrow> 'it"

definition appender :: "string out_iter" where
  "appender = \<lparr>it_put = (\<lambda>c buf. buf @ [c]), it_next = (\<lambda>buf. buf)\<rparr>"

text \<open>A pointer: the buffer and the position in it; a write past the end is dropped.\<close>

definition pointer_iter :: "(string \<times> nat) out_iter" where
  "pointer_iter = \<lparr>it_put = (\<lambda>c (buf, i). (buf[i := c], i)), it_next = (\<lambda>(buf, i). (buf, Suc i))\<rparr>"

definition put_next :: "'it out_iter \<Rightarrow> char \<Rightarrow> 'it \<Rightarrow> 'it" where
  "put_next ops c it = it_next ops (it_put ops c it)"

definition copy_string_to_iterator :: "'it out_iter \<Rightarrow> string \<Rightarrow> 'it \<Rightarrow> 'it" where
  "copy_string_to_iterator ops s it = fold (put_next ops) s it"

section \<open>Formatting\<close>

definition hex_digit :: "nat \<Rightarrow> char" where
  "hex_digit n = (if n < 10 then char_of (48 + n) else char_of (55 + n))"

definition hex_byte :: "char \<Rightarrow> string" where
  "hex_byte c = [hex_digit (of_char c div 16), hex_digit (of_char c mod 16)]"

fun format_bool :: "'it out_iter \<Rightarrow> 'it \<Rightarrow> bool \<Rightarrow> 'it" where
  "format_bool ops it b =
     (if b then copy_string_to_iterator ops ''true'' it else copy_string_to_iterator ops ''false'' it)"

definition format_number :: "'it out_iter \<Rightarrow> 'it \<Rightarrow> string \<Rightarrow> 'it" where
  "format_number ops it digits = copy_string_to_iterator ops digits it"

definition format_str :: "'it out_iter \<Rightarrow> 'it \<Rightarrow> string \<Rightarrow> 'it" where
  "format_str ops it s =
     put_next ops CHR 0x22 (copy_string_to_iterator ops s (put_next ops CHR 0x22 it))"

definition format_bytes :: "'it out_iter \<Rightarrow> 'it \<Rightarrow> bytes \<Rightarrow> 'it" where
  "format_bytes ops it bs = fold (\<lambda>b it. copy_string_to_iterator ops (hex_byte b) it) bs it"

definition format_bin :: "'it out_iter \<Rightarrow> 'it \<Rightarrow> bytes \<Rightarrow> 'it" where
  "format_bin ops it bs =
     put_next ops CHR '')'' (format_bytes ops (copy_string_to_iterator ops ''bin('' it) bs)"

definition format_ext :: "'it out_iter \<Rightarrow> 'it \<Rightarrow> u8 \<Rightarrow> bytes \<Rightarrow> 'it" where
  "format_ext ops it type bs =
     put_next ops CHR '')''
       (format_bytes ops
          (copy_string_to_iterator ops (''ext('' @ show_int (sint type) @ '', '') it) bs)"

text \<open>
  The separators inside arrays and maps are assigned through the iterator without the increment
  the other writers use, as in the source.
\<close>

definition put_separator :: "'it out_iter \<Rightarrow> char \<Rightarrow> 'it \<Rightarrow> 'it" where
  "put_separator ops c it = it_put ops CHR '' '' (it_put ops c it)"

fun format_msgpack_object_impl ::
    "'it out_iter \<Rightarrow> (u64 \<Rightarrow> string) \<Rightarrow> 'it \<Rightarrow> mp_object \<Rightarrow> (exn, 'it) outcome"
  and format_elements ::
    "'it out_iter \<Rightarrow> (u64 \<Rightarrow> string) \<Rightarrow> nat \<Rightarrow> 'it \<Rightarrow> mp_object list \<Rightarrow> (exn, 'it) outcome"
  and format_entries ::
    "'it out_iter \<Rightarrow> (u64 \<Rightarrow> string) \<Rightarrow> nat \<Rightarrow> 'it \<Rightarrow> mp_kv list \<Rightarrow> (exn, 'it) outcome" where
  "format_msgpack_object_impl ops fd it MNil = Ok (copy_string_to_iterator ops ''null'' it)"
| "format_msgpack_object_impl ops fd it (MBool b) = Ok (format_bool ops it b)"
| "format_msgpack_object_impl ops fd it (MPosInt n) = Ok (format_number ops it (show_nat (unat n)))"
| "format_msgpack_object_impl ops fd it (MNegInt n) = Ok (format_number ops it (show_int (sint n)))"
| "format_msgpack_object_impl ops fd it (MFloat32 d) = Ok (format_number ops it (fd d))"
| "format_msgpack_object_impl ops fd it (MFloat64 d) = Ok (format_number ops it (fd d))"
| "format_msgpack_object_impl ops fd it (MStr s) = Ok (format_str ops it s)"
| "format_msgpack_object_impl ops fd it (MBin bs) = Ok (format_bin ops it bs)"
| "format_msgpack_object_impl ops fd it (MArray xs) =
     bind_out (format_elements ops fd 0 (put_next ops CHR ''['' it) xs)
       (\<lambda>it. Ok (put_next ops CHR '']'' it))"
| "format_msgpack_object_impl ops fd it (MMap kvs) =
     bind_out (format_entries ops fd 0 (put_next ops CHR ''{'' it) kvs)
       (\<lambda>it. Ok (put_next ops CHR ''}'' it))"
| "format_msgpack_object_impl ops fd it (MExt type bs) = Ok (format_ext ops it type bs)"
| "format_msgpack_object_impl ops fd it MInvalid =
     throw_rpc INVALID_ARGUMENT ''Invalid message type.''"
| "format_elements ops fd i it [] = Ok it"
| "format_elements ops fd i it (x # xs) =
     bind_out
       (format_msgpack_object_impl ops fd (if i > 0 then put_separator ops CHR '','' it else it) x)
       (\<lambda>it. format_elements ops fd (Suc i) it xs)"
| "format_entries ops fd i it [] = Ok it"
| "format_entries ops fd i it (KV k v # kvs) =
     bind_out
       (format_msgpack_object_impl ops fd (if i > 0 then put_separator ops CHR '','' it else it) k)
       (\<lambda>it. bind_out (format_msgpack_object_impl ops fd (put_separator ops CHR '':'' it) v)
          (\<lambda>it. format_entries ops fd (Suc i) it kvs))"

definition format_msgpack_object_to_string :: "(u64 \<Rightarrow> string) \<Rightarrow> mp_object \<Rightarrow> (exn, string) outcome" where
  "format_msgpack_object_to_string fd obj = format_msgpack_object_impl appender fd [] obj"

section \<open>Specification: the text of an object\<close>

fun well_typed :: "mp_object \<Rightarrow> bool" and well_typed_kv :: "mp_kv \<Rightarrow> bool" where
  "well_typed MInvalid = False"
| "well_typed (MArray xs) = list_all well_typed xs"
| "well_typed (MMap kvs) = list_all well_typed_kv kvs"
| "well_typed _ = True"
| "well_typed_kv (KV k v) = (well_typed k \<and> well_typed v)"

fun intercalate :: "string \<Rightarrow> string list \<Rightarrow> string" where
  "intercalate sep [] = []"
| "intercalate sep [s] = s"
| "intercalate sep (s # t # ss) = s @ sep @ intercalate sep (t # ss)"

fun render :: "(u64 \<Rightarrow> string) \<Rightarrow> mp_object \<Rightarrow> string"
  and render_kv :: "(u64 \<Rightarrow> string) \<Rightarrow> mp_kv \<Rightarrow> string" where
  "render fd MNil = ''null''"
| "render fd (MBool b) = (if b then ''true'' else ''false'')"
| "render fd (MPosInt n) = show_nat (unat n)"
| "render fd (MNegInt n) = show_int (sint n)"
| "render fd (MFloat32 d) = fd d"
| "render fd (MFloat64 d) = fd d"
| "render fd (MStr s) = CHR 0x22 # s @ [CHR 0x22]"
| "render fd (MBin bs) = ''bin('' @ concat (map hex_byte bs) @ '')''"
| "render fd (MArray xs) = ''['' @ intercalate '', '' (map (render fd) xs) @ '']''"
| "render fd (MMap kvs) = ''{'' @ intercalate '', '' (map (render_kv fd) kvs) @ ''}''"
| "render fd (MExt type bs) = ''ext('' @ show_int (sint type) @ '', '' @ concat (map hex_byte bs) @ '')''"
| "render fd MInvalid = ''''"
| "render_kv fd (KV k v) = render fd k @ '': '' @ render fd v"

lemma intercalate_Cons:
  "intercalate sep (s # ss) = s @ concat (map (\<lambda>t. sep @ t) ss)"
  by (induction ss arbitrary: s) auto

named_theorems appender_simps

lemma put_next_appender [appender_simps]: "put_next appender c buf = buf @ [c]"
  by (simp add: put_next_def appender_def)

lemma put_separator_appender [appender_simps]: "put_separator appender c buf = buf @ [c, CHR '' '']"
  by (simp add: put_separator_def appender_def)

lemma copy_appender [appender_simps]: "copy_string_to_iterator appender s buf = buf @ s"
  by (induction s arbitrary: buf) (simp_all add: copy_string_to_iterator_def put_next_appender)

lemma format_bytes_appender [appender_simps]:
  "format_bytes appender buf bs = buf @ concat (map hex_byte bs)"
  by (induction bs arbitrary: buf) (simp_all add: format_bytes_def copy_appender)

lemma format_leaf_appender [appender_simps]:
  "format_number appender buf s = buf @ s"
  "format_str appender buf s = buf @ CHR 0x22 # s @ [CHR 0x22]"
  "format_bin appender buf bs = buf @ ''bin('' @ concat (map hex_byte bs) @ '')''"
  "format_ext appender buf t bs =
     buf @ ''ext('' @ show_int (sint t) @ '', '' @ concat (map hex_byte bs) @ '')''"
  by (simp_all add: format_number_def format_str_def format_bin_def format_ext_def appender_simps)

lemma format_appender_aux:
  "well_typed obj \<Longrightarrow> format_msgpack_object_impl appender fd buf obj = Ok (buf @ render fd obj)"
  "list_all well_typed xs \<Longrightarrow> format_elements appender fd i buf xs =
     Ok (buf @ (if i = 0 then intercalate '', '' (map (render fd) xs)
                else concat (map (\<lambda>x. '', '' @ render fd x) xs)))"
  "list_all well_typed_kv kvs \<Longrightarrow> format_entries appender fd i buf kvs =
     Ok (buf @ (if i = 0 then intercalate '', '' (map (render_kv fd) kvs)
                else concat (map (\<lambda>kv. '', '' @ render_kv fd kv) kvs)))"
  by (induction appender fd buf obj and appender fd i buf xs and appender fd i buf kvs
      rule: format_msgpack_object_impl_format_elements_format_entries.induct)
    (simp_all add: appender_simps intercalate_Cons o_def)

lemma format_appender_throws:
  "\<not> well_typed obj \<Longrightarrow> format_msgpack_object_impl appender fd buf obj =
     throw_rpc INVALID_ARGUMENT ''Invalid message type.''"
  "\<not> list_all well_typed xs \<Longrightarrow> format_elements appender fd i buf xs =
     throw_rpc INVALID_ARGUMENT ''Invalid message type.''"
  "\<not> list_all well_typed_kv kvs \<Longrightarrow> format_entries appender fd i buf kvs =
     throw_rpc INVALID_ARGUMENT ''Invalid message type.''"
proof (induction appender fd buf obj and appender fd i buf xs and appender fd i buf kvs
      rule: format_msgpack_object_impl_format_elements_format_entries.induct)
  case (14 fd i it x xs)
  then show ?case by (cases "well_typed x") (simp_all add: format_appender_aux)
next
  case (16 fd i it k v kvs)
  then show ?case
    by (cases "well_typed k"; cases "well_typed v") (simp_all add: format_appender_aux)
qed simp_all

lemma format_to_string_render:
  "format_msgpack_object_to_string fd obj =
     (if well_typed obj then Ok (render fd obj)
      else throw_rpc INVALID_ARGUMENT ''Invalid message type.'')"
  by (simp add: format_msgpack_object_to_string_def format_appender_aux format_appender_throws)

text \<open>
  C33. Formatting an object to a string produces exactly the text of the reference rendering
  (elements joined by a comma and a space, entries as key, colon, space, value, bytes as
  upper-case hexadecimal), for objects of any nesting; and it throws INVALID_ARGUMENT exactly
  when some object inside has an invalid type tag.
\<close>

theorem format_to_string_correct:
  "format_msgpack_object_to_string fd obj =
     (if well_typed obj then Ok (render fd obj)
      else throw_rpc INVALID_ARGUMENT ''Invalid message type.'')"
  by (rule format_to_string_render)

text \<open>
  The separators are assigned without an increment. Through a pointer the same code overwrites
  them: the comma between two elements is lost, and so is the blank.
\<close>

theorem format_pointer_loses_separator:
  "format_msgpack_object_impl pointer_iter fd (''........'', 0) (MArray [MPosInt 1, MPosInt 2]) =
     Ok (''[12]....'', 4)"
  by (simp add: put_next_def put_separator_def pointer_iter_def format_number_def
      copy_string_to_iterator_def show_nat.simps)

end
