(* ===== verification/Regex.thy ===== *)
theory Regex
  imports Prelude
begin

text \<open>
  The fragment of regular expressions \<open>src/msgpack_rpc/addresses/uri.cpp\<close> uses, as data:
  literal text, literal text in a capturing group, and a capturing group of one or more
  characters of a class. \<open>rx_matches\<close> is the meaning of a full match with the captured strings;
  \<open>rx_exec\<close> is the greedy search of the regular expression library (longest repetition first),
  and the two are proved to agree. Strings are taken byte by byte, which is the library's
  behaviour on ASCII text.
\<close>

datatype rx_item =
    Txt string
  | GroupTxt string
  | GroupPlus "char \<Rightarrow> bool"

inductive rx_matches :: "rx_item list \<Rightarrow> string \<Rightarrow> string list \<Rightarrow> bool" where
  rx_nil: "rx_matches [] [] []"
| rx_txt: "rx_matches rs s caps \<Longrightarrow> rx_matches (Txt t # rs) (t @ s) caps"
| rx_group_txt: "rx_matches rs s caps \<Longrightarrow> rx_matches (GroupTxt t # rs) (t @ s) (t # caps)"
| rx_group_plus: "w \<noteq> [] \<Longrightarrow> list_all p w \<Longrightarrow> rx_matches rs s caps \<Longrightarrow>
     rx_matches (GroupPlus p # rs) (w @ s) (w # caps)"

inductive_simps rx_matches_simps:
  "rx_matches [] s caps"
  "rx_matches (Txt t # rs) s caps"
  "rx_matches (GroupTxt t # rs) s caps"
  "rx_matches (GroupPlus p # rs) s caps"

fun first_some :: "'a option list \<Rightarrow> 'a option" where
  "first_some [] = None"
| "first_some (None # xs) = first_some xs"
| "first_some (Some x # xs) = Some x"

definition strip_prefix :: "string \<Rightarrow> string \<Rightarrow> string option" where
  "strip_prefix t s = (if take (length t) s = t then Some (drop (length t) s) else None)"

primrec rx_exec :: "rx_item list \<Rightarrow> string \<Rightarrow> string list option" where
  "rx_exec [] s = (if s = [] then Some [] else None)"
| "rx_exec (r # rs) s =
     (case r of
        Txt t \<Rightarrow> (case strip_prefix t s of None \<Rightarrow> None | Some s' \<Rightarrow> rx_exec rs s')
      | GroupTxt t \<Rightarrow>
          (case strip_prefix t s of None \<Rightarrow> None | Some s' \<Rightarrow> map_option (\<lambda>caps. t # caps) (rx_exec rs s'))
      | GroupPlus p \<Rightarrow>
          first_some (map (\<lambda>n. map_option (\<lambda>caps. take n s # caps) (rx_exec rs (drop n s)))
            (rev [1..<Suc (length (takeWhile p s))])))"

lemma first_some_SomeD: "first_some xs = Some x \<Longrightarrow> Some x \<in> set xs"
  by (induction xs rule: first_some.induct) auto

lemma first_some_None_iff: "first_some xs = None \<longleftrightarrow> set xs \<subseteq> {None}"
  by (induction xs rule: first_some.induct) auto

lemma first_some_hit: "Some x \<in> set xs \<Longrightarrow> \<exists>y. first_some xs = Some y"
  by (induction xs rule: first_some.induct) auto

lemma first_some_mapD: "first_some (map f ns) = Some y \<Longrightarrow> \<exists>n \<in> set ns. f n = Some y"
  by (drule first_some_SomeD) (auto simp: image_iff)

lemma first_some_map_hit: "n \<in> set ns \<Longrightarrow> f n = Some y \<Longrightarrow> \<exists>z. first_some (map f ns) = Some z"
  by (rule first_some_hit [where x = y]) (force simp: image_iff)

lemma strip_prefix_Some_iff: "strip_prefix t s = Some s' \<longleftrightarrow> s = t @ s'"
  by (auto simp: strip_prefix_def) (metis append_take_drop_id)

lemma strip_prefix_append [simp]: "strip_prefix t (t @ s) = Some s"
  by (simp add: strip_prefix_Some_iff)

lemma strip_prefix_Nil_right: "strip_prefix t [] = (if t = [] then Some [] else None)"
  by (auto simp: strip_prefix_def)

lemma rx_exec_sound: "rx_exec rs s = Some caps \<Longrightarrow> rx_matches rs s caps"
proof (induction rs arbitrary: s caps)
  case Nil
  then show ?case by (auto intro: rx_matches.intros split: if_splits)
next
  case (Cons r rs)
  show ?case
  proof (cases r)
    case (GroupPlus p)
    with Cons.prems obtain n caps' where n: "n \<in> {1..<Suc (length (takeWhile p s))}"
      and rest: "rx_exec rs (drop n s) = Some caps'" and caps: "caps = take n s # caps'"
      by (auto simp del: upt_Suc dest!: first_some_mapD)
    have "take n s = take n (takeWhile p s)"
      using n by (metis atLeastLessThan_iff less_Suc_eq_le takeWhile_eq_take take_take min.absorb1)
    then have "list_all p (take n s)"
      by (metis list.pred_set set_takeWhileD in_set_takeD)
    moreover have "take n s \<noteq> []" using n by auto
    ultimately have "rx_matches (GroupPlus p # rs) (take n s @ drop n s) (take n s # caps')"
      using Cons.IH [OF rest] by (intro rx_matches.rx_group_plus)
    then show ?thesis using GroupPlus caps by simp
  qed (use Cons in \<open>auto simp: strip_prefix_Some_iff intro: rx_matches.intros split: option.splits\<close>)
qed

lemma rx_exec_complete: "rx_matches rs s caps \<Longrightarrow> \<exists>caps'. rx_exec rs s = Some caps'"
proof (induction rule: rx_matches.induct)
  case (rx_group_plus w p rs s caps)
  then obtain caps' where caps': "rx_exec rs s = Some caps'" by blast
  have "length w \<le> length (takeWhile p (w @ s))"
    using rx_group_plus.hyps(2) by (simp add: list_all_iff)
  moreover have "1 \<le> length w" using rx_group_plus.hyps(1) by (cases w) auto
  ultimately have "length w \<in> set (rev [1..<Suc (length (takeWhile p (w @ s)))])" by auto
  then show ?case
    using caps' by (auto simp del: upt_Suc intro!: first_some_map_hit [where n = "length w" and y = "w # caps'"])
qed auto

lemma rx_exec_iff: "(\<exists>caps. rx_exec rs s = Some caps) \<longleftrightarrow> (\<exists>caps. rx_matches rs s caps)"
  by (blast intro: rx_exec_sound rx_exec_complete)

text \<open>Where a string can be split in one way only, the search returns that split.\<close>

lemma rx_exec_unique:
  assumes "rx_matches rs s caps" and "\<And>caps'. rx_matches rs s caps' \<Longrightarrow> caps' = caps"
  shows "rx_exec rs s = Some caps"
  using rx_exec_complete [OF assms(1)] assms(2) rx_exec_sound by blast

lemma rx_exec_None: "(\<And>caps. \<not> rx_matches rs s caps) \<Longrightarrow> rx_exec rs s = None"
  using rx_exec_sound by (cases "rx_exec rs s") auto

end
