(* ===== verification/Addresses.thy ===== *)
theory Addresses
  imports Exceptions Regex
begin

text \<open>
  URIs and addresses (\<open>src/msgpack_rpc/addresses\<close>, \<open>include/msgpack_rpc/addresses\<close>): the URI
  class, its parser over three regular expressions, its formatter, and the TCP and Unix socket
  addresses. An asio TCP endpoint is a pair of an IP address, whose type and text are
  parameters, and a port; a Unix endpoint is its path.
\<close>

section \<open>URI\<close>

definition TCP_SCHEME :: string where "TCP_SCHEME = ''tcp''"

definition UNIX_SOCKET_SCHEME :: string where "UNIX_SOCKET_SCHEME = ''unix''"

record uri =
  scheme :: string
  host_or_path :: string
  port_number :: "u16 option"

definition uri_eq :: "uri \<Rightarrow> uri \<Rightarrow> bool" where
  "uri_eq a b \<longleftrightarrow>
     scheme a = scheme b \<and> host_or_path a = host_or_path b \<and> port_number a = port_number b"

lemma uri_eq_iff: "uri_eq a b \<longleftrightarrow> a = b"
  by (cases a; cases b) (auto simp: uri_eq_def)

section \<open>Parsing\<close>

text \<open>The class \<open>[a-zA-Z0-9+-.]\<close>: its last item is the range from plus to full stop.\<close>

definition ip_char :: "char \<Rightarrow> bool" where
  "ip_char c \<longleftrightarrow>
     (let n = (of_char c :: nat) in
       97 \<le> n \<and> n \<le> 122 \<or> 65 \<le> n \<and> n \<le> 90 \<or> 48 \<le> n \<and> n \<le> 57 \<or> 43 \<le> n \<and> n \<le> 46)"

text \<open>The class \<open>[a-zA-Z0-9+-.:]\<close>.\<close>

definition ipv6_char :: "char \<Rightarrow> bool" where
  "ipv6_char c \<longleftrightarrow> ip_char c \<or> c = CHR '':''"

definition path_char :: "char \<Rightarrow> bool" where
  "path_char c \<longleftrightarrow> c \<noteq> CHR 0x0A"

definition ip_regex :: "rx_item list" where
  "ip_regex = [GroupTxt ''tcp'', Txt ''://'', GroupPlus ip_char, Txt '':'', GroupPlus is_digit]"

definition ipv6_regex :: "rx_item list" where
  "ipv6_regex =
     [GroupTxt ''tcp'', Txt ''://['', GroupPlus ipv6_char, Txt '']:'', GroupPlus is_digit]"

definition file_path_regex :: "rx_item list" where
  "file_path_regex = [GroupTxt ''unix'', Txt ''://'', GroupPlus path_char]"

text \<open>
  \<open>FullMatch\<close> with a \<open>std::uint16_t\<close> argument for the third group: it fails when the digits do
  not fit.
\<close>

definition full_match_port :: "rx_item list \<Rightarrow> string \<Rightarrow> (string \<times> string \<times> u16) option" where
  "full_match_port rs s =
     (case rx_exec rs s of
        Some [sch, host, digits] \<Rightarrow>
          if read_nat digits < 2 ^ 16 then Some (sch, host, of_nat (read_nat digits)) else None
      | _ \<Rightarrow> None)"

definition full_match2 :: "rx_item list \<Rightarrow> string \<Rightarrow> (string \<times> string) option" where
  "full_match2 rs s = (case rx_exec rs s of Some [sch, path] \<Rightarrow> Some (sch, path) | _ \<Rightarrow> None)"

definition uri_of_match :: "string \<Rightarrow> string \<Rightarrow> u16 \<Rightarrow> (exn, uri) outcome" where
  "uri_of_match sch host port =
     (if sch = TCP_SCHEME then Ok \<lparr>scheme = sch, host_or_path = host, port_number = Some port\<rparr>
      else if sch = UNIX_SOCKET_SCHEME then
        Ok \<lparr>scheme = sch, host_or_path = host, port_number = None\<rparr>
      else throw_rpc UNEXPECTED_ERROR ''Unexpected line is executed.'')"

definition parse_uri :: "string \<Rightarrow> (exn, uri) outcome" where
  "parse_uri s =
     (case full_match_port ip_regex s of
        Some (sch, host, port) \<Rightarrow> uri_of_match sch host port
      | None \<Rightarrow>
     (case full_match_port ipv6_regex s of
        Some (sch, host, port) \<Rightarrow> uri_of_match sch host port
      | None \<Rightarrow>
     (case full_match2 file_path_regex s of
        Some (sch, path) \<Rightarrow> uri_of_match sch path 0
      | None \<Rightarrow>
          throw_rpc INVALID_ARGUMENT (''Invalid URI string: '' @ [CHR 0x22] @ s @ [CHR 0x22] @ ''.''))))"

section \<open>Formatting\<close>

definition format_uri :: "uri \<Rightarrow> string" where
  "format_uri u =
     scheme u @ ''://'' @
     (if scheme u = TCP_SCHEME then
        (if CHR '':'' \<notin> set (host_or_path u) then host_or_path u
         else ''['' @ host_or_path u @ '']'')
      else host_or_path u) @
     (case port_number u of None \<Rightarrow> [] | Some port \<Rightarrow> '':'' @ show_nat (unat port))"

section \<open>Addresses\<close>

type_synonym 'ip tcp_address = "'ip \<times> u16"

definition mk_tcp_address :: "(string \<Rightarrow> (exn, 'ip) outcome) \<Rightarrow> string \<Rightarrow> u16 \<Rightarrow> (exn, 'ip tcp_address) outcome" where
  "mk_tcp_address make_address ip port = bind_out (make_address ip) (\<lambda>a. Ok (a, port))"

definition tcp_to_uri :: "('ip \<Rightarrow> string) \<Rightarrow> 'ip tcp_address \<Rightarrow> uri" where
  "tcp_to_uri ip_text a =
     \<lparr>scheme = ''tcp'', host_or_path = ip_text (fst a), port_number = Some (snd a)\<rparr>"

definition tcp_to_string :: "('ip tcp_address \<Rightarrow> string) \<Rightarrow> 'ip tcp_address \<Rightarrow> string" where
  "tcp_to_string endpoint_text a = TCP_SCHEME @ ''://'' @ endpoint_text a"

type_synonym unix_address = string

definition unix_to_uri :: "unix_address \<Rightarrow> uri" where
  "unix_to_uri a = \<lparr>scheme = UNIX_SOCKET_SCHEME, host_or_path = a, port_number = None\<rparr>"

definition unix_to_string :: "unix_address \<Rightarrow> string" where
  "unix_to_string a = ''unix://'' @ a"

text \<open>
  What asio documents of the text of an endpoint: the address, in brackets when it is a version
  6 address (whose text has a colon), a colon, and the port.
\<close>

definition endpoint_text_documented :: "('ip \<Rightarrow> string) \<Rightarrow> ('ip tcp_address \<Rightarrow> string) \<Rightarrow> bool" where
  "endpoint_text_documented ip_text endpoint_text \<longleftrightarrow>
     (\<forall>ip port. endpoint_text (ip, port) =
        (if CHR '':'' \<in> set (ip_text ip) then ''['' @ ip_text ip @ '']'' else ip_text ip) @
        '':'' @ show_nat (unat port))"

section \<open>Meaning of the expressions\<close>

lemma list_all_split_unique:
  assumes "h @ c # d = h' @ c # d'" "list_all p h" "list_all p h'" "\<not> p c"
  shows "h = h' \<and> d = d'"
proof -
  have "takeWhile p (h @ c # d) = h" "takeWhile p (h' @ c # d') = h'"
    using assms(2-4) by (simp_all add: list_all_iff)
  with assms(1) show ?thesis by simp
qed

lemma not_ip_char_colon [simp]: "\<not> ip_char CHR '':''"
  by (simp add: ip_char_def)

lemma not_ipv6_char_bracket [simp]: "\<not> ipv6_char CHR '']''" "\<not> ipv6_char CHR ''[''" "\<not> ip_char CHR ''[''"
  by (simp_all add: ipv6_char_def ip_char_def)

lemma ip_regex_matches:
  "rx_matches ip_regex s caps \<longleftrightarrow>
     (\<exists>h d. s = ''tcp://'' @ h @ '':'' @ d \<and> h \<noteq> [] \<and> list_all ip_char h \<and> d \<noteq> [] \<and>
        list_all is_digit d \<and> caps = [''tcp'', h, d])"
  by (auto simp: ip_regex_def rx_matches_simps)

lemma ipv6_regex_matches:
  "rx_matches ipv6_regex s caps \<longleftrightarrow>
     (\<exists>h d. s = ''tcp://['' @ h @ '']:'' @ d \<and> h \<noteq> [] \<and> list_all ipv6_char h \<and> d \<noteq> [] \<and>
        list_all is_digit d \<and> caps = [''tcp'', h, d])"
  by (auto simp: ipv6_regex_def rx_matches_simps)

lemma file_path_regex_matches:
  "rx_matches file_path_regex s caps \<longleftrightarrow>
     (\<exists>p. s = ''unix://'' @ p \<and> p \<noteq> [] \<and> list_all path_char p \<and> caps = [''unix'', p])"
  by (auto simp: file_path_regex_def rx_matches_simps)

lemma ip_regex_exec:
  "rx_exec ip_regex s = Some caps \<longleftrightarrow> rx_matches ip_regex s caps"
proof
  assume m: "rx_matches ip_regex s caps"
  show "rx_exec ip_regex s = Some caps"
    using m by (rule rx_exec_unique) (use m in \<open>auto simp: ip_regex_matches dest: list_all_split_unique\<close>)
qed (rule rx_exec_sound)

lemma ipv6_regex_exec:
  "rx_exec ipv6_regex s = Some caps \<longleftrightarrow> rx_matches ipv6_regex s caps"
proof
  assume m: "rx_matches ipv6_regex s caps"
  show "rx_exec ipv6_regex s = Some caps"
    using m by (rule rx_exec_unique) (use m in \<open>auto simp: ipv6_regex_matches dest: list_all_split_unique\<close>)
qed (rule rx_exec_sound)

lemma file_path_regex_exec:
  "rx_exec file_path_regex s = Some caps \<longleftrightarrow> rx_matches file_path_regex s caps"
proof
  assume m: "rx_matches file_path_regex s caps"
  show "rx_exec file_path_regex s = Some caps"
    using m by (rule rx_exec_unique) (use m in \<open>auto simp: file_path_regex_matches\<close>)
qed (rule rx_exec_sound)

section \<open>Specification of the parser\<close>

definition port_numeral :: "string \<Rightarrow> bool" where
  "port_numeral d \<longleftrightarrow> d \<noteq> [] \<and> list_all is_digit d \<and> read_nat d < 2 ^ 16"

definition uri_text :: "string \<Rightarrow> uri \<Rightarrow> bool" where
  "uri_text s u \<longleftrightarrow>
     (\<exists>h d. s = ''tcp://'' @ h @ '':'' @ d \<and> h \<noteq> [] \<and> list_all ip_char h \<and> port_numeral d \<and>
        u = \<lparr>scheme = ''tcp'', host_or_path = h, port_number = Some (of_nat (read_nat d))\<rparr>) \<or>
     (\<exists>h d. s = ''tcp://['' @ h @ '']:'' @ d \<and> h \<noteq> [] \<and> list_all ipv6_char h \<and> port_numeral d \<and>
        u = \<lparr>scheme = ''tcp'', host_or_path = h, port_number = Some (of_nat (read_nat d))\<rparr>) \<or>
     (\<exists>p. s = ''unix://'' @ p \<and> p \<noteq> [] \<and> list_all path_char p \<and>
        u = \<lparr>scheme = ''unix'', host_or_path = p, port_number = None\<rparr>)"

lemma full_match_port_iff:
  "full_match_port rs s = Some (sch, h, port) \<longleftrightarrow>
     (\<exists>d. rx_exec rs s = Some [sch, h, d] \<and> read_nat d < 2 ^ 16 \<and> port = of_nat (read_nat d))"
  by (auto simp: full_match_port_def split: option.splits list.splits if_splits)

lemma full_match2_iff:
  "full_match2 rs s = Some (sch, h) \<longleftrightarrow> rx_exec rs s = Some [sch, h]"
  by (auto simp: full_match2_def split: option.splits list.splits)

lemma full_match_port_ip:
  "full_match_port ip_regex s = Some (sch, h, port) \<longleftrightarrow>
     (\<exists>d. s = ''tcp://'' @ h @ '':'' @ d \<and> h \<noteq> [] \<and> list_all ip_char h \<and> port_numeral d \<and>
        sch = ''tcp'' \<and> port = of_nat (read_nat d))"
  unfolding full_match_port_iff ip_regex_exec ip_regex_matches port_numeral_def by auto

lemma full_match_port_ipv6:
  "full_match_port ipv6_regex s = Some (sch, h, port) \<longleftrightarrow>
     (\<exists>d. s = ''tcp://['' @ h @ '']:'' @ d \<and> h \<noteq> [] \<and> list_all ipv6_char h \<and> port_numeral d \<and>
        sch = ''tcp'' \<and> port = of_nat (read_nat d))"
  unfolding full_match_port_iff ipv6_regex_exec ipv6_regex_matches port_numeral_def by auto

lemma full_match2_path:
  "full_match2 file_path_regex s = Some (sch, p) \<longleftrightarrow>
     s = ''unix://'' @ p \<and> p \<noteq> [] \<and> list_all path_char p \<and> sch = ''unix''"
  unfolding full_match2_iff file_path_regex_exec file_path_regex_matches by auto

lemmas full_match_simps = full_match_port_ip full_match_port_ipv6 full_match2_path

lemma uri_of_match_simps [simp]:
  "uri_of_match ''tcp'' h port = Ok \<lparr>scheme = ''tcp'', host_or_path = h, port_number = Some port\<rparr>"
  "uri_of_match ''unix'' h port = Ok \<lparr>scheme = ''unix'', host_or_path = h, port_number = None\<rparr>"
  by (simp_all add: uri_of_match_def TCP_SCHEME_def UNIX_SOCKET_SCHEME_def)

lemma not_ip_and_ipv6:
  "full_match_port ip_regex s = Some x \<Longrightarrow> full_match_port ipv6_regex s = None"
proof (rule ccontr)
  assume a: "full_match_port ip_regex s = Some x" "full_match_port ipv6_regex s \<noteq> None"
  obtain h d where "s = ''tcp://'' @ h @ '':'' @ d" "h \<noteq> []" "list_all ip_char h"
    using a(1) by (cases x) (auto simp: full_match_simps)
  moreover obtain h' d' where "s = ''tcp://['' @ h' @ '']:'' @ d'"
    using a(2) by (auto simp: full_match_simps)
  ultimately show False by (cases h) auto
qed

lemma not_tcp_and_path:
  "full_match_port ip_regex s = Some x \<Longrightarrow> full_match2 file_path_regex s = None"
  "full_match_port ipv6_regex s = Some x \<Longrightarrow> full_match2 file_path_regex s = None"
  by (cases x; cases "full_match2 file_path_regex s"; force simp: full_match_simps)+

lemma uri_textI:
  "h \<noteq> [] \<Longrightarrow> list_all ip_char h \<Longrightarrow> port_numeral d \<Longrightarrow>
     uri_text (''tcp://'' @ h @ '':'' @ d)
       \<lparr>scheme = ''tcp'', host_or_path = h, port_number = Some (of_nat (read_nat d))\<rparr>"
  "h \<noteq> [] \<Longrightarrow> list_all ipv6_char h \<Longrightarrow> port_numeral d \<Longrightarrow>
     uri_text (''tcp://['' @ h @ '']:'' @ d)
       \<lparr>scheme = ''tcp'', host_or_path = h, port_number = Some (of_nat (read_nat d))\<rparr>"
  "p \<noteq> [] \<Longrightarrow> list_all path_char p \<Longrightarrow>
     uri_text (''unix://'' @ p) \<lparr>scheme = ''unix'', host_or_path = p, port_number = None\<rparr>"
  unfolding uri_text_def by blast+

lemma parse_uri_sound: "parse_uri s = Ok u \<Longrightarrow> uri_text s u"
proof -
  assume p: "parse_uri s = Ok u"
  consider (ip) sch h port where "full_match_port ip_regex s = Some (sch, h, port)"
    | (ip6) sch h port where "full_match_port ip_regex s = None"
        "full_match_port ipv6_regex s = Some (sch, h, port)"
    | (path) sch h where "full_match_port ip_regex s = None" "full_match_port ipv6_regex s = None"
        "full_match2 file_path_regex s = Some (sch, h)"
    using p by (auto simp: parse_uri_def split: option.splits)
  then show ?thesis
  proof cases
    case ip
    with p show ?thesis using uri_textI(1) by (force simp: parse_uri_def full_match_simps)
  next
    case ip6
    with p show ?thesis using uri_textI(2) by (force simp: parse_uri_def full_match_port_ipv6)
  next
    case path
    with p show ?thesis using uri_textI(3) by (force simp: parse_uri_def full_match2_path)
  qed
qed

lemma parse_uri_complete: "uri_text s u \<Longrightarrow> parse_uri s = Ok u"
proof -
  assume t: "uri_text s u"
  consider (ip) h d where "full_match_port ip_regex s = Some (''tcp'', h, of_nat (read_nat d))"
      "u = \<lparr>scheme = ''tcp'', host_or_path = h, port_number = Some (of_nat (read_nat d))\<rparr>"
    | (ip6) h d where "full_match_port ipv6_regex s = Some (''tcp'', h, of_nat (read_nat d))"
      "u = \<lparr>scheme = ''tcp'', host_or_path = h, port_number = Some (of_nat (read_nat d))\<rparr>"
    | (path) p where "full_match2 file_path_regex s = Some (''unix'', p)"
      "u = \<lparr>scheme = ''unix'', host_or_path = p, port_number = None\<rparr>"
    using t unfolding uri_text_def full_match_simps by blast
  then show ?thesis
  proof cases
    case ip
    then show ?thesis by (simp add: parse_uri_def)
  next
    case ip6
    then show ?thesis using not_ip_and_ipv6 [of s]
      by (cases "full_match_port ip_regex s") (auto simp: parse_uri_def)
  next
    case path
    then show ?thesis using not_tcp_and_path [of s]
      by (cases "full_match_port ip_regex s"; cases "full_match_port ipv6_regex s")
        (auto simp: parse_uri_def)
  qed
qed

lemma parse_uri_ok_iff: "parse_uri s = Ok u \<longleftrightarrow> uri_text s u"
  by (blast intro: parse_uri_sound parse_uri_complete)


section \<open>Round trips\<close>

definition uri_wf :: "uri \<Rightarrow> bool" where
  "uri_wf u \<longleftrightarrow>
     scheme u = ''tcp'' \<and> port_number u \<noteq> None \<and> host_or_path u \<noteq> [] \<and>
       list_all ipv6_char (host_or_path u) \<or>
     scheme u = ''unix'' \<and> port_number u = None \<and> host_or_path u \<noteq> [] \<and>
       list_all path_char (host_or_path u)"

lemma port_numeral_show [simp]: "port_numeral (show_nat (unat (p :: u16)))"
proof -
  have "unat p < 2 ^ 16" using unsigned_less [of p] by simp
  then show ?thesis by (simp add: port_numeral_def show_nat_digits)
qed

lemma ipv6_char_no_colon: "list_all ipv6_char h \<Longrightarrow> CHR '':'' \<notin> set h \<Longrightarrow> list_all ip_char h"
  by (auto simp: list_all_iff ipv6_char_def)

lemma uri_text_format: "uri_wf u \<Longrightarrow> uri_text (format_uri u) u"
proof -
  assume wf: "uri_wf u"
  obtain sch h p where u: "u = \<lparr>scheme = sch, host_or_path = h, port_number = p\<rparr>" by (cases u)
  show ?thesis
  proof (cases "sch = ''tcp''")
    case True
    with wf u obtain port where p: "p = Some port" by (auto simp: uri_wf_def)
    have "port_numeral (show_nat (unat port)) \<and> of_nat (read_nat (show_nat (unat port))) = port"
      by simp
    then show ?thesis
      using wf u p True ipv6_char_no_colon [of h]
      by (cases "CHR '':'' \<in> set h") (auto simp: uri_wf_def uri_text_def format_uri_def TCP_SCHEME_def)
  next
    case False
    with wf u show ?thesis by (auto simp: uri_wf_def uri_text_def format_uri_def TCP_SCHEME_def)
  qed
qed

lemma uri_text_wf: "uri_text s u \<Longrightarrow> uri_wf u"
  by (auto simp: uri_text_def uri_wf_def list_all_iff ipv6_char_def)

lemma parse_format_iff: "parse_uri (format_uri u) = Ok u \<longleftrightarrow> uri_wf u"
  using uri_text_format [of u] uri_text_wf parse_uri_ok_iff by blast


text \<open>
  The last range of the host class reaches from plus to full stop, so it holds the comma: a host
  with a comma is accepted.
\<close>

theorem comma_host_accepted:
  "parse_uri ''tcp://a,b:80'' = Ok \<lparr>scheme = ''tcp'', host_or_path = ''a,b'', port_number = Some 80\<rparr>"
proof -
  have "uri_text (''tcp://'' @ ''a,b'' @ '':'' @ ''80'')
      \<lparr>scheme = ''tcp'', host_or_path = ''a,b'', port_number = Some (of_nat (read_nat ''80''))\<rparr>"
    by (rule uri_textI)
      (simp_all add: ip_char_def port_numeral_def is_digit_def read_nat_def digit_value_def)
  then show ?thesis
    by (simp add: parse_uri_ok_iff read_nat_def digit_value_def)
qed

text \<open>
  The text of an address is the text of its URI, for Unix addresses always and for TCP
  addresses when asio prints endpoints as it documents; so parsing the text of a TCP address
  gives back its URI whenever the text of the IP address is made of the characters of the
  bracket class.
\<close>

theorem address_text_is_uri_text:
  assumes "endpoint_text_documented ip_text endpoint_text"
  shows "tcp_to_string endpoint_text a = format_uri (tcp_to_uri ip_text a) \<and>
    unix_to_string p = format_uri (unix_to_uri p) \<and>
    (ip_text (fst a) \<noteq> [] \<and> list_all ipv6_char (ip_text (fst a)) \<longrightarrow>
       parse_uri (tcp_to_string endpoint_text a) = Ok (tcp_to_uri ip_text a))"
proof -
  have tcp: "tcp_to_string endpoint_text a = format_uri (tcp_to_uri ip_text a)"
    using assms by (cases a) (simp add: endpoint_text_documented_def tcp_to_string_def tcp_to_uri_def
        format_uri_def TCP_SCHEME_def)
  have unix: "unix_to_string p = format_uri (unix_to_uri p)"
    by (simp add: unix_to_string_def unix_to_uri_def format_uri_def TCP_SCHEME_def UNIX_SOCKET_SCHEME_def)
  have "parse_uri (tcp_to_string endpoint_text a) = Ok (tcp_to_uri ip_text a) \<longleftrightarrow>
      uri_wf (tcp_to_uri ip_text a)"
    unfolding tcp by (rule parse_format_iff)
  with tcp unix show ?thesis by (auto simp: uri_wf_def tcp_to_uri_def)
qed

text \<open>An instance: asio addresses given by their text, and the endpoint text asio documents.\<close>

definition asio_endpoint_text :: "string tcp_address \<Rightarrow> string" where
  "asio_endpoint_text a =
     (if CHR '':'' \<in> set (fst a) then ''['' @ fst a @ '']'' else fst a) @ '':'' @ show_nat (unat (snd a))"

theorem address_text_is_uri_text_witness:
  "parse_uri (tcp_to_string asio_endpoint_text (''::1'', 80)) = Ok (tcp_to_uri id (''::1'', 80))"
proof -
  have "endpoint_text_documented id asio_endpoint_text"
    by (simp add: endpoint_text_documented_def asio_endpoint_text_def)
  from address_text_is_uri_text [OF this, of "(''::1'', 80)" "''p''"]
  have "id (fst (''::1'', 80 :: u16)) \<noteq> [] \<and> list_all ipv6_char (id (fst (''::1'', 80 :: u16))) \<longrightarrow>
      parse_uri (tcp_to_string asio_endpoint_text (''::1'', 80)) = Ok (tcp_to_uri id (''::1'', 80))"
    by (rule conjunct2 [OF conjunct2])
  moreover have "list_all ipv6_char ''::1''" by (simp add: ipv6_char_def ip_char_def)
  ultimately show ?thesis by simp
qed

end
