(* ===== verification/Handles.thy ===== *)
theory Handles
  imports Prelude
begin

text \<open>
  Variables that hold counted references, as two parts of the library do by hand, serialized
  messages (\<open>src/msgpack_rpc/messages/serialized_message.cpp\<close>) and the objects of a memory
  pool (\<open>include/msgpack_rpc/util/impl/shared_objects.h\<close>), and others with \<open>std::shared_ptr\<close>.

  A store of variables maps the live variables to what they hold, a pointer or null. The locale
  states what a provider of counted resources promises of its count, its increment and its
  decrement; inside it, the operations of a handle class keep the counts equal to the numbers
  of handles, so that nothing is freed early, nothing is freed twice and nothing leaks.
\<close>

type_synonym ('v, 'p) handles = "'v \<rightharpoonup> 'p option"

definition handle_count :: "('v, 'p) handles \<Rightarrow> 'p \<Rightarrow> nat" where
  "handle_count vars p = card {v. vars v = Some (Some p)}"

lemma finite_holders: "finite (dom vars) \<Longrightarrow> finite {v. vars v = Some (Some p)}"
  by (rule finite_subset [of _ "dom vars"]) auto

lemma handle_count_pos:
  "finite (dom vars) \<Longrightarrow> vars v = Some (Some p) \<Longrightarrow> 0 < handle_count vars p"
  unfolding handle_count_def by (subst card_gt_0_iff) (auto simp: finite_holders)

lemma handle_count_zero_iff:
  "finite (dom vars) \<Longrightarrow> handle_count vars p = 0 \<longleftrightarrow> (\<forall>v. vars v \<noteq> Some (Some p))"
  unfolding handle_count_def by (subst card_eq_0_iff) (auto simp: finite_holders)

lemma handle_count_forget:
  assumes "finite (dom vars)" and "x \<noteq> Some (Some p)"
  shows "handle_count (vars(v := x)) p =
    handle_count vars p - (if vars v = Some (Some p) then 1 else 0)"
proof -
  have "{u. (vars(v := x)) u = Some (Some p)} = {u. vars u = Some (Some p)} - {v}"
    using assms(2) by auto
  then show ?thesis
    unfolding handle_count_def using finite_holders [OF assms(1), of p] by (simp add: card_Diff_singleton_if)
qed

lemma handle_count_bind:
  assumes "finite (dom vars)"
  shows "handle_count (vars(v \<mapsto> Some p)) p =
    handle_count vars p + (if vars v = Some (Some p) then 0 else 1)"
proof -
  have "{u. (vars(v \<mapsto> Some p)) u = Some (Some p)} = insert v {u. vars u = Some (Some p)}"
    by auto
  then show ?thesis
    unfolding handle_count_def using finite_holders [OF assms, of p] by (simp add: card_insert_if)
qed

lemma handle_count_other:
  "x \<noteq> Some (Some q) \<Longrightarrow> vars v \<noteq> Some (Some q) \<Longrightarrow> handle_count (vars(v := x)) q = handle_count vars q"
  unfolding handle_count_def by (rule arg_cong [where f = card]) auto

lemma handle_count_swap:
  assumes "finite (dom vars)" and "vars v = Some x" and "vars w = Some y"
  shows "handle_count (vars(v \<mapsto> y, w \<mapsto> x)) p = handle_count vars p"
proof -
  let ?f = "\<lambda>u. if u = v then w else if u = w then v else u"
  have "{u. (vars(v \<mapsto> y, w \<mapsto> x)) u = Some (Some p)} = ?f ` {u. vars u = Some (Some p)}"
    using assms(2,3) by (auto simp: image_iff split: if_splits)
  moreover have "inj_on ?f {u. vars u = Some (Some p)}"
    by (auto simp: inj_on_def split: if_splits)
  ultimately show ?thesis unfolding handle_count_def by (simp only: card_image)
qed

locale counted_resource =
  fixes cnt :: "'s \<Rightarrow> 'p \<Rightarrow> nat option"
    and add_ref :: "'p \<Rightarrow> 's \<Rightarrow> 's option"
    and release :: "'p \<Rightarrow> 's \<Rightarrow> 's option"
  assumes add_ref: "cnt s p = Some n \<Longrightarrow> \<exists>s'. add_ref p s = Some s' \<and> cnt s' = (cnt s)(p \<mapsto> Suc n)"
    and release_last: "cnt s p = Some (Suc 0) \<Longrightarrow>
      \<exists>s'. release p s = Some s' \<and> cnt s' = (cnt s)(p := None)"
    and release_more: "cnt s p = Some (Suc (Suc n)) \<Longrightarrow>
      \<exists>s'. release p s = Some s' \<and> cnt s' = (cnt s)(p \<mapsto> Suc n)"
begin

definition consistent :: "'s \<Rightarrow> ('v, 'p) handles \<Rightarrow> bool" where
  "consistent s vars \<longleftrightarrow> finite (dom vars) \<and>
     (\<forall>p. cnt s p = (if handle_count vars p = 0 then None else Some (handle_count vars p)))"

lemma consistent_live:
  "consistent s vars \<Longrightarrow> vars v = Some (Some p) \<Longrightarrow> cnt s p = Some (handle_count vars p)"
  using handle_count_pos [of vars v p] by (simp add: consistent_def)

lemma consistent_freed:
  "consistent s vars \<Longrightarrow> cnt s p = None \<longleftrightarrow> (\<forall>v. vars v \<noteq> Some (Some p))"
  using handle_count_zero_iff [of vars p] by (simp add: consistent_def)

text \<open>Copying a handle into a variable that holds nothing.\<close>

lemma copy_consistent:
  assumes c: "consistent s vars" and w: "vars w = Some (Some p)"
    and v: "vars v = None \<or> vars v = Some None"
  shows "\<exists>s'. add_ref p s = Some s' \<and> consistent s' (vars(v \<mapsto> Some p))"
proof -
  let ?n = "handle_count vars p"
  have fin: "finite (dom vars)" using c by (simp add: consistent_def)
  from add_ref [OF consistent_live [OF c w]] obtain s' where
    s': "add_ref p s = Some s'" "cnt s' = (cnt s)(p \<mapsto> Suc ?n)" by blast
  have "cnt s' q = (if handle_count (vars(v \<mapsto> Some p)) q = 0 then None
      else Some (handle_count (vars(v \<mapsto> Some p)) q))" for q
    using c v s'(2) handle_count_bind [OF fin, of v p] handle_count_other [of "Some (Some p)" q vars v]
    by (cases "q = p") (auto simp: consistent_def)
  then show ?thesis using s' fin by (auto simp: consistent_def)
qed

text \<open>Dropping the handle a variable holds; the variable ends (\<open>x = None\<close>) or holds null.\<close>

lemma drop_consistent:
  assumes c: "consistent s vars" and v: "vars v = Some (Some p)"
    and x: "x = None \<or> x = Some None"
  shows "\<exists>s'. release p s = Some s' \<and> consistent s' (vars(v := x))"
proof -
  let ?n = "handle_count vars p"
  have fin: "finite (dom vars)" using c by (simp add: consistent_def)
  have live: "cnt s p = Some ?n" using consistent_live [OF c v] .
  have pos: "0 < ?n" using handle_count_pos [OF fin v] .
  obtain s' where s': "release p s = Some s'"
      "cnt s' = (cnt s)(p := if ?n = 1 then None else Some (?n - 1))"
  proof (cases "?n = 1")
    case True
    with live release_last [of s p] that show thesis by auto
  next
    case False
    define m where "m = ?n - 2"
    have m: "?n = Suc (Suc m)" using pos False unfolding m_def by arith
    with live have "cnt s p = Some (Suc (Suc m))" by simp
    then obtain s' where "release p s = Some s'" "cnt s' = (cnt s)(p \<mapsto> Suc m)"
      using release_more by blast
    with m that [of s'] show thesis by simp
  qed
  have at_p: "handle_count (vars(v := x)) p = ?n - 1"
    using handle_count_forget [OF fin, of x p v] v x by auto
  have off_p: "q \<noteq> p \<Longrightarrow> handle_count (vars(v := x)) q = handle_count vars q" for q
    by (rule handle_count_other) (use v x in auto)
  have "cnt s' q = (if handle_count (vars(v := x)) q = 0 then None
      else Some (handle_count (vars(v := x)) q))" for q
  proof (cases "q = p")
    case True
    then show ?thesis using pos by (simp add: at_p s'(2))
  next
    case False
    then show ?thesis using c by (simp add: off_p s'(2) consistent_def)
  qed
  moreover have "finite (dom (vars(v := x)))" using fin by (cases x) auto
  ultimately show ?thesis using s'(1) by (auto simp: consistent_def)
qed

text \<open>Handles that hold nothing come and go, and two handles may be swapped.\<close>

lemma null_consistent:
  assumes "consistent s vars" and "vars v = None \<or> vars v = Some None" and "x = None \<or> x = Some None"
  shows "consistent s (vars(v := x))"
proof -
  have "handle_count (vars(v := x)) q = handle_count vars q" for q
    using assms(2,3) by (auto intro!: handle_count_other)
  moreover have "finite (dom (vars(v := x)))" using assms by (cases x) (auto simp: consistent_def)
  ultimately show ?thesis using assms(1) by (simp add: consistent_def)
qed

lemma swap_consistent:
  assumes "consistent s vars" and "vars v = Some x" and "vars w = Some y"
  shows "consistent s (vars(v \<mapsto> y, w \<mapsto> x))"
  using assms handle_count_swap [of vars v x w y] by (simp add: consistent_def)

text \<open>A first handle for a resource that was not live.\<close>

lemma fresh_consistent:
  assumes c: "consistent s vars" and p: "cnt s p = None" and v: "vars v = None \<or> vars v = Some None"
    and s': "cnt s' = (cnt s)(p \<mapsto> Suc 0)"
  shows "consistent s' (vars(v \<mapsto> Some p))"
proof -
  have fin: "finite (dom vars)" using c by (simp add: consistent_def)
  have zero: "handle_count vars p = 0" using c p by (simp add: consistent_def split: if_splits)
  have "cnt s' q = (if handle_count (vars(v \<mapsto> Some p)) q = 0 then None
      else Some (handle_count (vars(v \<mapsto> Some p)) q))" for q
    using c v s' zero handle_count_bind [OF fin, of v p] handle_count_other [of "Some (Some p)" q vars v]
    by (cases "q = p") (auto simp: consistent_def)
  then show ?thesis using fin by (simp add: consistent_def)
qed

lemma same_counts_consistent: "consistent s vars \<Longrightarrow> cnt s' = cnt s \<Longrightarrow> consistent s' vars"
  by (simp add: consistent_def)

end

end
