(* ===== verification/Sharable_Binary.thy ===== *)
theory Sharable_Binary
  imports Exceptions Handles
begin

text \<open>
  The memory blocks behind serialized messages
  (\<open>src/msgpack_rpc/messages/impl/sharable_binary_header.h\<close>) and the buffer that fills them
  (\<open>src/msgpack_rpc/messages/impl/serialization_buffer.cpp\<close>).

  Memory is a map from addresses to blocks; a block is the header and the bytes written behind
  it so far. Addresses are not reused, so any use of a freed block is caught as undefined
  behaviour. Sizes are 64-bit words with their wrap-around. \<open>HEADER_SIZE\<close> is
  \<open>sizeof(SharableBinaryHeader)\<close> on a 64-bit target: three 8-byte sizes, a 4-byte counter and a
  \<open>bool\<close>, padded to 8 bytes. Whether \<open>malloc\<close> can serve a request of a size is the parameter
  \<open>mem_ok\<close>. The counter is an unbounded integer.
\<close>

section \<open>Blocks\<close>

record binary_block =
  total_memory_size :: u64
  binary_size :: u64
  binary_capacity :: u64
  reference_count :: int
  rc_enabled :: bool
  payload :: bytes

record memory =
  blocks :: "nat \<rightharpoonup> binary_block"
  next_addr :: nat

definition HEADER_SIZE :: u64 where "HEADER_SIZE = 32"

definition INITIAL_TOTAL_SIZE :: u64 where "INITIAL_TOTAL_SIZE = 128"

abbreviation bad_alloc :: exn where "bad_alloc \<equiv> StdException ''std::bad_alloc''"

definition put_block :: "binary_block \<Rightarrow> memory \<Rightarrow> nat \<times> memory" where
  "put_block b m =
     (next_addr m, m\<lparr>blocks := (blocks m)(next_addr m \<mapsto> b), next_addr := Suc (next_addr m)\<rparr>)"

definition allocate_sharable_binary :: "(u64 \<Rightarrow> bool) \<Rightarrow> u64 \<Rightarrow> memory \<Rightarrow> (exn, nat \<times> memory) outcome" where
  "allocate_sharable_binary mem_ok sz m =
     (let total = HEADER_SIZE + sz in
      if \<not> mem_ok total then Throw bad_alloc
      else Ok (put_block \<lparr>total_memory_size = total, binary_size = sz, binary_capacity = sz,
                 reference_count = 0, rc_enabled = False, payload = []\<rparr> m))"

definition allocate_shared_binary :: "(u64 \<Rightarrow> bool) \<Rightarrow> memory \<Rightarrow> (exn, nat \<times> memory) outcome" where
  "allocate_shared_binary mem_ok m =
     (if \<not> mem_ok INITIAL_TOTAL_SIZE then Throw bad_alloc
      else Ok (put_block \<lparr>total_memory_size = INITIAL_TOTAL_SIZE, binary_size = 0,
                 binary_capacity = INITIAL_TOTAL_SIZE - HEADER_SIZE,
                 reference_count = 0, rc_enabled = False, payload = []\<rparr> m))"

text \<open>The doubling loop, which tests after it doubles; \<open>None\<close> is a loop that does not end.\<close>

partial_function (option) expand_capacity :: "u64 \<Rightarrow> u64 \<Rightarrow> u64 option" where
  "expand_capacity new_capacity required =
     (let new_capacity = push_bit 1 new_capacity in
      if required \<le> new_capacity then Some new_capacity
      else expand_capacity new_capacity required)"

definition expand_sharable_binary ::
    "(u64 \<Rightarrow> bool) \<Rightarrow> nat \<Rightarrow> u64 \<Rightarrow> memory \<Rightarrow> (exn, nat \<times> memory) outcome" where
  "expand_sharable_binary mem_ok p required m =
     (case blocks m p of
        None \<Rightarrow> Undefined
      | Some b \<Rightarrow>
         if rc_enabled b then Undefined
         else case expand_capacity (binary_capacity b) required of
           None \<Rightarrow> Undefined
         | Some new_capacity \<Rightarrow>
             let new_total = HEADER_SIZE + new_capacity in
             if \<not> mem_ok new_total then Throw bad_alloc
             else Ok (put_block
               (b\<lparr>total_memory_size := new_total, binary_capacity := new_total - HEADER_SIZE\<rparr>)
               (m\<lparr>blocks := (blocks m)(p := None)\<rparr>)))"

definition deallocate_sharable_binary :: "nat option \<Rightarrow> memory \<Rightarrow> (exn, memory) outcome" where
  "deallocate_sharable_binary ptr m =
     (case ptr of
        None \<Rightarrow> Ok m
      | Some p \<Rightarrow> (case blocks m p of
           None \<Rightarrow> Undefined
         | Some b \<Rightarrow> Ok (m\<lparr>blocks := (blocks m)(p := None)\<rparr>)))"

definition enable_reference_count :: "nat \<Rightarrow> memory \<Rightarrow> (exn, memory) outcome" where
  "enable_reference_count p m =
     (case blocks m p of
        None \<Rightarrow> Undefined
      | Some b \<Rightarrow> if rc_enabled b then Undefined
                  else Ok (m\<lparr>blocks := (blocks m)(p \<mapsto> b\<lparr>reference_count := 1, rc_enabled := True\<rparr>)\<rparr>))"

definition add_reference_count :: "nat option \<Rightarrow> memory \<Rightarrow> (exn, memory) outcome" where
  "add_reference_count ptr m =
     (case ptr of None \<Rightarrow> Undefined
      | Some p \<Rightarrow> (case blocks m p of
          None \<Rightarrow> Undefined
        | Some b \<Rightarrow> if \<not> rc_enabled b then Undefined
            else Ok (m\<lparr>blocks := (blocks m)(p \<mapsto> b\<lparr>reference_count := reference_count b + 1\<rparr>)\<rparr>)))"

definition decrease_reference_count :: "nat option \<Rightarrow> memory \<Rightarrow> (exn, memory) outcome" where
  "decrease_reference_count ptr m =
     (case ptr of None \<Rightarrow> Undefined
      | Some p \<Rightarrow> (case blocks m p of
          None \<Rightarrow> Undefined
        | Some b \<Rightarrow> if \<not> rc_enabled b then Undefined
            else let m' = m\<lparr>blocks := (blocks m)(p \<mapsto> b\<lparr>reference_count := reference_count b - 1\<rparr>)\<rparr> in
              if reference_count b = 1 then deallocate_sharable_binary (Some p) m' else Ok m'))"

text \<open>\<open>memcpy\<close> of bytes behind the ones already there; past the capacity it is undefined.\<close>

definition append_payload :: "nat \<Rightarrow> bytes \<Rightarrow> memory \<Rightarrow> (exn, memory) outcome" where
  "append_payload p data m =
     (case blocks m p of
        None \<Rightarrow> Undefined
      | Some b \<Rightarrow>
          if length (payload b) + length data \<le> unat (binary_capacity b)
          then Ok (m\<lparr>blocks := (blocks m)(p \<mapsto> b\<lparr>payload := payload b @ data\<rparr>)\<rparr>)
          else Undefined)"

section \<open>The serialization buffer\<close>

text \<open>
  A buffer is its pointer, which is null once the buffer has been released. The offset of the
  copy is \<open>binary_size\<close>, which the invariant below keeps equal to the number of bytes written.
\<close>

definition buffer_init :: "(u64 \<Rightarrow> bool) \<Rightarrow> memory \<Rightarrow> (exn, nat option \<times> memory) outcome" where
  "buffer_init mem_ok m = bind_out (allocate_shared_binary mem_ok m) (\<lambda>(p, m). Ok (Some p, m))"

definition ensure_capacity ::
    "(u64 \<Rightarrow> bool) \<Rightarrow> nat \<Rightarrow> binary_block \<Rightarrow> u64 \<Rightarrow> memory \<Rightarrow> (exn, nat \<times> memory) outcome" where
  "ensure_capacity mem_ok p b required m =
     (if binary_capacity b < required then expand_sharable_binary mem_ok p required m else Ok (p, m))"

definition buffer_write ::
    "(u64 \<Rightarrow> bool) \<Rightarrow> bytes \<Rightarrow> nat option \<times> memory \<Rightarrow> (exn, nat option \<times> memory) outcome" where
  "buffer_write mem_ok data = (\<lambda>(ptr, m).
     case ptr of None \<Rightarrow> Undefined
     | Some p \<Rightarrow> (case blocks m p of
         None \<Rightarrow> Undefined
       | Some b \<Rightarrow>
          let n = of_nat (length data) in
          bind_out
            (ensure_capacity mem_ok p b (binary_size b + n) m)
            (\<lambda>(p, m).
               bind_out (append_payload p data m) (\<lambda>m.
                 case blocks m p of None \<Rightarrow> Undefined
                 | Some b \<Rightarrow>
                     Ok (Some p, m\<lparr>blocks := (blocks m)(p \<mapsto> b\<lparr>binary_size := binary_size b + n\<rparr>)\<rparr>)))))"

definition buffer_release :: "nat option \<times> memory \<Rightarrow> (exn, nat \<times> (nat option \<times> memory)) outcome" where
  "buffer_release = (\<lambda>(ptr, m).
     case ptr of None \<Rightarrow> Undefined
     | Some p \<Rightarrow> bind_out (enable_reference_count p m) (\<lambda>m. Ok (p, None, m)))"

definition buffer_destroy :: "nat option \<times> memory \<Rightarrow> (exn, memory) outcome" where
  "buffer_destroy = (\<lambda>(ptr, m). deallocate_sharable_binary ptr m)"

fun buffer_write_all ::
    "(u64 \<Rightarrow> bool) \<Rightarrow> bytes list \<Rightarrow> nat option \<times> memory \<Rightarrow> (exn, nat option \<times> memory) outcome" where
  "buffer_write_all mem_ok [] s = Ok s"
| "buffer_write_all mem_ok (c # cs) s = bind_out (buffer_write mem_ok c s) (buffer_write_all mem_ok cs)"

section \<open>The doubling loop\<close>

lemma unat_double: "2 * unat (c :: u64) < 2 ^ 64 \<Longrightarrow> unat (push_bit 1 c) = 2 * unat c"
  by (simp add: push_bit_eq_mult unat_word_ariths)

lemma expand_capacity_returns:
  assumes "0 < unat c" "unat c < unat r" "unat r \<le> 2 ^ 63"
  shows "\<exists>c'. expand_capacity c r = Some c' \<and> unat r \<le> unat c' \<and> unat c' < 2 * unat r"
  using assms
proof (induction "unat r - unat c" arbitrary: c rule: less_induct)
  case less
  have d: "unat (push_bit 1 c) = 2 * unat c"
    using less.prems by (intro unat_double) simp
  show ?case
  proof (cases "r \<le> push_bit 1 c")
    case True
    then have "unat r \<le> 2 * unat c" using d by (simp add: word_le_nat_alt)
    then show ?thesis
      using True d less.prems by (subst expand_capacity.simps) (simp add: Let_def)
  next
    case False
    then have "2 * unat c < unat r" using d by (simp add: word_le_nat_alt)
    then have "\<exists>c'. expand_capacity (push_bit 1 c) r = Some c' \<and> unat r \<le> unat c' \<and>
        unat c' < 2 * unat r"
      using d less.prems by (intro less.hyps) auto
    then show ?thesis using False by (subst expand_capacity.simps) (simp add: Let_def)
  qed
qed

text \<open>From capacity zero the loop never ends.\<close>

lemma expand_capacity_zero:
  assumes "expand_capacity c r = Some c'" and "c = 0" and "0 < r"
  shows False
proof -
  have "c = 0 \<longrightarrow> 0 < r \<longrightarrow> False"
  proof (rule expand_capacity.raw_induct [where P = "\<lambda>c r _. c = 0 \<longrightarrow> 0 < r \<longrightarrow> False", OF _ assms(1)])
    fix f :: "u64 \<Rightarrow> u64 \<Rightarrow> u64 option" and c r c'
    assume IH: "\<And>c r c'. f c r = Some c' \<Longrightarrow> c = 0 \<longrightarrow> 0 < r \<longrightarrow> False"
      and eq: "(let c = push_bit 1 c in if r \<le> c then Some c else f c r) = Some c'"
    show "c = 0 \<longrightarrow> 0 < r \<longrightarrow> False"
      using eq IH by (auto simp: Let_def split: if_splits)
  qed
  with assms(2,3) show False by simp
qed

section \<open>Correctness of the buffer\<close>

definition memory_wf :: "memory \<Rightarrow> bool" where
  "memory_wf m \<longleftrightarrow> (\<forall>p \<ge> next_addr m. blocks m p = None)"

definition buffer_ok :: "binary_block \<Rightarrow> bool" where
  "buffer_ok b \<longleftrightarrow>
     \<not> rc_enabled b \<and> unat (binary_size b) = length (payload b) \<and>
     binary_size b \<le> binary_capacity b \<and> 0 < binary_capacity b \<and>
     unat (binary_capacity b) < 2 ^ 63 \<and>
     total_memory_size b = HEADER_SIZE + binary_capacity b"

text \<open>The largest message considered, \<open>2 ^ 62\<close> bytes: below it no size of the code wraps around.\<close>

definition MAX_MESSAGE :: nat where "MAX_MESSAGE = 2 ^ 62"

lemma memory_wf_put: "memory_wf m \<Longrightarrow> put_block b m = (p, m') \<Longrightarrow>
    memory_wf m' \<and> blocks m p = None \<and> blocks m' = (blocks m)(p \<mapsto> b)"
  by (auto simp: memory_wf_def put_block_def)

lemma memory_wf_del: "memory_wf m \<Longrightarrow> memory_wf (m\<lparr>blocks := (blocks m)(p := None)\<rparr>)"
  by (auto simp: memory_wf_def)

lemma memory_wf_upd: "memory_wf m \<Longrightarrow> blocks m p = Some b \<Longrightarrow>
    memory_wf (m\<lparr>blocks := (blocks m)(p \<mapsto> c)\<rparr>)"
  by (force simp: memory_wf_def)

lemma unat_add_small:
  "unat (a :: u64) + n < 2 ^ 64 \<Longrightarrow> unat (a + of_nat n) = unat a + n"
  by (simp add: unat_word_ariths unat_of_nat)

lemma buffer_init_ok:
  assumes "memory_wf m"
  shows "buffer_init mem_ok m = Throw bad_alloc \<and> \<not> (\<forall>n. mem_ok n) \<or>
    (\<exists>p m' b. buffer_init mem_ok m = Ok (Some p, m') \<and> memory_wf m' \<and> blocks m p = None \<and>
       blocks m' = (blocks m)(p \<mapsto> b) \<and> buffer_ok b \<and> payload b = [])"
proof (cases "mem_ok INITIAL_TOTAL_SIZE")
  case True
  let ?b = "\<lparr>total_memory_size = INITIAL_TOTAL_SIZE, binary_size = 0,
     binary_capacity = INITIAL_TOTAL_SIZE - HEADER_SIZE, reference_count = 0, rc_enabled = False, payload = []\<rparr>"
  obtain p m' where pm: "put_block ?b m = (p, m')" by fastforce
  have "buffer_ok ?b" by (simp add: buffer_ok_def INITIAL_TOTAL_SIZE_def HEADER_SIZE_def)
  then show ?thesis
    using True pm memory_wf_put [OF assms pm]
    by (auto simp: buffer_init_def allocate_shared_binary_def)
qed (auto simp: buffer_init_def allocate_shared_binary_def)

text \<open>Making room: afterwards the block has space for the requested size.\<close>

lemma make_room_ok:
  assumes wf: "memory_wf m" and b: "blocks m p = Some b" and ok: "buffer_ok b"
    and r: "unat r \<le> MAX_MESSAGE" "binary_size b \<le> r"
  shows "ensure_capacity mem_ok p b r m = Throw bad_alloc \<and> \<not> (\<forall>n. mem_ok n) \<or>
    (\<exists>p' m' b'. ensure_capacity mem_ok p b r m = Ok (p', m') \<and> memory_wf m' \<and> (p' = p \<or> blocks m p' = None) \<and>
       blocks m' = (blocks m)(p := None, p' \<mapsto> b') \<and> buffer_ok b' \<and> payload b' = payload b \<and>
       binary_size b' = binary_size b \<and> r \<le> binary_capacity b')"
proof (cases "binary_capacity b < r")
  case False
  then show ?thesis
    using wf b ok unfolding ensure_capacity_def by (intro disjI2 exI [of _ p] exI [of _ m] exI [of _ b]) auto
next
  case True
  have cap: "0 < unat (binary_capacity b)" "unat (binary_capacity b) < unat r"
    using ok True by (auto simp: buffer_ok_def word_less_nat_alt)
  then obtain c' where c': "expand_capacity (binary_capacity b) r = Some c'" "unat r \<le> unat c'"
      "unat c' < 2 * unat r"
    using expand_capacity_returns [of "binary_capacity b" r] r(1) by (auto simp: MAX_MESSAGE_def)
  have small: "unat c' < 2 ^ 63" using c'(3) r(1) by (simp add: MAX_MESSAGE_def)
  let ?b' = "b\<lparr>total_memory_size := HEADER_SIZE + c', binary_capacity := c'\<rparr>"
  let ?m = "m\<lparr>blocks := (blocks m)(p := None)\<rparr>"
  obtain p' m' where pm: "put_block ?b' ?m = (p', m')" by fastforce
  have "buffer_ok ?b'"
    using ok c' cap small r(2) by (auto simp: buffer_ok_def word_le_nat_alt word_less_nat_alt)
  moreover have "p' = p \<or> blocks m p' = None"
    using memory_wf_put [OF memory_wf_del [OF wf] pm] by (auto split: if_splits)
  ultimately show ?thesis
    using True b ok c' pm memory_wf_put [OF memory_wf_del [OF wf] pm]
    unfolding ensure_capacity_def expand_sharable_binary_def
    by (auto simp: buffer_ok_def Let_def word_le_nat_alt)
qed

lemma buffer_write_ok:
  assumes wf: "memory_wf m" and b: "blocks m p = Some b" and ok: "buffer_ok b"
    and len: "length (payload b) + length data \<le> MAX_MESSAGE"
  shows "buffer_write mem_ok data (Some p, m) = Throw bad_alloc \<and> \<not> (\<forall>n. mem_ok n) \<or>
    (\<exists>p' m' b'. buffer_write mem_ok data (Some p, m) = Ok (Some p', m') \<and> memory_wf m' \<and>
       (p' = p \<or> blocks m p' = None) \<and> blocks m' = (blocks m)(p := None, p' \<mapsto> b') \<and>
       buffer_ok b' \<and> payload b' = payload b @ data)"
proof -
  let ?r = "binary_size b + of_nat (length data)"
  have sz: "unat (binary_size b) = length (payload b)" using ok by (simp add: buffer_ok_def)
  have r: "unat ?r = length (payload b) + length data"
    using len unfolding sz [symmetric] by (intro unat_add_small) (simp add: MAX_MESSAGE_def)
  have "binary_size b \<le> ?r" using r sz by (simp add: word_le_nat_alt)
  then consider
      (oom) "ensure_capacity mem_ok p b ?r m = Throw bad_alloc" "\<not> (\<forall>n. mem_ok n)"
    | (room) p' m' b' where
      "ensure_capacity mem_ok p b ?r m = Ok (p', m')"
      "memory_wf m'" "p' = p \<or> blocks m p' = None" "blocks m' = (blocks m)(p := None, p' \<mapsto> b')"
      "buffer_ok b'" "payload b' = payload b" "binary_size b' = binary_size b" "?r \<le> binary_capacity b'"
    using make_room_ok [OF wf b ok, of ?r mem_ok] r len by fastforce
  then show ?thesis
  proof cases
    case oom
    then show ?thesis using b by (simp add: buffer_write_def Let_def)
  next
    case room
    let ?b = "b'\<lparr>payload := payload b @ data, binary_size := ?r\<rparr>"
    have fits: "length (payload b) + length data \<le> unat (binary_capacity b')"
      using room(8) r by (simp add: word_le_nat_alt)
    have "buffer_ok ?b" using room(5,8) r by (simp add: buffer_ok_def)
    moreover have "memory_wf (m'\<lparr>blocks := (blocks m')(p' \<mapsto> ?b)\<rparr>)"
      using room(2,4) by (intro memory_wf_upd) auto
    ultimately show ?thesis
      using b room fits by (auto simp: buffer_write_def append_payload_def Let_def)
  qed
qed

lemma buffer_write_all_ok:
  assumes "memory_wf m" and "blocks m p = Some b" and "buffer_ok b"
    and "length (payload b) + length (concat cs) \<le> MAX_MESSAGE"
  shows "buffer_write_all mem_ok cs (Some p, m) = Throw bad_alloc \<and> \<not> (\<forall>n. mem_ok n) \<or>
    (\<exists>p' m' b'. buffer_write_all mem_ok cs (Some p, m) = Ok (Some p', m') \<and> memory_wf m' \<and>
       (p' = p \<or> blocks m p' = None) \<and> blocks m' = (blocks m)(p := None, p' \<mapsto> b') \<and>
       buffer_ok b' \<and> payload b' = payload b @ concat cs)"
  using assms
proof (induction cs arbitrary: p m b)
  case Nil
  then show ?case by (intro disjI2 exI [of _ p] exI [of _ m] exI [of _ b]) auto
next
  case (Cons c cs)
  have "length (payload b) + length c \<le> MAX_MESSAGE" using Cons.prems(4) by simp
  from buffer_write_ok [OF Cons.prems(1-3) this, of mem_ok] consider
      (oom) "buffer_write mem_ok c (Some p, m) = Throw bad_alloc" "\<not> (\<forall>n. mem_ok n)"
    | (ok) p1 m1 b1 where "buffer_write mem_ok c (Some p, m) = Ok (Some p1, m1)" "memory_wf m1"
        "p1 = p \<or> blocks m p1 = None" "blocks m1 = (blocks m)(p := None, p1 \<mapsto> b1)"
        "buffer_ok b1" "payload b1 = payload b @ c"
    by blast
  then show ?case
  proof cases
    case oom
    then show ?thesis by simp
  next
    case ok
    have "blocks m1 p1 = Some b1" "length (payload b1) + length (concat cs) \<le> MAX_MESSAGE"
      using ok(4,6) Cons.prems(4) by simp_all
    from Cons.IH [OF ok(2) this(1) ok(5) this(2)] consider
        (oom2) "buffer_write_all mem_ok cs (Some p1, m1) = Throw bad_alloc" "\<not> (\<forall>n. mem_ok n)"
      | (ok2) p2 m2 b2 where "buffer_write_all mem_ok cs (Some p1, m1) = Ok (Some p2, m2)" "memory_wf m2"
          "p2 = p1 \<or> blocks m1 p2 = None" "blocks m2 = (blocks m1)(p1 := None, p2 \<mapsto> b2)"
          "buffer_ok b2" "payload b2 = payload b1 @ concat cs"
      by blast
    then show ?thesis
    proof cases
      case oom2
      with ok show ?thesis by simp
    next
      case ok2
      have "blocks m2 = (blocks m)(p := None, p2 \<mapsto> b2)" "p2 = p \<or> blocks m p2 = None"
        using ok(3,4) ok2(3,4) by (auto simp: fun_eq_iff split: if_splits)
      moreover have "buffer_write_all mem_ok (c # cs) (Some p, m) = Ok (Some p2, m2)"
        using ok(1) ok2(1) by simp
      moreover have "payload b2 = payload b @ concat (c # cs)" using ok(6) ok2(6) by simp
      ultimately show ?thesis using ok2(2,5) by blast
    qed
  qed
qed

text \<open>
  A whole message: a fresh buffer, one write per piece the packer produces, and the release.
\<close>

definition serialize_pieces :: "(u64 \<Rightarrow> bool) \<Rightarrow> bytes list \<Rightarrow> memory \<Rightarrow> (exn, nat \<times> memory) outcome" where
  "serialize_pieces mem_ok pieces m =
     bind_out (buffer_init mem_ok m) (\<lambda>s.
     bind_out (buffer_write_all mem_ok pieces s) (\<lambda>s.
     bind_out (buffer_release s) (\<lambda>(p, s).
     bind_out (buffer_destroy s) (\<lambda>m. Ok (p, m)))))"

lemma serialize_pieces_block:
  assumes "memory_wf m" and "length (concat pieces) \<le> MAX_MESSAGE"
  shows "serialize_pieces mem_ok pieces m = Throw bad_alloc \<and> \<not> (\<forall>n. mem_ok n) \<or>
    (\<exists>p m' b. serialize_pieces mem_ok pieces m = Ok (p, m') \<and> memory_wf m' \<and> blocks m p = None \<and>
       blocks m' = (blocks m)(p \<mapsto> b) \<and> payload b = concat pieces \<and>
       unat (binary_size b) = length (concat pieces) \<and> rc_enabled b \<and> reference_count b = 1)"
proof -
  from buffer_init_ok [OF assms(1), of mem_ok] consider
      (oom) "buffer_init mem_ok m = Throw bad_alloc" "\<not> (\<forall>n. mem_ok n)"
    | (ok) p m1 b where "buffer_init mem_ok m = Ok (Some p, m1)" "memory_wf m1" "blocks m p = None"
        "blocks m1 = (blocks m)(p \<mapsto> b)" "buffer_ok b" "payload b = []"
    by blast
  then show ?thesis
  proof cases
    case oom
    then show ?thesis by (simp add: serialize_pieces_def)
  next
    case ok
    have "blocks m1 p = Some b" "length (payload b) + length (concat pieces) \<le> MAX_MESSAGE"
      using ok(4,6) assms(2) by simp_all
    from buffer_write_all_ok [OF ok(2) this(1) ok(5) this(2), of mem_ok] consider
        (oom) "buffer_write_all mem_ok pieces (Some p, m1) = Throw bad_alloc" "\<not> (\<forall>n. mem_ok n)"
      | (ok2) p' m2 b' where "buffer_write_all mem_ok pieces (Some p, m1) = Ok (Some p', m2)"
          "memory_wf m2" "p' = p \<or> blocks m1 p' = None" "blocks m2 = (blocks m1)(p := None, p' \<mapsto> b')"
          "buffer_ok b'" "payload b' = payload b @ concat pieces"
      by blast
    then show ?thesis
    proof cases
      case oom
      with ok show ?thesis by (simp add: serialize_pieces_def)
    next
      case ok2
      let ?b = "b'\<lparr>reference_count := 1, rc_enabled := True\<rparr>"
      have "blocks m2 = (blocks m)(p' \<mapsto> b')" "blocks m p' = None"
        using ok(3,4) ok2(3,4) by (auto simp: fun_eq_iff split: if_splits)
      moreover have "memory_wf (m2\<lparr>blocks := (blocks m2)(p' \<mapsto> ?b)\<rparr>)"
        using ok2(2,4) by (intro memory_wf_upd) auto
      ultimately show ?thesis
        using ok ok2(1,4,5,6)
        by (auto simp: serialize_pieces_def buffer_release_def enable_reference_count_def
            buffer_destroy_def deallocate_sharable_binary_def buffer_ok_def)
    qed
  qed
qed


definition empty_memory :: memory where "empty_memory = \<lparr>blocks = Map.empty, next_addr = 0\<rparr>"

lemma memory_wf_empty [simp]: "memory_wf empty_memory"
  by (simp add: memory_wf_def empty_memory_def)




end
