(* ===== verification/Serialized_Message.thy ===== *)
theory Serialized_Message
  imports Sharable_Binary
begin

text \<open>
  \<open>SerializedMessage\<close> (\<open>src/msgpack_rpc/messages/serialized_message.cpp\<close>): a handle on a shared
  memory block, with hand-written copy, move, assignment and destruction. The state is the
  memory and the live message variables; a variable holds a block or null (moved from). Using a
  variable that is not alive, or constructing into a live one, is undefined behaviour.
\<close>

section \<open>Operations\<close>

record msg_world =
  mem :: memory
  vars :: "(nat, nat) handles"

definition live_var :: "nat \<Rightarrow> msg_world \<Rightarrow> (exn, nat option) outcome" where
  "live_var v w = (case vars w v of None \<Rightarrow> Undefined | Some ptr \<Rightarrow> Ok ptr)"

definition new_var :: "nat \<Rightarrow> msg_world \<Rightarrow> (exn, unit) outcome" where
  "new_var v w = (case vars w v of None \<Rightarrow> Ok () | Some ptr \<Rightarrow> Undefined)"

text \<open>Construction from bytes.\<close>

definition msg_construct :: "(u64 \<Rightarrow> bool) \<Rightarrow> nat \<Rightarrow> bytes \<Rightarrow> msg_world \<Rightarrow> (exn, msg_world) outcome" where
  "msg_construct mem_ok v data w =
     bind_out (new_var v w) (\<lambda>_.
     bind_out (allocate_sharable_binary mem_ok (of_nat (length data)) (mem w)) (\<lambda>(p, m).
     bind_out (enable_reference_count p m) (\<lambda>m.
     bind_out (append_payload p data m) (\<lambda>m.
       Ok \<lparr>mem = m, vars = (vars w)(v \<mapsto> Some p)\<rparr>))))"

text \<open>Construction from the block of a released buffer.\<close>

definition msg_adopt :: "nat \<Rightarrow> nat \<Rightarrow> msg_world \<Rightarrow> (exn, msg_world) outcome" where
  "msg_adopt v p w = bind_out (new_var v w) (\<lambda>_. Ok (w\<lparr>vars := (vars w)(v \<mapsto> Some p)\<rparr>))"

definition msg_copy_construct :: "nat \<Rightarrow> nat \<Rightarrow> msg_world \<Rightarrow> (exn, msg_world) outcome" where
  "msg_copy_construct v other w =
     bind_out (new_var v w) (\<lambda>_.
     bind_out (live_var other w) (\<lambda>ptr.
     bind_out (add_reference_count ptr (mem w)) (\<lambda>m.
       Ok \<lparr>mem = m, vars = (vars w)(v \<mapsto> ptr)\<rparr>)))"

definition msg_move_construct :: "nat \<Rightarrow> nat \<Rightarrow> msg_world \<Rightarrow> (exn, msg_world) outcome" where
  "msg_move_construct v other w =
     bind_out (new_var v w) (\<lambda>_.
     bind_out (live_var other w) (\<lambda>ptr.
       Ok (w\<lparr>vars := (vars w)(v \<mapsto> ptr, other \<mapsto> None)\<rparr>)))"

definition decrease_if_set :: "nat option \<Rightarrow> memory \<Rightarrow> (exn, memory) outcome" where
  "decrease_if_set ptr m = (if ptr \<noteq> None then decrease_reference_count ptr m else Ok m)"

definition msg_copy_assign :: "nat \<Rightarrow> nat \<Rightarrow> msg_world \<Rightarrow> (exn, msg_world) outcome" where
  "msg_copy_assign v other w =
     bind_out (live_var v w) (\<lambda>old.
     bind_out (live_var other w) (\<lambda>ptr.
       if v = other then Ok w
       else bind_out (decrease_if_set old (mem w)) (\<lambda>m.
            bind_out (add_reference_count ptr m) (\<lambda>m.
              Ok \<lparr>mem = m, vars = (vars w)(v \<mapsto> ptr)\<rparr>))))"

definition msg_move_assign :: "nat \<Rightarrow> nat \<Rightarrow> msg_world \<Rightarrow> (exn, msg_world) outcome" where
  "msg_move_assign v other w =
     bind_out (live_var v w) (\<lambda>old.
     bind_out (live_var other w) (\<lambda>ptr.
       Ok (w\<lparr>vars := (vars w)(v \<mapsto> ptr, other \<mapsto> old)\<rparr>)))"

definition msg_destroy :: "nat \<Rightarrow> msg_world \<Rightarrow> (exn, msg_world) outcome" where
  "msg_destroy v w =
     bind_out (live_var v w) (\<lambda>old.
     bind_out (decrease_if_set old (mem w)) (\<lambda>m.
       Ok \<lparr>mem = m, vars = (vars w)(v := None)\<rparr>))"

definition msg_data :: "nat \<Rightarrow> msg_world \<Rightarrow> (exn, bytes) outcome" where
  "msg_data v w =
     bind_out (live_var v w) (\<lambda>ptr.
       case Option.bind ptr (blocks (mem w)) of None \<Rightarrow> Undefined | Some b \<Rightarrow> Ok (payload b))"

definition msg_size :: "nat \<Rightarrow> msg_world \<Rightarrow> (exn, u64) outcome" where
  "msg_size v w =
     bind_out (live_var v w) (\<lambda>ptr.
       case Option.bind ptr (blocks (mem w)) of None \<Rightarrow> Undefined | Some b \<Rightarrow> Ok (binary_size b))"

datatype msg_cmd =
    Construct nat bytes
  | CopyConstruct nat nat
  | MoveConstruct nat nat
  | CopyAssign nat nat
  | MoveAssign nat nat
  | Destroy nat

fun msg_exec :: "(u64 \<Rightarrow> bool) \<Rightarrow> msg_cmd \<Rightarrow> msg_world \<Rightarrow> (exn, msg_world) outcome" where
  "msg_exec mem_ok (Construct v data) w = msg_construct mem_ok v data w"
| "msg_exec mem_ok (CopyConstruct v other) w = msg_copy_construct v other w"
| "msg_exec mem_ok (MoveConstruct v other) w = msg_move_construct v other w"
| "msg_exec mem_ok (CopyAssign v other) w = msg_copy_assign v other w"
| "msg_exec mem_ok (MoveAssign v other) w = msg_move_assign v other w"
| "msg_exec mem_ok (Destroy v) w = msg_destroy v w"

section \<open>What a program may do\<close>

text \<open>
  The C++ object rules (construct only fresh variables, use only live ones), a message of at
  most \<open>2 ^ 62\<close> bytes, and, for the copying operations, a source that has not been moved from.
\<close>

definition holds_block :: "nat \<Rightarrow> msg_world \<Rightarrow> bool" where
  "holds_block v w \<longleftrightarrow> (\<exists>p. vars w v = Some (Some p))"

fun msg_allowed :: "msg_cmd \<Rightarrow> msg_world \<Rightarrow> bool" where
  "msg_allowed (Construct v data) w \<longleftrightarrow> vars w v = None \<and> length data \<le> MAX_MESSAGE"
| "msg_allowed (CopyConstruct v other) w \<longleftrightarrow> vars w v = None \<and> holds_block other w"
| "msg_allowed (MoveConstruct v other) w \<longleftrightarrow> vars w v = None \<and> vars w other \<noteq> None"
| "msg_allowed (CopyAssign v other) w \<longleftrightarrow> vars w v \<noteq> None \<and> (v = other \<or> holds_block other w)"
| "msg_allowed (MoveAssign v other) w \<longleftrightarrow> vars w v \<noteq> None \<and> vars w other \<noteq> None"
| "msg_allowed (Destroy v) w \<longleftrightarrow> vars w v \<noteq> None"

definition msg_init :: "msg_world \<Rightarrow> bool" where
  "msg_init w \<longleftrightarrow> w = \<lparr>mem = empty_memory, vars = Map.empty\<rparr>"

definition msg_step :: "(u64 \<Rightarrow> bool) \<Rightarrow> msg_world \<Rightarrow> msg_world \<Rightarrow> bool" where
  "msg_step mem_ok w w' \<longleftrightarrow> (\<exists>c. msg_allowed c w \<and> msg_exec mem_ok c w = Ok w')"

section \<open>The count of a block is the number of its handles\<close>

definition block_count :: "memory \<Rightarrow> nat \<Rightarrow> nat option" where
  "block_count m p =
     (case blocks m p of
        None \<Rightarrow> None
      | Some b \<Rightarrow> if rc_enabled b \<and> 0 < reference_count b then Some (nat (reference_count b)) else None)"

definition block_add_ref :: "nat \<Rightarrow> memory \<Rightarrow> memory option" where
  "block_add_ref p m = (case add_reference_count (Some p) m of Ok m' \<Rightarrow> Some m' | _ \<Rightarrow> None)"

definition block_release :: "nat \<Rightarrow> memory \<Rightarrow> memory option" where
  "block_release p m = (case decrease_reference_count (Some p) m of Ok m' \<Rightarrow> Some m' | _ \<Rightarrow> None)"

lemma block_countD:
  "block_count m p = Some n \<Longrightarrow>
     \<exists>b. blocks m p = Some b \<and> rc_enabled b \<and> reference_count b = int n \<and> 0 < n"
  by (auto simp: block_count_def split: option.splits if_splits)

interpretation msg: counted_resource block_count block_add_ref block_release
proof
  fix m p n
  assume "block_count m p = Some n"
  from block_countD [OF this] show "\<exists>m'. block_add_ref p m = Some m' \<and> block_count m' = (block_count m)(p \<mapsto> Suc n)"
    by (auto simp: block_add_ref_def add_reference_count_def block_count_def fun_eq_iff)
next
  fix m p
  assume "block_count m p = Some (Suc 0)"
  from block_countD [OF this] show "\<exists>m'. block_release p m = Some m' \<and> block_count m' = (block_count m)(p := None)"
    by (auto simp: block_release_def decrease_reference_count_def deallocate_sharable_binary_def
        block_count_def fun_eq_iff Let_def)
next
  fix m p n
  assume "block_count m p = Some (Suc (Suc n))"
  from block_countD [OF this] show "\<exists>m'. block_release p m = Some m' \<and> block_count m' = (block_count m)(p \<mapsto> Suc n)"
    by (auto simp: block_release_def decrease_reference_count_def block_count_def fun_eq_iff Let_def nat_add_distrib)
qed

text \<open>
  The invariant: counts agree with handles, every block in memory is counted (nothing is left
  behind), and addresses are fresh.
\<close>

definition all_counted :: "memory \<Rightarrow> bool" where
  "all_counted m \<longleftrightarrow> memory_wf m \<and>
     (\<forall>p b. blocks m p = Some b \<longrightarrow> rc_enabled b \<and> 0 < reference_count b)"

definition msg_inv :: "msg_world \<Rightarrow> bool" where
  "msg_inv w \<longleftrightarrow> msg.consistent (mem w) (vars w) \<and> all_counted (mem w)"

lemma all_counted_block_count:
  "all_counted m \<Longrightarrow> block_count m p = map_option (\<lambda>b. nat (reference_count b)) (blocks m p)"
  by (cases "blocks m p") (auto simp: all_counted_def block_count_def)

lemma all_counted_upd:
  "all_counted m \<Longrightarrow> blocks m p = Some b \<Longrightarrow> rc_enabled c \<Longrightarrow> 0 < reference_count c \<Longrightarrow>
     all_counted (m\<lparr>blocks := (blocks m)(p \<mapsto> c)\<rparr>)"
  by (auto simp: all_counted_def memory_wf_upd)

lemma all_counted_del: "all_counted m \<Longrightarrow> all_counted (m\<lparr>blocks := (blocks m)(p := None)\<rparr>)"
  by (auto simp: all_counted_def memory_wf_del)

lemma all_counted_add_ref:
  assumes "all_counted m" and "add_reference_count (Some p) m = Ok m'"
  shows "all_counted m'"
proof -
  from assms(2) obtain b where b: "blocks m p = Some b" "rc_enabled b"
      "m' = m\<lparr>blocks := (blocks m)(p \<mapsto> b\<lparr>reference_count := reference_count b + 1\<rparr>)\<rparr>"
    by (auto simp: add_reference_count_def split: option.splits if_splits)
  moreover have "0 < reference_count b" using assms(1) b(1) by (auto simp: all_counted_def)
  ultimately show ?thesis using all_counted_upd [OF assms(1)] by simp
qed

lemma all_counted_release:
  assumes "all_counted m" and "decrease_reference_count (Some p) m = Ok m'"
  shows "all_counted m'"
proof -
  from assms(2) obtain b where b: "blocks m p = Some b" "rc_enabled b"
    and m': "m' = (if reference_count b = 1 then m\<lparr>blocks := (blocks m)(p := None)\<rparr>
       else m\<lparr>blocks := (blocks m)(p \<mapsto> b\<lparr>reference_count := reference_count b - 1\<rparr>)\<rparr>)"
    by (auto simp: decrease_reference_count_def deallocate_sharable_binary_def Let_def
        split: option.splits if_splits)
  moreover have "0 < reference_count b" using assms(1) b(1) by (auto simp: all_counted_def)
  ultimately show ?thesis
    using all_counted_upd [OF assms(1)] all_counted_del [OF assms(1)] by simp
qed

lemma copy_ok:
  assumes "msg.consistent m vs" and "all_counted m" and "vs other = Some (Some p)"
    and "vs v = None \<or> vs v = Some None"
  shows "\<exists>m'. add_reference_count (Some p) m = Ok m' \<and> msg.consistent m' (vs(v \<mapsto> Some p)) \<and> all_counted m'"
proof -
  from msg.copy_consistent [OF assms(1,3,4)] obtain m' where
    "block_add_ref p m = Some m'" "msg.consistent m' (vs(v \<mapsto> Some p))" by blast
  then show ?thesis using all_counted_add_ref [OF assms(2)]
    by (auto simp: block_add_ref_def split: outcome.splits)
qed

lemma drop_ok:
  assumes "msg.consistent m vs" and "all_counted m" and "vs v = Some ptr" and "x = None \<or> x = Some None"
  shows "\<exists>m'. decrease_if_set ptr m = Ok m' \<and> msg.consistent m' (vs(v := x)) \<and> all_counted m'"
proof (cases ptr)
  case None
  then show ?thesis using assms msg.null_consistent [of m vs v x] by (simp add: decrease_if_set_def)
next
  case (Some p)
  from msg.drop_consistent [OF assms(1), of v p x] assms Some obtain m' where
    "block_release p m = Some m'" "msg.consistent m' (vs(v := x))" by auto
  then show ?thesis using all_counted_release [OF assms(2)] Some
    by (auto simp: block_release_def decrease_if_set_def split: outcome.splits)
qed

lemma construct_ok:
  assumes inv: "msg_inv w" and ok: "msg_allowed (Construct v data) w"
  shows "msg_construct mem_ok v data w = Throw bad_alloc \<and> \<not> (\<forall>n. mem_ok n) \<or>
    (\<exists>w'. msg_construct mem_ok v data w = Ok w' \<and> msg_inv w' \<and> msg_data v w' = Ok data)"
proof -
  let ?n = "of_nat (length data) :: u64"
  let ?b = "\<lparr>total_memory_size = HEADER_SIZE + ?n, binary_size = ?n, binary_capacity = ?n,
     reference_count = 0, rc_enabled = False, payload = []\<rparr>"
  let ?c = "?b\<lparr>reference_count := 1, rc_enabled := True, payload := data\<rparr>"
  obtain p m where pm: "put_block ?b (mem w) = (p, m)" by fastforce
  have wf: "memory_wf m" "blocks (mem w) p = None" "blocks m = (blocks (mem w))(p \<mapsto> ?b)"
    using memory_wf_put [OF _ pm] inv by (auto simp: msg_inv_def all_counted_def)
  let ?m = "m\<lparr>blocks := (blocks m)(p \<mapsto> ?c)\<rparr>"
  have n: "unat ?n = length data" using ok by (simp add: unat_of_nat MAX_MESSAGE_def)
  have "memory_wf ?m" using wf(1,3) by (intro memory_wf_upd) auto
  moreover have cnt: "block_count ?m = (block_count (mem w))(p \<mapsto> Suc 0)"
    using wf(3) by (auto simp: block_count_def fun_eq_iff)
  ultimately have ac: "all_counted ?m"
    using inv wf(3) by (simp add: msg_inv_def all_counted_def)
  have "block_count (mem w) p = None" using wf(2) by (simp add: block_count_def)
  then have "msg.consistent ?m ((vars w)(v \<mapsto> Some p))"
    using inv ok cnt by (intro msg.fresh_consistent) (auto simp: msg_inv_def)
  with ac have inv': "msg_inv \<lparr>mem = ?m, vars = (vars w)(v \<mapsto> Some p)\<rparr>" by (simp add: msg_inv_def)
  have new: "new_var v w = Ok ()" using ok by (simp add: new_var_def)
  have written: "bind_out (enable_reference_count p m) (append_payload p data) = Ok ?m"
    using wf(3) n by (simp add: enable_reference_count_def append_payload_def)
  show ?thesis
  proof (cases "mem_ok (HEADER_SIZE + ?n)")
    case True
    then have "allocate_sharable_binary mem_ok ?n (mem w) = Ok (p, m)"
      using pm by (simp add: allocate_sharable_binary_def Let_def)
    then have "msg_construct mem_ok v data w =
        bind_out (bind_out (enable_reference_count p m) (append_payload p data))
          (\<lambda>m. Ok \<lparr>mem = m, vars = (vars w)(v \<mapsto> Some p)\<rparr>)"
      using new by (simp add: msg_construct_def bind_out_assoc)
    then have "msg_construct mem_ok v data w = Ok \<lparr>mem = ?m, vars = (vars w)(v \<mapsto> Some p)\<rparr>"
      unfolding written by simp
    moreover have "msg_data v \<lparr>mem = ?m, vars = (vars w)(v \<mapsto> Some p)\<rparr> = Ok data"
      by (simp add: msg_data_def live_var_def)
    ultimately show ?thesis using inv' by blast
  next
    case False
    then have "msg_construct mem_ok v data w = Throw bad_alloc"
      using new by (simp add: msg_construct_def allocate_sharable_binary_def Let_def)
    with False show ?thesis by blast
  qed
qed

lemma msg_exec_ok:
  assumes inv: "msg_inv w" and ok: "msg_allowed c w"
  shows "msg_exec mem_ok c w = Throw bad_alloc \<and> \<not> (\<forall>n. mem_ok n) \<or>
    (\<exists>w'. msg_exec mem_ok c w = Ok w' \<and> msg_inv w')"
proof (cases c)
  case (Construct v data)
  from construct_ok [OF inv ok [unfolded Construct], of mem_ok] show ?thesis
    unfolding Construct msg_exec.simps by blast
next
  case (CopyConstruct v other)
  with ok obtain p where "vars w other = Some (Some p)" "vars w v = None" by (auto simp: holds_block_def)
  then show ?thesis
    using copy_ok [of "mem w" "vars w" other p v] inv CopyConstruct
    by (auto simp: msg_copy_construct_def new_var_def live_var_def msg_inv_def)
next
  case (MoveConstruct v other)
  with ok obtain ptr where o: "vars w other = Some ptr" "vars w v = None" by auto
  have "msg.consistent (mem w) ((vars w)(v \<mapsto> None))"
    using inv o by (intro msg.null_consistent) (auto simp: msg_inv_def)
  from msg.swap_consistent [OF this, of v None other ptr] o
  have "msg.consistent (mem w) ((vars w)(v \<mapsto> ptr, other \<mapsto> None))"
    by (cases "v = other") (simp_all add: fun_upd_twist)
  then show ?thesis using o inv MoveConstruct
    by (simp add: msg_move_construct_def new_var_def live_var_def msg_inv_def)
next
  case (CopyAssign v other)
  with ok obtain old where v: "vars w v = Some old" by auto
  show ?thesis
  proof (cases "v = other")
    case True
    then show ?thesis using CopyAssign v inv by (simp add: msg_copy_assign_def live_var_def)
  next
    case False
    with CopyAssign ok obtain p where p: "vars w other = Some (Some p)" by (auto simp: holds_block_def)
    from drop_ok [of "mem w" "vars w" v old "Some None"] inv v obtain m where m:
      "decrease_if_set old (mem w) = Ok m" "msg.consistent m ((vars w)(v \<mapsto> None))" "all_counted m"
      by (auto simp: msg_inv_def)
    from copy_ok [OF m(2,3), of other p v] False p show ?thesis
      using CopyAssign v m(1) by (auto simp: msg_copy_assign_def live_var_def msg_inv_def)
  qed
next
  case (MoveAssign v other)
  with ok obtain x y where "vars w v = Some x" "vars w other = Some y" by auto
  then show ?thesis using inv MoveAssign msg.swap_consistent [of "mem w" "vars w" v x other y]
    by (simp add: msg_move_assign_def live_var_def msg_inv_def)
next
  case (Destroy v)
  with ok obtain old where "vars w v = Some old" by auto
  then show ?thesis using drop_ok [of "mem w" "vars w" v old None] inv Destroy
    by (auto simp: msg_destroy_def live_var_def msg_inv_def)
qed

interpretation msg_sys: invariant_system msg_init "msg_step mem_ok" msg_inv for mem_ok
proof
  fix w
  assume "msg_init w"
  then show "msg_inv w"
    by (simp add: msg_init_def msg_inv_def msg.consistent_def handle_count_def empty_memory_def
        memory_wf_def block_count_def all_counted_def)
next
  fix w w'
  assume "msg_inv w" "msg_step mem_ok w w'"
  then show "msg_inv w'" using msg_exec_ok [of w _ mem_ok] by (force simp: msg_step_def)
qed



text \<open>
  Copying from a message that has been moved from dereferences a null pointer: the copy
  constructor increments the count of a block that is not there.
\<close>

theorem copy_of_moved_from_message:
  "vars w v = Some None \<Longrightarrow> vars w u = None \<Longrightarrow> msg_exec mem_ok (CopyConstruct u v) w = Undefined"
  by (simp add: msg_copy_construct_def new_var_def live_var_def add_reference_count_def)

end
