(* ===== verification/Messages.thy ===== *)
theory Messages
  imports Serialized_Message
begin

text \<open>
  Parsed messages and their parser (\<open>include/msgpack_rpc/messages\<close>,
  \<open>src/msgpack_rpc/messages\<close>).

  The MessagePack library is not part of the repository; what the code calls is a parameter:
  \<^item> \<open>mp_conv\<close>: the conversions \<open>object.as<T>()\<close> the parser uses, \<open>None\<close> when the library throws
    \<open>msgpack::type_error\<close>;
  \<^item> \<open>next\<close>: one call of \<open>msgpack::unpacker::next\<close> on the bytes not yet consumed;
  \<^item> \<open>mp_packer\<close>: the pieces \<open>msgpack::packer\<close> writes for an array header and for a value, where a
    value of any C++ type is the object it is packed as.
  The zone that owns the memory of an object is kept alive by the parsed message, so the model
  holds the object itself.
\<close>

section \<open>Message types\<close>

datatype message_type = REQUEST | RESPONSE | NOTIFICATION

fun format_message_type :: "message_type \<Rightarrow> string" where
  "format_message_type REQUEST = ''REQUEST''"
| "format_message_type RESPONSE = ''RESPONSE''"
| "format_message_type NOTIFICATION = ''NOTIFICATION''"

record mp_conv =
  as_u64 :: "mp_object \<Rightarrow> u64 option"
  as_u32 :: "mp_object \<Rightarrow> u32 option"
  as_str :: "mp_object \<Rightarrow> string option"

section \<open>Parameters and results\<close>

record parsed_parameters =
  params_object :: mp_object

definition mk_parsed_parameters :: "mp_object \<Rightarrow> (exn, parsed_parameters) outcome" where
  "mk_parsed_parameters obj =
     (if via_array obj = None then throw_rpc INVALID_MESSAGE ''Invalid type of parameters.''
      else Ok \<lparr>params_object = obj\<rparr>)"

text \<open>\<open>as<Parameters...>\<close>: the number of parameters is checked, then the tuple is converted.\<close>

definition parameters_as ::
    "nat \<Rightarrow> (mp_object \<Rightarrow> 'p option) \<Rightarrow> parsed_parameters \<Rightarrow> (exn, 'p) outcome" where
  "parameters_as num as_tuple ps =
     (case via_array (params_object ps) of
        None \<Rightarrow> Undefined
      | Some xs \<Rightarrow>
          if length xs \<noteq> num then throw_rpc INVALID_MESSAGE ''Invalid number of parameters.''
          else (case as_tuple (params_object ps) of
             None \<Rightarrow> throw_rpc TYPE_ERROR ''Invalid types of parameters.''
           | Some p \<Rightarrow> Ok p))"

record call_result =
  is_error :: bool
  result_object :: mp_object

definition create_result :: "mp_object \<Rightarrow> call_result" where
  "create_result obj = \<lparr>is_error = False, result_object = obj\<rparr>"

definition create_error :: "mp_object \<Rightarrow> call_result" where
  "create_error obj = \<lparr>is_error = True, result_object = obj\<rparr>"

definition is_success :: "call_result \<Rightarrow> bool" where
  "is_success r \<longleftrightarrow> \<not> is_error r"

definition error_as :: "(mp_object \<Rightarrow> 'a option) \<Rightarrow> call_result \<Rightarrow> (exn, 'a) outcome" where
  "error_as as_T r =
     (if \<not> is_error r then throw_rpc PRECONDITION_NOT_MET ''This result is not an error.''
      else case as_T (result_object r) of
        None \<Rightarrow> throw_rpc TYPE_ERROR ''Invalid type of the error.''
      | Some x \<Rightarrow> Ok x)"

definition result_as :: "(mp_object \<Rightarrow> 'a option) \<Rightarrow> call_result \<Rightarrow> (exn, 'a) outcome" where
  "result_as as_T r =
     (if is_error r then throw_rpc PRECONDITION_NOT_MET ''This result is an error.''
      else case as_T (result_object r) of
        None \<Rightarrow> throw_rpc TYPE_ERROR ''Invalid type of the result.''
      | Some x \<Rightarrow> Ok x)"

section \<open>Parsed messages\<close>

record parsed_request =
  req_id :: u32
  req_method :: string
  req_params :: parsed_parameters

record parsed_response =
  resp_id :: u32
  resp_result :: call_result

record parsed_notification =
  notif_method :: string
  notif_params :: parsed_parameters

datatype parsed_message =
    PRequest parsed_request
  | PResponse parsed_response
  | PNotification parsed_notification

section \<open>Parsing an object\<close>

text \<open>The unchecked accesses \<open>object->via.array.size\<close> and \<open>object->via.array.ptr[i]\<close>.\<close>

definition array_size :: "mp_object \<Rightarrow> (exn, nat) outcome" where
  "array_size obj = (case via_array obj of None \<Rightarrow> Undefined | Some xs \<Rightarrow> Ok (length xs))"

definition array_at :: "mp_object \<Rightarrow> nat \<Rightarrow> (exn, mp_object) outcome" where
  "array_at obj i =
     (case via_array obj of None \<Rightarrow> Undefined
      | Some xs \<Rightarrow> if i < length xs then Ok (xs ! i) else Undefined)"

definition invalid_message :: "string \<Rightarrow> (exn, 'a) outcome" where
  "invalid_message msg = throw_rpc INVALID_MESSAGE msg"

definition parse_message_type :: "mp_conv \<Rightarrow> mp_object \<Rightarrow> (exn, message_type) outcome" where
  "parse_message_type cv obj =
     (case as_u64 cv obj of
        None \<Rightarrow> invalid_message ''Invalid message type in a message.''
      | Some val \<Rightarrow>
          if val = 0 then Ok REQUEST
          else if val = 1 then Ok RESPONSE
          else if val = 2 then Ok NOTIFICATION
          else invalid_message ''Invalid message type in a message.'')"

definition parse_message_id :: "mp_conv \<Rightarrow> mp_object \<Rightarrow> (exn, u32) outcome" where
  "parse_message_id cv obj =
     (case as_u32 cv obj of
        None \<Rightarrow> invalid_message ''Invalid message ID in a message.'' | Some i \<Rightarrow> Ok i)"

definition parse_method_name :: "mp_conv \<Rightarrow> mp_object \<Rightarrow> (exn, string) outcome" where
  "parse_method_name cv obj =
     (case as_str cv obj of
        None \<Rightarrow> invalid_message ''Invalid method name in a message.'' | Some n \<Rightarrow> Ok n)"

definition parse_request :: "mp_conv \<Rightarrow> mp_object \<Rightarrow> (exn, parsed_request) outcome" where
  "parse_request cv obj =
     bind_out (array_size obj) (\<lambda>sz.
     if sz \<noteq> 4 then invalid_message ''Invalid size of the array of a message.''
     else
       bind_out (bind_out (array_at obj 1) (parse_message_id cv)) (\<lambda>message_id.
       bind_out (bind_out (array_at obj 2) (parse_method_name cv)) (\<lambda>method_name.
       bind_out (bind_out (array_at obj 3) mk_parsed_parameters) (\<lambda>parameters.
         Ok \<lparr>req_id = message_id, req_method = method_name, req_params = parameters\<rparr>))))"

definition parse_response :: "mp_conv \<Rightarrow> mp_object \<Rightarrow> (exn, parsed_response) outcome" where
  "parse_response cv obj =
     bind_out (array_size obj) (\<lambda>sz.
     if sz \<noteq> 4 then invalid_message ''Invalid size of the array of a message.''
     else
       bind_out (bind_out (array_at obj 1) (parse_message_id cv)) (\<lambda>message_id.
       bind_out (array_at obj 2) (\<lambda>err.
         if \<not> is_nil err then Ok \<lparr>resp_id = message_id, resp_result = create_error err\<rparr>
         else bind_out (array_at obj 3) (\<lambda>res.
           Ok \<lparr>resp_id = message_id, resp_result = create_result res\<rparr>))))"

definition parse_notification :: "mp_conv \<Rightarrow> mp_object \<Rightarrow> (exn, parsed_notification) outcome" where
  "parse_notification cv obj =
     bind_out (array_size obj) (\<lambda>sz.
     if sz \<noteq> 3 then invalid_message ''Invalid size of the array of a message.''
     else
       bind_out (bind_out (array_at obj 1) (parse_method_name cv)) (\<lambda>method_name.
       bind_out (bind_out (array_at obj 2) mk_parsed_parameters) (\<lambda>parameters.
         Ok \<lparr>notif_method = method_name, notif_params = parameters\<rparr>)))"

definition parse_message_from_object :: "mp_conv \<Rightarrow> mp_object \<Rightarrow> (exn, parsed_message) outcome" where
  "parse_message_from_object cv obj =
     (if via_array obj = None then invalid_message ''Invalid type of a message.''
      else
        bind_out (array_size obj) (\<lambda>sz.
        if sz < 3 then invalid_message ''Invalid size of the array of a message.''
        else
          bind_out (bind_out (array_at obj 0) (parse_message_type cv)) (\<lambda>message_type.
            case message_type of
              REQUEST \<Rightarrow> bind_out (parse_request cv obj) (\<lambda>r. Ok (PRequest r))
            | RESPONSE \<Rightarrow> bind_out (parse_response cv obj) (\<lambda>r. Ok (PResponse r))
            | NOTIFICATION \<Rightarrow> bind_out (parse_notification cv obj) (\<lambda>n. Ok (PNotification n)))))"

section \<open>Specification of the parser\<close>

text \<open>The form of a message of MessagePack RPC, as an object.\<close>

inductive message_form :: "mp_conv \<Rightarrow> mp_object \<Rightarrow> parsed_message \<Rightarrow> bool" for cv where
  request_form: "as_u64 cv t = Some 0 \<Longrightarrow> as_u32 cv i = Some msgid \<Longrightarrow> as_str cv n = Some name \<Longrightarrow>
     message_form cv (MArray [t, i, n, MArray ps])
       (PRequest \<lparr>req_id = msgid, req_method = name, req_params = \<lparr>params_object = MArray ps\<rparr>\<rparr>)"
| error_form: "as_u64 cv t = Some 1 \<Longrightarrow> as_u32 cv i = Some msgid \<Longrightarrow> e \<noteq> MNil \<Longrightarrow>
     message_form cv (MArray [t, i, e, r])
       (PResponse \<lparr>resp_id = msgid, resp_result = \<lparr>is_error = True, result_object = e\<rparr>\<rparr>)"
| result_form: "as_u64 cv t = Some 1 \<Longrightarrow> as_u32 cv i = Some msgid \<Longrightarrow>
     message_form cv (MArray [t, i, MNil, r])
       (PResponse \<lparr>resp_id = msgid, resp_result = \<lparr>is_error = False, result_object = r\<rparr>\<rparr>)"
| notification_form: "as_u64 cv t = Some 2 \<Longrightarrow> as_str cv n = Some name \<Longrightarrow>
     message_form cv (MArray [t, n, MArray ps])
       (PNotification \<lparr>notif_method = name, notif_params = \<lparr>params_object = MArray ps\<rparr>\<rparr>)"

lemmas parse_defs =
  parse_request_def parse_response_def parse_notification_def parse_message_type_def
  parse_message_id_def parse_method_name_def mk_parsed_parameters_def invalid_message_def
  array_size_def array_at_def create_error_def create_result_def

lemma length_3_iff: "length xs = 3 \<longleftrightarrow> (\<exists>a b c. xs = [a, b, c])"
  by (auto simp: numeral_3_eq_3 length_Suc_conv)

lemma length_4_iff: "length xs = 4 \<longleftrightarrow> (\<exists>a b c d. xs = [a, b, c, d])"
  by (auto simp: numeral_eq_Suc length_Suc_conv)

lemma parse_message_complete: "message_form cv obj m \<Longrightarrow> parse_message_from_object cv obj = Ok m"
  by (cases rule: message_form.cases, assumption)
    (auto simp: parse_message_from_object_def parse_defs is_nil_iff)

lemma via_array_cases:
  obtains xs where "obj = MArray xs" | "via_array obj = None"
  by (cases "via_array obj") auto

lemma mk_parsed_parameters_Ok_iff:
  "mk_parsed_parameters p = Ok ps \<longleftrightarrow> (\<exists>xs. p = MArray xs \<and> ps = \<lparr>params_object = MArray xs\<rparr>)"
  by (cases p rule: via_array_cases) (auto simp: mk_parsed_parameters_def)

lemma parse_id_Ok_iff: "parse_message_id cv x = Ok i \<longleftrightarrow> as_u32 cv x = Some i"
  by (simp add: parse_message_id_def invalid_message_def split: option.splits)

lemma parse_name_Ok_iff: "parse_method_name cv x = Ok n \<longleftrightarrow> as_str cv x = Some n"
  by (simp add: parse_method_name_def invalid_message_def split: option.splits)

lemma parse_type_Ok_iff:
  "parse_message_type cv x = Ok ty \<longleftrightarrow>
     as_u64 cv x = Some 0 \<and> ty = REQUEST \<or> as_u64 cv x = Some 1 \<and> ty = RESPONSE \<or>
     as_u64 cv x = Some 2 \<and> ty = NOTIFICATION"
  by (auto simp: parse_message_type_def invalid_message_def split: option.splits)

lemmas parse_Ok_iffs =
  mk_parsed_parameters_Ok_iff parse_id_Ok_iff parse_name_Ok_iff parse_type_Ok_iff bind_out_Ok_iff

lemma array_access [simp]:
  "array_size (MArray xs) = Ok (length xs)"
  "i < length xs \<Longrightarrow> array_at (MArray xs) i = Ok (xs ! i)"
  by (simp_all add: array_size_def array_at_def)

lemma parse_request_spec:
  assumes "as_u64 cv (hd xs) = Some 0" and r: "parse_request cv (MArray xs) = Ok r"
  shows "message_form cv (MArray xs) (PRequest r)"
proof -
  from r have "length xs = 4" by (simp add: parse_request_def invalid_message_def split: if_splits)
  then obtain a b c d where xs: "xs = [a, b, c, d]" unfolding length_4_iff by blast
  from r obtain i n ps where "as_u32 cv b = Some i" "as_str cv c = Some n" "d = MArray ps"
      "r = \<lparr>req_id = i, req_method = n, req_params = \<lparr>params_object = MArray ps\<rparr>\<rparr>"
    by (auto simp: parse_request_def xs parse_Ok_iffs)
  with assms(1) show ?thesis by (simp add: xs request_form)
qed

lemma parse_response_spec:
  assumes "as_u64 cv (hd xs) = Some 1" and r: "parse_response cv (MArray xs) = Ok r"
  shows "message_form cv (MArray xs) (PResponse r)"
proof -
  from r have "length xs = 4" by (simp add: parse_response_def invalid_message_def split: if_splits)
  then obtain a b c d where xs: "xs = [a, b, c, d]" unfolding length_4_iff by blast
  from r obtain i where i: "as_u32 cv b = Some i"
      and r': "r = (if is_nil c then \<lparr>resp_id = i, resp_result = create_result d\<rparr>
            else \<lparr>resp_id = i, resp_result = create_error c\<rparr>)"
    by (auto simp: parse_response_def xs parse_Ok_iffs split: if_splits)
  show ?thesis
  proof (cases "c = MNil")
    case True
    with i r' assms(1) show ?thesis by (simp add: xs create_result_def result_form)
  next
    case False
    with i r' assms(1) show ?thesis by (simp add: xs is_nil_iff create_error_def error_form)
  qed
qed

lemma parse_notification_spec:
  assumes "as_u64 cv (hd xs) = Some 2" and r: "parse_notification cv (MArray xs) = Ok r"
  shows "message_form cv (MArray xs) (PNotification r)"
proof -
  from r have "length xs = 3"
    by (simp add: parse_notification_def invalid_message_def split: if_splits)
  then obtain a b c where xs: "xs = [a, b, c]" unfolding length_3_iff by blast
  from r obtain n ps where "as_str cv b = Some n" "c = MArray ps"
      "r = \<lparr>notif_method = n, notif_params = \<lparr>params_object = MArray ps\<rparr>\<rparr>"
    by (auto simp: parse_notification_def xs parse_Ok_iffs)
  with assms(1) show ?thesis by (simp add: xs notification_form)
qed

lemma parse_message_sound:
  assumes "parse_message_from_object cv obj = Ok m"
  shows "message_form cv obj m"
proof -
  from assms obtain xs where xs: "obj = MArray xs"
    by (cases obj rule: via_array_cases) (auto simp: parse_message_from_object_def invalid_message_def)
  with assms have len: "3 \<le> length xs"
    by (simp add: parse_message_from_object_def invalid_message_def split: if_splits)
  then have hd: "xs ! 0 = hd xs" "0 < length xs" by (cases xs; simp)+
  have nth: "array_at (MArray xs) 0 = Ok (hd xs)" using hd by simp
  have "bind_out (parse_message_type cv (hd xs)) (\<lambda>ty. case ty of
              REQUEST \<Rightarrow> bind_out (parse_request cv obj) (\<lambda>r. Ok (PRequest r))
            | RESPONSE \<Rightarrow> bind_out (parse_response cv obj) (\<lambda>r. Ok (PResponse r))
            | NOTIFICATION \<Rightarrow> bind_out (parse_notification cv obj) (\<lambda>n. Ok (PNotification n))) = Ok m"
    using assms [unfolded xs] len nth by (simp add: parse_message_from_object_def xs cong: message_type.case_cong)
  then obtain ty where ty: "parse_message_type cv (hd xs) = Ok ty"
      and m: "(case ty of
              REQUEST \<Rightarrow> bind_out (parse_request cv obj) (\<lambda>r. Ok (PRequest r))
            | RESPONSE \<Rightarrow> bind_out (parse_response cv obj) (\<lambda>r. Ok (PResponse r))
            | NOTIFICATION \<Rightarrow> bind_out (parse_notification cv obj) (\<lambda>n. Ok (PNotification n))) = Ok m"
    unfolding bind_out_Ok_iff by blast
  show ?thesis
  proof (cases ty)
    case REQUEST
    with ty m show ?thesis using parse_request_spec [of cv xs]
      by (auto simp: xs parse_type_Ok_iff bind_out_Ok_iff)
  next
    case RESPONSE
    with ty m show ?thesis using parse_response_spec [of cv xs]
      by (auto simp: xs parse_type_Ok_iff bind_out_Ok_iff)
  next
    case NOTIFICATION
    with ty m show ?thesis using parse_notification_spec [of cv xs]
      by (auto simp: xs parse_type_Ok_iff bind_out_Ok_iff)
  qed
qed

lemma parse_message_Ok_iff: "parse_message_from_object cv obj = Ok m \<longleftrightarrow> message_form cv obj m"
  using parse_message_sound parse_message_complete by blast

text \<open>Whatever the object is, parsing never reads outside of it, and an error is always
  \<open>INVALID_MESSAGE\<close>.\<close>

definition message_outcome :: "(exn, 'a) outcome \<Rightarrow> bool" where
  "message_outcome r \<longleftrightarrow> (case r of Ok x \<Rightarrow> True | Throw e \<Rightarrow> code_of_exn e = Some INVALID_MESSAGE | Undefined \<Rightarrow> False)"

lemma message_outcome_bind:
  "message_outcome r \<Longrightarrow> (\<And>x. r = Ok x \<Longrightarrow> message_outcome (f x)) \<Longrightarrow> message_outcome (bind_out r f)"
  by (cases r) (simp_all add: message_outcome_def)

lemma message_outcome_simps [simp]:
  "message_outcome (Ok x)" "message_outcome (invalid_message t)"
  "message_outcome (parse_message_type cv obj)" "message_outcome (parse_message_id cv obj)"
  "message_outcome (parse_method_name cv obj)" "message_outcome (mk_parsed_parameters obj)"
  by (simp_all add: message_outcome_def parse_message_type_def parse_message_id_def
      parse_method_name_def mk_parsed_parameters_def invalid_message_def split: option.splits)

lemma parse_parts_outcome:
  "message_outcome (parse_request cv (MArray xs))"
  "message_outcome (parse_response cv (MArray xs))"
  "message_outcome (parse_notification cv (MArray xs))"
  by (auto simp: parse_request_def parse_response_def parse_notification_def
      intro!: message_outcome_bind)

lemma parse_message_outcome: "message_outcome (parse_message_from_object cv obj)"
proof (cases obj rule: via_array_cases)
  case (1 xs)
  have at: "\<not> length xs < 3 \<Longrightarrow> array_at (MArray xs) 0 = Ok (xs ! 0)" by (rule array_access) linarith
  show ?thesis
    by (auto simp: 1 at parse_message_from_object_def parse_parts_outcome
        intro!: message_outcome_bind split: message_type.splits)
next
  case 2
  then show ?thesis by (simp add: parse_message_from_object_def)
qed

text \<open>
  C18. What parsing an object means: it returns exactly the messages of the protocol - an array
  of four elements with type 0, an id, a method name and an array of parameters (request); type
  1 with an id and either a non-nil error or a result (response); an array of three elements with
  type 2, a name and an array of parameters (notification) - and any other object is refused with
  \<open>INVALID_MESSAGE\<close>, without an access outside of the array.
\<close>

theorem parse_message_exact:
  "(parse_message_from_object cv obj = Ok m \<longleftrightarrow> message_form cv obj m) \<and>
   ((\<nexists>m. message_form cv obj m) \<longleftrightarrow>
      (\<exists>e. parse_message_from_object cv obj = Throw e \<and> code_of_exn e = Some INVALID_MESSAGE))"
proof -
  have "(\<nexists>m. message_form cv obj m) \<longleftrightarrow>
      (\<exists>e. parse_message_from_object cv obj = Throw e \<and> code_of_exn e = Some INVALID_MESSAGE)"
    using parse_message_outcome [of cv obj] parse_message_Ok_iff [of cv obj]
    by (cases "parse_message_from_object cv obj") (auto simp: message_outcome_def)
  then show ?thesis by (simp add: parse_message_Ok_iff)
qed

section \<open>The parser of a stream\<close>

datatype unpack_result = NeedMore | Unpacked mp_object bytes | UnpackError

text \<open>
  \<open>pending\<close> holds the bytes given to the unpacker that no object has consumed; \<open>reserved\<close> is the
  room the unpacker guarantees after the last \<open>reserve_buffer\<close>. Consuming more than was reserved is
  undefined.
\<close>

record message_parser =
  read_buffer_size :: nat
  pending :: bytes
  reserved :: nat

definition mk_parser :: "nat \<Rightarrow> message_parser" where
  "mk_parser sz = \<lparr>read_buffer_size = sz, pending = [], reserved = 0\<rparr>"

text \<open>\<open>prepare_buffer\<close> returns the size of the view of the buffer.\<close>

definition prepare_buffer :: "message_parser \<Rightarrow> nat \<times> message_parser" where
  "prepare_buffer p = (read_buffer_size p, p\<lparr>reserved := max (reserved p) (read_buffer_size p)\<rparr>)"

text \<open>\<open>consumed(n)\<close>, where \<open>data\<close> are the \<open>n\<close> bytes the caller wrote at the start of the buffer.\<close>

definition parser_consumed :: "bytes \<Rightarrow> message_parser \<Rightarrow> (exn, message_parser) outcome" where
  "parser_consumed data p =
     (if length data \<le> reserved p
      then Ok (p\<lparr>pending := pending p @ data, reserved := reserved p - length data\<rparr>)
      else Undefined)"

definition try_parse ::
    "(bytes \<Rightarrow> unpack_result) \<Rightarrow> mp_conv \<Rightarrow> message_parser \<Rightarrow>
     (exn, parsed_message option) outcome \<times> message_parser" where
  "try_parse next cv p =
     (case next (pending p) of
        NeedMore \<Rightarrow> (Ok None, p)
      | UnpackError \<Rightarrow> (throw_rpc INVALID_MESSAGE ''Failed to parse a message.'', p)
      | Unpacked obj rest \<Rightarrow>
          (bind_out (parse_message_from_object cv obj) (\<lambda>m. Ok (Some m)), p\<lparr>pending := rest\<rparr>))"

section \<open>The serializer\<close>

record mp_packer =
  pk_array :: "nat \<Rightarrow> bytes list"
  pk_obj :: "mp_object \<Rightarrow> bytes list"

text \<open>The pieces written by the calls to the packer, in the order of the calls.\<close>

definition request_pieces :: "mp_packer \<Rightarrow> string \<Rightarrow> u32 \<Rightarrow> mp_object list \<Rightarrow> bytes list" where
  "request_pieces pk method_name message_id parameters =
     pk_array pk 4 @ pk_obj pk (MPosInt 0) @ pk_obj pk (MPosInt (ucast message_id)) @
     pk_obj pk (MStr method_name) @ pk_obj pk (MArray parameters)"

definition successful_response_pieces :: "mp_packer \<Rightarrow> u32 \<Rightarrow> mp_object \<Rightarrow> bytes list" where
  "successful_response_pieces pk request_id result =
     pk_array pk 4 @ pk_obj pk (MPosInt 1) @ pk_obj pk (MPosInt (ucast request_id)) @
     pk_obj pk MNil @ pk_obj pk result"

definition error_response_pieces :: "mp_packer \<Rightarrow> u32 \<Rightarrow> mp_object \<Rightarrow> bytes list" where
  "error_response_pieces pk request_id err =
     pk_array pk 4 @ pk_obj pk (MPosInt 1) @ pk_obj pk (MPosInt (ucast request_id)) @
     pk_obj pk err @ pk_obj pk MNil"

definition notification_pieces :: "mp_packer \<Rightarrow> string \<Rightarrow> mp_object list \<Rightarrow> bytes list" where
  "notification_pieces pk method_name parameters =
     pk_array pk 3 @ pk_obj pk (MPosInt 2) @ pk_obj pk (MStr method_name) @ pk_obj pk (MArray parameters)"

text \<open>The static functions of \<open>MessageSerializer\<close>: the pieces go through a \<open>SerializationBuffer\<close>.\<close>

definition serialize_request where
  "serialize_request mem_ok pk method_name message_id parameters =
     serialize_pieces mem_ok (request_pieces pk method_name message_id parameters)"

definition serialize_successful_response where
  "serialize_successful_response mem_ok pk request_id result =
     serialize_pieces mem_ok (successful_response_pieces pk request_id result)"

definition serialize_error_response where
  "serialize_error_response mem_ok pk request_id err =
     serialize_pieces mem_ok (error_response_pieces pk request_id err)"

definition serialize_notification where
  "serialize_notification mem_ok pk method_name parameters =
     serialize_pieces mem_ok (notification_pieces pk method_name parameters)"

section \<open>The codec of the library\<close>

text \<open>
  What the documentation of the MessagePack library promises, for the objects the format can carry
  without loss (\<open>packable\<close>): an array header for \<open>n\<close> followed by \<open>n\<close> packed objects unpacks as the
  array of the objects and leaves the bytes after them; fewer bytes ask for more. The conversions
  read back an unsigned integer that fits and a string.
\<close>

fun packable :: "mp_object \<Rightarrow> bool" and packable_kv :: "mp_kv \<Rightarrow> bool" where
  "packable MNil = True"
| "packable (MBool b) = True"
| "packable (MPosInt n) = True"
| "packable (MNegInt n) = (2 ^ 63 \<le> unat n)"
| "packable (MFloat32 f) = False"
| "packable (MFloat64 f) = True"
| "packable (MStr s) = (length s < 2 ^ 32)"
| "packable (MBin b) = (length b < 2 ^ 32)"
| "packable (MArray xs) = (length xs < 2 ^ 32 \<and> list_all packable xs)"
| "packable (MMap kvs) = (length kvs < 2 ^ 32 \<and> list_all packable_kv kvs)"
| "packable (MExt t b) = (length b < 2 ^ 32)"
| "packable MInvalid = False"
| "packable_kv (KV k v) = (packable k \<and> packable v)"

definition pack_list :: "mp_packer \<Rightarrow> mp_object list \<Rightarrow> bytes" where
  "pack_list pk xs = concat (pk_array pk (length xs)) @ concat (map (\<lambda>x. concat (pk_obj pk x)) xs)"

definition codec_ok :: "mp_packer \<Rightarrow> (bytes \<Rightarrow> unpack_result) \<Rightarrow> bool" where
  "codec_ok pk next \<longleftrightarrow>
     (\<forall>xs rest. list_all packable xs \<and> length xs < 2 ^ 32 \<longrightarrow>
        next (pack_list pk xs @ rest) = Unpacked (MArray xs) rest) \<and>
     (\<forall>xs front back. list_all packable xs \<and> length xs < 2 ^ 32 \<and>
        pack_list pk xs = front @ back \<and> back \<noteq> [] \<longrightarrow> next front = NeedMore)"

definition conv_ok :: "mp_conv \<Rightarrow> bool" where
  "conv_ok cv \<longleftrightarrow>
     (\<forall>n. as_u64 cv (MPosInt n) = Some n) \<and>
     (\<forall>n. unat n < 2 ^ 32 \<longrightarrow> as_u32 cv (MPosInt n) = Some (ucast n)) \<and>
     (\<forall>s. as_str cv (MStr s) = Some s)"

text \<open>The messages a program sends, and the object and the parsed message each of them carries.\<close>

datatype outgoing =
    OutRequest string u32 "mp_object list"
  | OutResult u32 mp_object
  | OutError u32 mp_object
  | OutNotification string "mp_object list"

fun outgoing_pieces :: "mp_packer \<Rightarrow> outgoing \<Rightarrow> bytes list" where
  "outgoing_pieces pk (OutRequest n i ps) = request_pieces pk n i ps"
| "outgoing_pieces pk (OutResult i r) = successful_response_pieces pk i r"
| "outgoing_pieces pk (OutError i e) = error_response_pieces pk i e"
| "outgoing_pieces pk (OutNotification n ps) = notification_pieces pk n ps"

fun outgoing_elements :: "outgoing \<Rightarrow> mp_object list" where
  "outgoing_elements (OutRequest n i ps) = [MPosInt 0, MPosInt (ucast i), MStr n, MArray ps]"
| "outgoing_elements (OutResult i r) = [MPosInt 1, MPosInt (ucast i), MNil, r]"
| "outgoing_elements (OutError i e) = [MPosInt 1, MPosInt (ucast i), e, MNil]"
| "outgoing_elements (OutNotification n ps) = [MPosInt 2, MStr n, MArray ps]"

fun sent_message :: "outgoing \<Rightarrow> parsed_message" where
  "sent_message (OutRequest n i ps) =
     PRequest \<lparr>req_id = i, req_method = n, req_params = \<lparr>params_object = MArray ps\<rparr>\<rparr>"
| "sent_message (OutResult i r) = PResponse \<lparr>resp_id = i, resp_result = create_result r\<rparr>"
| "sent_message (OutError i e) = PResponse \<lparr>resp_id = i, resp_result = create_error e\<rparr>"
| "sent_message (OutNotification n ps) =
     PNotification \<lparr>notif_method = n, notif_params = \<lparr>params_object = MArray ps\<rparr>\<rparr>"

definition can_send :: "outgoing \<Rightarrow> bool" where
  "can_send out \<longleftrightarrow> list_all packable (outgoing_elements out) \<and> (\<forall>i. out \<noteq> OutError i MNil)"

definition wire :: "mp_packer \<Rightarrow> outgoing \<Rightarrow> bytes" where
  "wire pk out = concat (outgoing_pieces pk out)"

lemma wire_pack_list: "wire pk out = pack_list pk (outgoing_elements out)"
  by (cases out)
    (simp_all add: wire_def pack_list_def request_pieces_def successful_response_pieces_def
      error_response_pieces_def notification_pieces_def numeral_eq_Suc)

lemma length_elements: "length (outgoing_elements out) < 2 ^ 32"
  by (cases out) simp_all

lemma unat_ucast_id: "unat (ucast (i :: u32) :: u64) = unat i"
  using unsigned_less [of i, where 'a = nat] by (simp add: unsigned_ucast_eq take_bit_nat_eq_self)

lemma conv_id: "conv_ok cv \<Longrightarrow> as_u32 cv (MPosInt (ucast (i :: u32))) = Some i"
proof -
  assume "conv_ok cv"
  moreover have "unat (ucast i :: u64) < 2 ^ 32"
    using unsigned_less [of i] by (simp add: unat_ucast_id)
  ultimately have "as_u32 cv (MPosInt (ucast i)) = Some (ucast (ucast i :: u64))"
    unfolding conv_ok_def by blast
  moreover have "ucast (ucast i :: u64) = i"
    using unsigned_less [of i, where 'a = nat]
    by (simp add: word_unat_eq_iff unat_ucast_id unsigned_ucast_eq [of "ucast i :: u64"] take_bit_nat_eq_self)
  ultimately show ?thesis by simp
qed

lemma sent_message_form:
  assumes "conv_ok cv" and "can_send out"
  shows "message_form cv (MArray (outgoing_elements out)) (sent_message out)"
proof (cases out)
  case (OutError i e)
  with assms show ?thesis
    by (auto simp: conv_id create_error_def can_send_def conv_ok_def intro: error_form)
qed (use assms in \<open>auto simp: conv_id create_result_def conv_ok_def
      intro: request_form result_form notification_form\<close>)

lemma parse_sent_message:
  "conv_ok cv \<Longrightarrow> can_send out \<Longrightarrow>
     parse_message_from_object cv (MArray (outgoing_elements out)) = Ok (sent_message out)"
  by (simp add: parse_message_Ok_iff sent_message_form)

lemma next_wire:
  "codec_ok pk next \<Longrightarrow> can_send out \<Longrightarrow>
     next (wire pk out @ rest) = Unpacked (MArray (outgoing_elements out)) rest"
  unfolding codec_ok_def can_send_def wire_pack_list using length_elements by blast

lemma next_wire_prefix:
  "codec_ok pk next \<Longrightarrow> can_send out \<Longrightarrow> wire pk out = front @ back \<Longrightarrow> back \<noteq> [] \<Longrightarrow> next front = NeedMore"
  unfolding codec_ok_def can_send_def wire_pack_list using length_elements by blast

lemma try_parse_wire:
  "codec_ok pk next \<Longrightarrow> conv_ok cv \<Longrightarrow> can_send out \<Longrightarrow> pending p = wire pk out @ rest \<Longrightarrow>
     try_parse next cv p = (Ok (Some (sent_message out)), p\<lparr>pending := rest\<rparr>)"
  by (simp add: try_parse_def next_wire parse_sent_message)

lemma try_parse_prefix:
  "codec_ok pk next \<Longrightarrow> can_send out \<Longrightarrow> wire pk out = pending p @ back \<Longrightarrow> back \<noteq> [] \<Longrightarrow>
     try_parse next cv p = (Ok None, p)"
  by (simp add: try_parse_def next_wire_prefix)

end
