(* ===== verification/Msgpack_Reference.thy ===== *)
theory Msgpack_Reference
  imports Messages
begin

text \<open>
  A concrete MessagePack codec, which shows that the promises of \<open>codec_ok\<close> and \<open>conv_ok\<close> can be
  kept: it is an instance for the witnesses, not a model of code of the repository. It follows the
  MessagePack format and always writes the longest form of a value (uint 64, int 64, float 64,
  str 32, bin 32, array 32, map 32, ext 32). Decoding takes fuel; the number of bytes is enough,
  since every value takes at least one byte, and without fuel the decoder asks for more bytes.
\<close>

section \<open>Big-endian numbers\<close>

fun be :: "nat \<Rightarrow> nat \<Rightarrow> bytes" where
  "be 0 v = []"
| "be (Suc k) v = be k (v div 256) @ [char_of v]"

definition un_be :: "bytes \<Rightarrow> nat" where
  "un_be bs = foldl (\<lambda>a c. 256 * a + of_char c) 0 bs"

lemma length_be [simp]: "length (be k v) = k"
  by (induction k v rule: be.induct) simp_all

lemma un_be_be: "un_be (be k v) = v mod 256 ^ k"
proof (induction k v rule: be.induct)
  case (1 v)
  then show ?case by (simp add: un_be_def)
next
  case (2 k v)
  have "un_be (be (Suc k) v) = 256 * un_be (be k (v div 256)) + v mod 256"
    by (simp add: un_be_def)
  also have "\<dots> = v mod 256 ^ Suc k"
    using 2 by (simp add: mod_mult2_eq)
  finally show ?case .
qed

section \<open>Encoding\<close>

fun enc :: "mp_object \<Rightarrow> bytes" and enc_kv :: "mp_kv \<Rightarrow> bytes" where
  "enc MNil = [char_of (0xC0 :: nat)]"
| "enc (MBool b) = [char_of (if b then 0xC3 else 0xC2 :: nat)]"
| "enc (MPosInt n) = char_of (0xCF :: nat) # be 8 (unat n)"
| "enc (MNegInt n) = char_of (0xD3 :: nat) # be 8 (unat n)"
| "enc (MFloat32 f) = []"
| "enc (MFloat64 f) = char_of (0xCB :: nat) # be 8 (unat f)"
| "enc (MStr s) = char_of (0xDB :: nat) # be 4 (length s) @ s"
| "enc (MBin b) = char_of (0xC6 :: nat) # be 4 (length b) @ b"
| "enc (MArray xs) = char_of (0xDD :: nat) # be 4 (length xs) @ concat (map enc xs)"
| "enc (MMap kvs) = char_of (0xDF :: nat) # be 4 (length kvs) @ concat (map enc_kv kvs)"
| "enc (MExt t b) = char_of (0xC9 :: nat) # be 4 (length b) @ char_of (unat t) # b"
| "enc MInvalid = []"
| "enc_kv (KV k v) = enc k @ enc v"

definition ref_packer :: mp_packer where
  "ref_packer = \<lparr>pk_array = (\<lambda>n. [char_of (0xDD :: nat) # be 4 n]), pk_obj = (\<lambda>x. [enc x])\<rparr>"

section \<open>Decoding\<close>

datatype list_result = LNeed | LError | LDone "mp_object list" bytes

definition with_bytes :: "nat \<Rightarrow> bytes \<Rightarrow> (bytes \<Rightarrow> bytes \<Rightarrow> unpack_result) \<Rightarrow> unpack_result" where
  "with_bytes k bs cont = (if length bs < k then NeedMore else cont (take k bs) (drop k bs))"

definition with_num :: "nat \<Rightarrow> bytes \<Rightarrow> (nat \<Rightarrow> bytes \<Rightarrow> unpack_result) \<Rightarrow> unpack_result" where
  "with_num k bs cont = with_bytes k bs (\<lambda>b. cont (un_be b))"

fun list_cont :: "list_result \<Rightarrow> (mp_object list \<Rightarrow> mp_object) \<Rightarrow> unpack_result" where
  "list_cont LNeed f = NeedMore"
| "list_cont LError f = UnpackError"
| "list_cont (LDone xs rest) f = Unpacked (f xs) rest"

fun pair_up :: "mp_object list \<Rightarrow> mp_kv list" where
  "pair_up (k # v # r) = KV k v # pair_up r"
| "pair_up _ = []"

fun dec :: "nat \<Rightarrow> bytes \<Rightarrow> unpack_result" and dec_list :: "nat \<Rightarrow> nat \<Rightarrow> bytes \<Rightarrow> list_result" where
  "dec 0 bs = NeedMore"
| "dec (Suc f) [] = NeedMore"
| "dec (Suc f) (c # bs) =
     (if c = char_of (0xC0 :: nat) then Unpacked MNil bs
      else if c = char_of (0xC2 :: nat) then Unpacked (MBool False) bs
      else if c = char_of (0xC3 :: nat) then Unpacked (MBool True) bs
      else if c = char_of (0xCF :: nat) then with_num 8 bs (\<lambda>n. Unpacked (MPosInt (of_nat n)))
      else if c = char_of (0xD3 :: nat) then with_num 8 bs (\<lambda>n. Unpacked (MNegInt (of_nat n)))
      else if c = char_of (0xCB :: nat) then with_num 8 bs (\<lambda>n. Unpacked (MFloat64 (of_nat n)))
      else if c = char_of (0xDB :: nat) then with_num 4 bs (\<lambda>n r. with_bytes n r (\<lambda>s. Unpacked (MStr s)))
      else if c = char_of (0xC6 :: nat) then with_num 4 bs (\<lambda>n r. with_bytes n r (\<lambda>s. Unpacked (MBin s)))
      else if c = char_of (0xDD :: nat) then with_num 4 bs (\<lambda>n r. list_cont (dec_list f n r) MArray)
      else if c = char_of (0xDF :: nat) then
        with_num 4 bs (\<lambda>n r. list_cont (dec_list f (2 * n) r) (\<lambda>xs. MMap (pair_up xs)))
      else if c = char_of (0xC9 :: nat) then
        with_num 4 bs (\<lambda>n r. with_num 1 r (\<lambda>t r. with_bytes n r (\<lambda>s. Unpacked (MExt (of_nat t) s))))
      else UnpackError)"
| "dec_list f 0 bs = LDone [] bs"
| "dec_list 0 (Suc n) bs = LNeed"
| "dec_list (Suc f) (Suc n) bs =
     (case dec f bs of
        NeedMore \<Rightarrow> LNeed
      | UnpackError \<Rightarrow> LError
      | Unpacked x r \<Rightarrow> (case dec_list f n r of LDone xs r' \<Rightarrow> LDone (x # xs) r' | e \<Rightarrow> e))"

definition ref_next :: "bytes \<Rightarrow> unpack_result" where
  "ref_next bs = dec (length bs) bs"

definition ref_conv :: mp_conv where
  "ref_conv = \<lparr>
     as_u64 = (\<lambda>x. case x of MPosInt n \<Rightarrow> Some n | _ \<Rightarrow> None),
     as_u32 = (\<lambda>x. case x of MPosInt n \<Rightarrow> if unat n < 2 ^ 32 then Some (ucast n) else None | _ \<Rightarrow> None),
     as_str = (\<lambda>x. case x of MStr s \<Rightarrow> Some s | MBin s \<Rightarrow> Some s | _ \<Rightarrow> None)\<rparr>"

lemma conv_ok_ref: "conv_ok ref_conv"
  by (simp add: conv_ok_def ref_conv_def)

section \<open>Round trip\<close>

definition dec_enc_ok :: "mp_object \<Rightarrow> bool" where
  "dec_enc_ok x \<longleftrightarrow>
     enc x \<noteq> [] \<and>
     (\<forall>f rest. length (enc x) \<le> f \<longrightarrow> dec f (enc x @ rest) = Unpacked x rest) \<and>
     (\<forall>f rest. dec f (enc x @ rest) \<in> {NeedMore, Unpacked x rest}) \<and>
     (\<forall>f front rear. enc x = front @ rear \<longrightarrow> rear \<noteq> [] \<longrightarrow> dec f front = NeedMore)"

definition list_enc_ok :: "mp_object list \<Rightarrow> bool" where
  "list_enc_ok xs \<longleftrightarrow>
     (\<forall>f rest. Suc (length (concat (map enc xs))) \<le> f \<longrightarrow>
        dec_list f (length xs) (concat (map enc xs) @ rest) = LDone xs rest) \<and>
     (\<forall>f rest. dec_list f (length xs) (concat (map enc xs) @ rest) \<in> {LNeed, LDone xs rest}) \<and>
     (\<forall>f front rear. concat (map enc xs) = front @ rear \<longrightarrow> rear \<noteq> [] \<longrightarrow>
        dec_list f (length xs) front = LNeed)"

lemma split_prefix:
  assumes "a @ b = front @ rear"
  obtains (inside) c where "c \<noteq> []" "a = front @ c" | (after) c where "front = a @ c" "b = c @ rear"
  using assms by (metis append_Nil2 append_eq_append_conv2)

lemma list_enc_ok_Cons:
  assumes x: "dec_enc_ok x" and xs: "list_enc_ok xs"
  shows "list_enc_ok (x # xs)"
  unfolding list_enc_ok_def
proof (intro conjI allI impI)
  fix f rest
  assume "Suc (length (concat (map enc (x # xs)))) \<le> f"
  then obtain g where g: "f = Suc g" "length (enc x) + length (concat (map enc xs)) \<le> g"
    by (cases f) auto
  have "0 < length (enc x)" using x by (simp add: dec_enc_ok_def)
  then have "length (enc x) \<le> g" "Suc (length (concat (map enc xs))) \<le> g" using g(2) by linarith+
  then show "dec_list f (length (x # xs)) (concat (map enc (x # xs)) @ rest) = LDone (x # xs) rest"
    using x xs g(1) by (simp add: dec_enc_ok_def list_enc_ok_def)
next
  fix f rest
  show "dec_list f (length (x # xs)) (concat (map enc (x # xs)) @ rest) \<in> {LNeed, LDone (x # xs) rest}"
  proof (cases f)
    case (Suc g)
    have "dec g (enc x @ concat (map enc xs) @ rest) \<in> {NeedMore, Unpacked x (concat (map enc xs) @ rest)}"
      "dec_list g (length xs) (concat (map enc xs) @ rest) \<in> {LNeed, LDone xs rest}"
      using x xs by (auto simp: dec_enc_ok_def list_enc_ok_def)
    then show ?thesis using Suc by auto
  qed simp
next
  fix f front rear
  assume eq: "concat (map enc (x # xs)) = front @ rear" and ne: "rear \<noteq> []"
  show "dec_list f (length (x # xs)) front = LNeed"
  proof (cases f)
    case (Suc g)
    from eq have "enc x @ concat (map enc xs) = front @ rear" by simp
    then show ?thesis
    proof (cases rule: split_prefix)
      case (inside c)
      then have "dec g front = NeedMore" using x by (auto simp: dec_enc_ok_def)
      then show ?thesis using Suc by simp
    next
      case (after c)
      then have "dec g front \<in> {NeedMore, Unpacked x c}" "dec_list g (length xs) c = LNeed"
        using x xs ne by (auto simp: dec_enc_ok_def list_enc_ok_def)
      then show ?thesis using Suc by auto
    qed
  qed simp
qed

lemma list_enc_ok_all: "(\<And>x. x \<in> set xs \<Longrightarrow> dec_enc_ok x) \<Longrightarrow> list_enc_ok xs"
proof (induction xs)
  case Nil
  then show ?case by (simp add: list_enc_ok_def)
next
  case (Cons x xs)
  then show ?case by (simp add: list_enc_ok_Cons)
qed

text \<open>Values that are a tag and a body: what the body needs.\<close>

lemma dec_enc_ok_tagged:
  assumes enc: "enc x = c # body"
    and full: "\<And>f rest. length body \<le> f \<Longrightarrow> dec (Suc f) (c # body @ rest) = Unpacked x rest"
    and some: "\<And>f rest. dec (Suc f) (c # body @ rest) \<in> {NeedMore, Unpacked x rest}"
    and part: "\<And>f front rear. body = front @ rear \<Longrightarrow> rear \<noteq> [] \<Longrightarrow> dec (Suc f) (c # front) = NeedMore"
  shows "dec_enc_ok x"
  unfolding dec_enc_ok_def
proof (intro conjI allI impI)
  show "enc x \<noteq> []" by (simp add: enc)
next
  fix f rest
  assume "length (enc x) \<le> f"
  then show "dec f (enc x @ rest) = Unpacked x rest" using full by (cases f) (simp_all add: enc)
next
  fix f rest
  show "dec f (enc x @ rest) \<in> {NeedMore, Unpacked x rest}"
    using some by (cases f) (simp_all add: enc)
next
  fix f front rear
  assume "enc x = front @ rear" "rear \<noteq> []"
  then show "dec f front = NeedMore" using part
    by (cases f; cases front) (simp_all add: enc)
qed

lemma with_bytes_append: "length b = k \<Longrightarrow> with_bytes k (b @ r) cont = cont b r"
  by (simp add: with_bytes_def)

lemma with_bytes_short: "length r < k \<Longrightarrow> with_bytes k r cont = NeedMore"
  by (simp add: with_bytes_def)

lemma with_num_append: "v < 256 ^ k \<Longrightarrow> with_num k (be k v @ r) cont = cont v r"
  by (simp add: with_num_def with_bytes_append un_be_be)

lemma with_num_short: "length r < k \<Longrightarrow> with_num k r cont = NeedMore"
  by (simp add: with_num_def with_bytes_short)

lemma prefix_short: "body = front @ rear \<Longrightarrow> rear \<noteq> [] \<Longrightarrow> length front < length body"
  by simp

lemma char_tag_eq: "m < 256 \<Longrightarrow> n < 256 \<Longrightarrow> (char_of (m :: nat) = (char_of n :: char)) = (m = n)"
  by (metis char_of_eq_iff mod_less of_char_of)

lemma dec_tags:
  "dec (Suc f) (char_of (0xC0 :: nat) # bs) = Unpacked MNil bs"
  "dec (Suc f) (char_of (0xC2 :: nat) # bs) = Unpacked (MBool False) bs"
  "dec (Suc f) (char_of (0xC3 :: nat) # bs) = Unpacked (MBool True) bs"
  "dec (Suc f) (char_of (0xCF :: nat) # bs) = with_num 8 bs (\<lambda>n. Unpacked (MPosInt (of_nat n)))"
  "dec (Suc f) (char_of (0xD3 :: nat) # bs) = with_num 8 bs (\<lambda>n. Unpacked (MNegInt (of_nat n)))"
  "dec (Suc f) (char_of (0xCB :: nat) # bs) = with_num 8 bs (\<lambda>n. Unpacked (MFloat64 (of_nat n)))"
  "dec (Suc f) (char_of (0xDB :: nat) # bs) =
     with_num 4 bs (\<lambda>n r. with_bytes n r (\<lambda>s. Unpacked (MStr s)))"
  "dec (Suc f) (char_of (0xC6 :: nat) # bs) =
     with_num 4 bs (\<lambda>n r. with_bytes n r (\<lambda>s. Unpacked (MBin s)))"
  "dec (Suc f) (char_of (0xDD :: nat) # bs) = with_num 4 bs (\<lambda>n r. list_cont (dec_list f n r) MArray)"
  "dec (Suc f) (char_of (0xDF :: nat) # bs) =
     with_num 4 bs (\<lambda>n r. list_cont (dec_list f (2 * n) r) (\<lambda>xs. MMap (pair_up xs)))"
  "dec (Suc f) (char_of (0xC9 :: nat) # bs) =
     with_num 4 bs (\<lambda>n r. with_num 1 r (\<lambda>t r. with_bytes n r (\<lambda>s. Unpacked (MExt (of_nat t) s))))"
  by (simp_all add: char_tag_eq)

declare dec.simps(3) [simp del]

lemma dec_enc_ok_number:
  assumes "enc x = c # be 8 v" "v < 2 ^ 64"
    and "\<And>f bs. dec (Suc f) (c # bs) = with_num 8 bs (\<lambda>n. Unpacked (g n))" and "g v = x"
  shows "dec_enc_ok x"
proof (rule dec_enc_ok_tagged [OF assms(1)])
  have v: "v < 256 ^ 8" using assms(2) by simp
  show "dec (Suc f) (c # be 8 v @ rest) = Unpacked x rest" for f rest
    by (simp only: assms(3) with_num_append [OF v] assms(4))
  then show "dec (Suc f) (c # be 8 v @ rest) \<in> {NeedMore, Unpacked x rest}" for f rest
    by simp
  show "dec (Suc f) (c # front) = NeedMore" if "be 8 v = front @ rear" "rear \<noteq> []" for f front rear
    using prefix_short [OF that] by (simp only: assms(3) with_num_short length_be)
qed

lemma dec_enc_ok_sized:
  assumes enc: "enc x = c # be 4 v @ body" and v: "v < 2 ^ 32"
    and dec: "\<And>f bs. dec (Suc f) (c # bs) = with_num 4 bs (g f)"
    and full: "\<And>f rest. Suc (length body) \<le> f \<Longrightarrow> g f v (body @ rest) = Unpacked x rest"
    and some: "\<And>f rest. g f v (body @ rest) \<in> {NeedMore, Unpacked x rest}"
    and part: "\<And>f front rear. body = front @ rear \<Longrightarrow> rear \<noteq> [] \<Longrightarrow> g f v front = NeedMore"
  shows "dec_enc_ok x"
proof (rule dec_enc_ok_tagged [OF enc])
  have v': "v < 256 ^ 4" using v by simp
  note num = with_num_append [OF v']
  show "dec (Suc f) (c # (be 4 v @ body) @ rest) = Unpacked x rest" if "length (be 4 v @ body) \<le> f" for f rest
    using that full [of f rest] by (simp add: dec num)
  show "dec (Suc f) (c # (be 4 v @ body) @ rest) \<in> {NeedMore, Unpacked x rest}" for f rest
    using some [of f rest] by (simp add: dec num)
  show "dec (Suc f) (c # front) = NeedMore" if "be 4 v @ body = front @ rear" "rear \<noteq> []" for f front rear
    using that(1)
  proof (cases rule: split_prefix)
    case (inside d)
    have "length front < 4" using prefix_short [OF inside(2,1)] unfolding length_be .
    then show ?thesis by (simp add: dec with_num_short)
  next
    case (after d)
    then show ?thesis using part [OF after(2) that(2), of f] by (simp add: dec num)
  qed
qed

lemma dec_enc_ok_bytes:
  assumes "enc x = c # be 4 (length b) @ b" "length b < 2 ^ 32"
    and "\<And>f bs. dec (Suc f) (c # bs) = with_num 4 bs (\<lambda>n r. with_bytes n r (\<lambda>s. Unpacked (g s)))"
    and "g b = x"
  shows "dec_enc_ok x"
  by (rule dec_enc_ok_sized [OF assms(1-3)])
    (simp_all add: with_bytes_append with_bytes_short assms(4))

lemma dec_enc_ok_list:
  assumes "enc x = c # be 4 v @ concat (map enc xs)" "v < 2 ^ 32"
    and "\<And>f bs. dec (Suc f) (c # bs) = with_num 4 bs (\<lambda>n r. list_cont (dec_list f (h n) r) g)"
    and "h v = length xs" "g xs = x" "list_enc_ok xs"
  shows "dec_enc_ok x"
proof (rule dec_enc_ok_sized [OF assms(1-3)])
  fix f rest front rear
  show "list_cont (dec_list f (h v) (concat (map enc xs) @ rest)) g = Unpacked x rest"
    if "Suc (length (concat (map enc xs))) \<le> f"
    using assms(4-6) that by (simp add: list_enc_ok_def)
  have "dec_list f (length xs) (concat (map enc xs) @ rest) \<in> {LNeed, LDone xs rest}"
    using assms(6) unfolding list_enc_ok_def by blast
  then show "list_cont (dec_list f (h v) (concat (map enc xs) @ rest)) g \<in> {NeedMore, Unpacked x rest}"
    using assms(4,5) by auto
  show "list_cont (dec_list f (h v) front) g = NeedMore"
    if "concat (map enc xs) = front @ rear" "rear \<noteq> []"
    using assms(4,6) that by (simp add: list_enc_ok_def)
qed

fun flat_kvs :: "mp_kv list \<Rightarrow> mp_object list" where
  "flat_kvs [] = []"
| "flat_kvs (KV k v # r) = k # v # flat_kvs r"

lemma flat_kvs_simps [simp]:
  "length (flat_kvs kvs) = 2 * length kvs" "pair_up (flat_kvs kvs) = kvs"
  "concat (map enc (flat_kvs kvs)) = concat (map enc_kv kvs)"
  by (induction kvs rule: flat_kvs.induct) simp_all

lemma in_flat_kvs: "x \<in> set (flat_kvs kvs) \<Longrightarrow> \<exists>kv \<in> set kvs. x = kv_key kv \<or> x = kv_val kv"
  by (induction kvs rule: flat_kvs.induct) auto

lemma dec_enc_ok_packable:
  "packable x \<Longrightarrow> dec_enc_ok x"
  "packable_kv kv \<Longrightarrow> dec_enc_ok (kv_key kv) \<and> dec_enc_ok (kv_val kv)"
proof (induction x and kv)
  case MNil
  show ?case by (rule dec_enc_ok_tagged [of _ "char_of (0xC0 :: nat)" "[]"]) (simp_all add: dec_tags)
next
  case (MBool b)
  show ?case by (rule dec_enc_ok_tagged [of _ "char_of (if b then 0xC3 else 0xC2 :: nat)" "[]"])
      (simp_all add: dec_tags)
next
  case (MPosInt n)
  show ?case
    by (rule dec_enc_ok_number [OF _ _ dec_tags(4), of _ "unat n"])
      (use unsigned_less [of n, where 'a = nat] in simp_all)
next
  case (MNegInt n)
  show ?case
    by (rule dec_enc_ok_number [OF _ _ dec_tags(5), of _ "unat n"])
      (use unsigned_less [of n, where 'a = nat] in simp_all)
next
  case (MFloat32 f)
  then show ?case by simp
next
  case (MFloat64 n)
  show ?case
    by (rule dec_enc_ok_number [OF _ _ dec_tags(6), of _ "unat n"])
      (use unsigned_less [of n, where 'a = nat] in simp_all)
next
  case (MStr s)
  then show ?case by (intro dec_enc_ok_bytes [OF _ _ dec_tags(7), of _ s]) simp_all
next
  case (MBin s)
  then show ?case by (intro dec_enc_ok_bytes [OF _ _ dec_tags(8), of _ s]) simp_all
next
  case (MArray xs)
  then have "list_enc_ok xs" by (intro list_enc_ok_all) (simp add: list_all_iff)
  with MArray.prems show ?case
    by (intro dec_enc_ok_list [OF _ _ dec_tags(9), of _ "length xs" xs]) simp_all
next
  case (MMap kvs)
  then have "\<And>kv. kv \<in> set kvs \<Longrightarrow> dec_enc_ok (kv_key kv) \<and> dec_enc_ok (kv_val kv)"
    by (simp add: list_all_iff)
  then have "list_enc_ok (flat_kvs kvs)" using in_flat_kvs by (intro list_enc_ok_all) blast
  with MMap.prems show ?case
    by (intro dec_enc_ok_list [OF _ _ dec_tags(10), of _ "length kvs" "flat_kvs kvs"]) simp_all
next
  case (MExt t b)
  have t: "unat t < 256 ^ 1" using unsigned_less [of t, where 'a = nat] by simp
  have t': "char_of (unat t) # r = be 1 (unat t) @ r" for r by simp
  show ?case
  proof (rule dec_enc_ok_sized [of _ "char_of (0xC9 :: nat)" "length b" "be 1 (unat t) @ b"
        "\<lambda>f n r. with_num 1 r (\<lambda>t r. with_bytes n r (\<lambda>s. Unpacked (MExt (of_nat t) s)))"])
    show "enc (MExt t b) = char_of (0xC9 :: nat) # be 4 (length b) @ be 1 (unat t) @ b" by simp
    show "length b < 2 ^ 32" using MExt by simp
    show "dec (Suc f) (char_of (0xC9 :: nat) # bs) =
        with_num 4 bs (\<lambda>n r. with_num 1 r (\<lambda>t r. with_bytes n r (\<lambda>s. Unpacked (MExt (of_nat t) s))))" for f bs
      by (rule dec_tags)
    fix f :: nat and rest front rear
    show eq: "with_num 1 ((be 1 (unat t) @ b) @ rest)
        (\<lambda>t r. with_bytes (length b) r (\<lambda>s. Unpacked (MExt (of_nat t) s))) = Unpacked (MExt t b) rest"
      using with_num_append [OF t] by (simp add: with_bytes_append)
    then show "with_num 1 ((be 1 (unat t) @ b) @ rest)
        (\<lambda>t r. with_bytes (length b) r (\<lambda>s. Unpacked (MExt (of_nat t) s))) \<in> {NeedMore, Unpacked (MExt t b) rest}"
      by simp
    assume "be 1 (unat t) @ b = front @ rear" "rear \<noteq> []"
    then show "with_num 1 front (\<lambda>t r. with_bytes (length b) r (\<lambda>s. Unpacked (MExt (of_nat t) s))) = NeedMore"
    proof (cases rule: split_prefix)
      case (inside d)
      have "length front < 1" using prefix_short [OF inside(2,1)] unfolding length_be .
      then show ?thesis by (simp add: with_num_short)
    next
      case (after d)
      then show ?thesis using \<open>rear \<noteq> []\<close> with_num_append [OF t, of d] by (simp add: with_bytes_short)
    qed
  qed
next
  case MInvalid
  then show ?case by simp
next
  case (KV k v)
  then show ?case by simp
qed

lemma pack_list_ref: "pack_list ref_packer xs = enc (MArray xs)"
  by (simp add: pack_list_def ref_packer_def)

lemma codec_ok_ref: "codec_ok ref_packer ref_next"
  unfolding codec_ok_def
proof (intro conjI allI impI)
  fix xs rest
  assume "list_all packable xs \<and> length xs < 2 ^ 32"
  then have "dec_enc_ok (MArray xs)" by (intro dec_enc_ok_packable) simp
  then show "ref_next (pack_list ref_packer xs @ rest) = Unpacked (MArray xs) rest"
    unfolding pack_list_ref ref_next_def dec_enc_ok_def by simp
next
  fix xs front rear
  assume "list_all packable xs \<and> length xs < 2 ^ 32 \<and> pack_list ref_packer xs = front @ rear \<and> rear \<noteq> []"
  moreover from this have "dec_enc_ok (MArray xs)" by (intro dec_enc_ok_packable) simp
  ultimately show "ref_next front = NeedMore"
    unfolding pack_list_ref ref_next_def dec_enc_ok_def by blast
qed

end
