(* ===== verification/Message_Roundtrip.thy ===== *)
theory Message_Roundtrip
  imports Msgpack_Reference
begin

text \<open>
  The two halves of the messages component together: what the serializer writes into a block of
  memory is what the parser reads back.
\<close>

text \<open>\<open>MessageSerializer\<close> on any of the four kinds of messages.\<close>

definition serialize_outgoing where
  "serialize_outgoing mem_ok pk out m =
     (case out of
        OutRequest n i ps \<Rightarrow> serialize_request mem_ok pk n i ps m
      | OutResult i r \<Rightarrow> serialize_successful_response mem_ok pk i r m
      | OutError i e \<Rightarrow> serialize_error_response mem_ok pk i e m
      | OutNotification n ps \<Rightarrow> serialize_notification mem_ok pk n ps m)"

lemma serialize_outgoing_pieces:
  "serialize_outgoing mem_ok pk out m = serialize_pieces mem_ok (outgoing_pieces pk out) m"
  by (cases out)
    (simp_all add: serialize_outgoing_def serialize_request_def serialize_successful_response_def
      serialize_error_response_def serialize_notification_def)

text \<open>
  C5. A message survives the wire. Serializing a request, a response or a notification whose
  values the format can carry yields a block of memory such that a parser that was given its bytes,
  with anything after them, returns exactly that message and keeps exactly what came after, and a
  parser that was given only a part of its bytes returns nothing and waits.
\<close>

theorem serialize_parse_roundtrip:
  assumes "memory_wf m" and "\<forall>n. mem_ok n" and "length (wire pk out) \<le> MAX_MESSAGE"
    and "codec_ok pk next" and "conv_ok cv" and "can_send out"
  shows "\<exists>p m' b. serialize_outgoing mem_ok pk out m = Ok (p, m') \<and> blocks m' p = Some b \<and>
    (\<forall>q rest. pending q = payload b @ rest \<longrightarrow>
       try_parse next cv q = (Ok (Some (sent_message out)), q\<lparr>pending := rest\<rparr>)) \<and>
    (\<forall>q rest. payload b = pending q @ rest \<and> rest \<noteq> [] \<longrightarrow> try_parse next cv q = (Ok None, q))"
proof -
  from serialize_pieces_block [OF assms(1) assms(3) [unfolded wire_def]] assms(2)
  obtain p m' b where b: "serialize_pieces mem_ok (outgoing_pieces pk out) m = Ok (p, m')"
      "blocks m' = (blocks m)(p \<mapsto> b)" "payload b = wire pk out"
    unfolding wire_def by metis
  then show ?thesis
    using try_parse_wire [OF assms(4-6)] try_parse_prefix [OF assms(4) assms(6)]
    by (intro exI [of _ p] exI [of _ m'] exI [of _ b]) (simp add: serialize_outgoing_pieces)
qed

theorem serialize_parse_roundtrip_witness:
  "\<exists>p m'. serialize_outgoing (\<lambda>_. True) ref_packer (OutRequest ''add'' 7 [MPosInt 1, MPosInt 2]) empty_memory
     = Ok (p, m')"
proof -
  let ?out = "OutRequest ''add'' 7 [MPosInt 1, MPosInt 2]"
  have "length (wire ref_packer ?out) \<le> MAX_MESSAGE"
    by (simp add: wire_pack_list pack_list_ref MAX_MESSAGE_def)
  moreover have "can_send ?out" by (simp add: can_send_def)
  ultimately show ?thesis
    using serialize_parse_roundtrip [OF memory_wf_empty _ _ codec_ok_ref conv_ok_ref, of "\<lambda>_. True" ?out]
    by blast
qed

text \<open>
  The one response the parser does not give back: an error response whose error object is nil
  has the same bytes as a successful response with a nil result, and is read as the latter.
\<close>

theorem nil_error_is_read_as_success:
  assumes "codec_ok pk next" and "conv_ok cv" and "pending q = wire pk (OutError i MNil) @ rest"
  shows "try_parse next cv q =
    (Ok (Some (PResponse \<lparr>resp_id = i, resp_result = create_result MNil\<rparr>)), q\<lparr>pending := rest\<rparr>)"
proof -
  have "wire pk (OutError i MNil) = wire pk (OutResult i MNil)" by (simp add: wire_pack_list)
  moreover have "can_send (OutResult i MNil)" by (simp add: can_send_def)
  ultimately show ?thesis using try_parse_wire [OF assms(1,2), of "OutResult i MNil" q rest] assms(3)
    by simp
qed

theorem nil_error_is_read_as_success_witness:
  "fst (try_parse ref_next ref_conv ((mk_parser 100)\<lparr>pending := wire ref_packer (OutError 3 MNil)\<rparr>)) =
     Ok (Some (PResponse \<lparr>resp_id = 3, resp_result = create_result MNil\<rparr>))"
proof -
  let ?q = "(mk_parser 100)\<lparr>pending := wire ref_packer (OutError 3 MNil)\<rparr>"
  have "pending ?q = wire ref_packer (OutError 3 MNil) @ []" by simp
  from nil_error_is_read_as_success [OF codec_ok_ref conv_ok_ref this] show ?thesis by simp
qed

text \<open>
  The bytes a serialized message stands for. Once it is built, a message is only read through its
  handles (theory \<open>Serialized_Message\<close>), so queues and connections may hold the bytes themselves.
\<close>

definition message_bytes :: "(exn, nat \<times> memory) outcome \<Rightarrow> (exn, bytes) outcome" where
  "message_bytes r =
     bind_out r (\<lambda>(p, m). case blocks m p of None \<Rightarrow> Undefined | Some b \<Rightarrow> Ok (payload b))"

definition serialized :: "(u64 \<Rightarrow> bool) \<Rightarrow> mp_packer \<Rightarrow> memory \<Rightarrow> outgoing \<Rightarrow> (exn, bytes) outcome" where
  "serialized mem_ok pk m out = message_bytes (serialize_outgoing mem_ok pk out m)"

lemma serialized_wire:
  assumes "memory_wf m" and "\<forall>n. mem_ok n" and "length (wire pk out) \<le> MAX_MESSAGE"
  shows "serialized mem_ok pk m out = Ok (wire pk out)"
proof -
  from serialize_pieces_block [OF assms(1) assms(3) [unfolded wire_def]] assms(2)
  obtain p m' b where "serialize_pieces mem_ok (outgoing_pieces pk out) m = Ok (p, m')"
      "blocks m' = (blocks m)(p \<mapsto> b)" "payload b = wire pk out"
    unfolding wire_def by metis
  then show ?thesis by (simp add: serialized_def message_bytes_def serialize_outgoing_pieces)
qed

end
