(* ===== verification/Methods.thy ===== *)
theory Methods
  imports Messages
begin

text \<open>
  Methods of servers (\<open>include/msgpack_rpc/methods\<close>, \<open>src/msgpack_rpc/methods\<close>).

  A method is the interface \<open>IMethod\<close>: a name and the two virtual functions, which act on the
  state \<open>'s\<close> of the application. The function a user registers is a parameter: it takes the
  converted parameters and may return, throw, or change the application's state. \<open>ser\<close> is
  \<open>MessageSerializer\<close> on the response to build: it may throw (no memory, a value that cannot be
  packed).
\<close>

section \<open>Methods\<close>

record ('s, 'm) rpc_method =
  m_name :: string
  m_call :: "parsed_request \<Rightarrow> ('s, 'm) action"
  m_notify :: "parsed_notification \<Rightarrow> ('s, unit) action"

text \<open>\<open>invoke_with_tuple\<close>: every exception of the function leaves as a \<open>MethodException\<close>.\<close>

definition invoke_with_tuple :: "('p \<Rightarrow> ('s, mp_object) action) \<Rightarrow> 'p \<Rightarrow> ('s, mp_object) action" where
  "invoke_with_tuple fn parameter_tuple =
     try_act (fn parameter_tuple)
       (\<lambda>e. case e of
          MethodException obj \<Rightarrow> throw_act e
        | _ \<Rightarrow> if is_std_exception e then throw_act (MethodException (MStr (what e))) else throw_act e)"

text \<open>\<open>FunctionalMethod<Result(Parameters...)>::call\<close>\<close>

definition functional_call where
  "functional_call ser num as_tuple fn request =
     try_act
       (bind_act (lift_out (parameters_as num as_tuple (req_params request))) (\<lambda>p.
        bind_act (invoke_with_tuple fn p) (\<lambda>result.
          lift_out (ser (OutResult (req_id request) result)))))
       (\<lambda>e. case e of
          MethodException obj \<Rightarrow> lift_out (ser (OutError (req_id request) obj))
        | _ \<Rightarrow> throw_act e)"

text \<open>\<open>FunctionalMethod<void(Parameters...)>::call\<close>: the handlers return, what follows them does
  not run after an exception.\<close>

definition functional_call_void where
  "functional_call_void ser num as_tuple fn request =
     (\<lambda>s. case bind_act (lift_out (parameters_as num as_tuple (req_params request))) fn s of
        (Ok (_ :: mp_object), s') \<Rightarrow> (ser (OutResult (req_id request) MNil), s')
      | (Throw e, s') \<Rightarrow>
          (case e of
             MethodException obj \<Rightarrow> (ser (OutError (req_id request) obj), s')
           | _ \<Rightarrow> if is_std_exception e
                 then (ser (OutError (req_id request) (MStr (what e))), s')
                 else (Throw e, s'))
      | (Undefined, s') \<Rightarrow> (Undefined, s'))"

text \<open>\<open>notify\<close> of both: exceptions are only logged.\<close>

definition functional_notify where
  "functional_notify num as_tuple fn notification =
     try_act
       (bind_act (lift_out (parameters_as num as_tuple (notif_params notification))) (\<lambda>p.
        bind_act (fn p) (\<lambda>(_ :: mp_object). return_act ())))
       (\<lambda>e. if is_std_exception e then return_act () else throw_act e)"

definition functional_method where
  "functional_method ser is_void nm num as_tuple fn =
     \<lparr>m_name = nm,
      m_call = (if is_void then functional_call_void ser num as_tuple fn
                else functional_call ser num as_tuple fn),
      m_notify = functional_notify num as_tuple fn\<rparr>"

section \<open>Dictionary of methods\<close>

type_synonym ('s, 'm) method_dict = "string \<rightharpoonup> ('s, 'm) rpc_method"

text \<open>\<open>try_emplace\<close> on the map and the check of its result.\<close>

definition dict_emplace ::
    "string \<Rightarrow> ('s, 'm) rpc_method \<Rightarrow> ('s, 'm) method_dict \<Rightarrow> (exn, ('s, 'm) method_dict) outcome" where
  "dict_emplace nm method methods =
     (case methods nm of
        None \<Rightarrow> Ok (methods(nm \<mapsto> method))
      | Some _ \<Rightarrow> throw_rpc INVALID_ARGUMENT (''Duplicate method name '' @ nm @ ''.''))"

definition dict_append where
  "dict_append method methods = dict_emplace (m_name method) method methods"

definition dict_get :: "('s, 'm) method_dict \<Rightarrow> string \<Rightarrow> (exn, ('s, 'm) rpc_method) outcome" where
  "dict_get methods nm =
     (case methods nm of
        None \<Rightarrow> throw_rpc INVALID_MESSAGE (''Method '' @ nm @ '' not found.'')
      | Some m \<Rightarrow> Ok m)"

interpretation dict: unique_table Map.empty dict_emplace "\<lambda>t. t"
  by unfold_locales (auto simp: dict_emplace_def split: option.splits)

section \<open>Processor of methods\<close>

record ('s, 'm) method_processor =
  methods :: "('s, 'm) method_dict"

definition create_method_processor :: "('s, 'm) method_processor" where
  "create_method_processor = \<lparr>methods = Map.empty\<rparr>"

definition processor_append where
  "processor_append method mp =
     bind_out (dict_append method (methods mp)) (\<lambda>d. Ok (mp\<lparr>methods := d\<rparr>))"

definition processor_call where
  "processor_call ser mp request =
     try_act
       (bind_act (lift_out (dict_get (methods mp) (req_method request))) (\<lambda>m. m_call m request))
       (\<lambda>e. if is_std_exception e
            then lift_out (ser (OutError (req_id request) (MStr (what e))))
            else throw_act e)"

definition processor_notify where
  "processor_notify mp notification =
     try_act
       (bind_act (lift_out (dict_get (methods mp) (notif_method notification))) (\<lambda>m. m_notify m notification))
       (\<lambda>e. if is_std_exception e then return_act () else throw_act e)"

text \<open>\<open>add_method\<close> on a list of methods, in the order of the list.\<close>

fun append_all where
  "append_all [] mp = Ok mp"
| "append_all (m # ms) mp = bind_out (processor_append m mp) (append_all ms)"

section \<open>Registration\<close>

lemma append_all_register:
  "append_all ms mp =
     bind_out (register_all dict_emplace (map (\<lambda>m. (m_name m, m)) ms) (methods mp))
       (\<lambda>d. Ok (mp\<lparr>methods := d\<rparr>))"
proof (induction ms arbitrary: mp)
  case (Cons m ms)
  show ?case
    by (cases "dict_append m (methods mp)")
      (simp_all add: Cons processor_append_def dict_append_def)
qed simp

lemma map_of_names: "m \<in> set ms \<Longrightarrow> distinct (map m_name ms) \<Longrightarrow>
    map_of (map (\<lambda>m. (m_name m, m)) ms) (m_name m) = Some m"
  by (induction ms) (auto simp: image_iff)

text \<open>
  Registering methods on a new processor succeeds exactly when their names are distinct;
  then a name finds the method that was registered with it, and a name that was not registered is
  refused with \<open>INVALID_MESSAGE\<close>. A duplicate is refused with \<open>INVALID_ARGUMENT\<close>.
\<close>

theorem registered_methods_are_found:
  fixes ms :: "('s, 'm) rpc_method list"
  shows "(distinct (map m_name ms) \<longleftrightarrow>
      (\<exists>mp. append_all ms create_method_processor = Ok mp \<and>
        (\<forall>m. m \<in> set ms \<longrightarrow> dict_get (methods mp) (m_name m) = Ok m) \<and>
        (\<forall>n. n \<notin> m_name ` set ms \<longrightarrow>
          dict_get (methods mp) n = throw_rpc INVALID_MESSAGE (''Method '' @ n @ '' not found.'')))) \<and>
     (\<not> distinct (map m_name ms) \<longleftrightarrow>
       (\<exists>n. append_all ms create_method_processor =
          throw_rpc INVALID_ARGUMENT (''Duplicate method name '' @ n @ ''.'')))"
    (is "(_ \<longleftrightarrow> ?found) \<and> (_ \<longleftrightarrow> ?refused)")
proof -
  let ?kvs = "map (\<lambda>m. (m_name m, m)) ms"
  have names: "map fst ?kvs = map m_name ms" by (simp add: comp_def)
  have ok: "(\<exists>d. register_all dict_emplace ?kvs Map.empty = Ok d) \<longleftrightarrow> distinct (map m_name ms)"
    unfolding dict.register_all_Ok_iff names by simp
  have refused: "\<exists>n. register_all dict_emplace kvs t =
        throw_rpc INVALID_ARGUMENT (''Duplicate method name '' @ n @ ''.'')"
    if "\<nexists>d. register_all dict_emplace kvs t = Ok d" for kvs and t :: "('s, 'm) method_dict"
    using that
    by (induction kvs arbitrary: t) (auto simp: dict_emplace_def split: option.splits)
  have found: ?found if d: "register_all dict_emplace ?kvs Map.empty = Ok d" for d
  proof -
    have "d = map_of ?kvs" using dict.register_all_lookup [OF d] by simp
    moreover have "distinct (map m_name ms)" using ok d by blast
    ultimately have "\<forall>m. m \<in> set ms \<longrightarrow> d (m_name m) = Some m" "\<forall>n. n \<notin> m_name ` set ms \<longrightarrow> d n = None"
      using map_of_names by (auto simp: map_of_eq_None_iff image_iff)
    then show ?thesis
      by (simp add: append_all_register create_method_processor_def d dict_get_def)
  qed
  show ?thesis
  proof (cases "\<exists>d. register_all dict_emplace ?kvs (Map.empty :: ('s, 'm) method_dict) = Ok d")
    case True
    then have "?found" "\<not> ?refused"
      using found by (auto simp: append_all_register create_method_processor_def)
    then show ?thesis using True ok by blast
  next
    case False
    then have "?refused" "\<not> ?found"
      using refused [OF False] by (auto simp: append_all_register create_method_processor_def)
    then show ?thesis using False ok by blast
  qed
qed

theorem registered_methods_are_found_witness:
  "\<not> is_ok (append_all [functional_method (\<lambda>out. Ok out) False ''f'' 0 Some (\<lambda>_. return_act MNil),
      functional_method (\<lambda>out. Ok out) True ''f'' 0 Some (\<lambda>_. return_act MNil)]
     (create_method_processor :: (unit, outgoing) method_processor))"
  using registered_methods_are_found [of "[functional_method (\<lambda>out. Ok out) False ''f'' 0 Some (\<lambda>_. return_act MNil),
      functional_method (\<lambda>out. Ok out) True ''f'' 0 Some (\<lambda>_. return_act MNil) :: (unit, outgoing) rpc_method]"]
  by (auto simp: functional_method_def)

section \<open>Calls\<close>

text \<open>What the server answers to a request, as a function of what the registered function does.\<close>

definition answer_of_exn :: "u32 \<Rightarrow> exn \<Rightarrow> outgoing" where
  "answer_of_exn i e =
     (case e of MethodException obj \<Rightarrow> OutError i obj | _ \<Rightarrow> OutError i (MStr (what e)))"

definition call_spec where
  "call_spec is_void num as_tuple fn request s =
     (case parameters_as num as_tuple (req_params request) of
        Ok p \<Rightarrow>
          (case fn p s of
             (Ok r, s') \<Rightarrow> (Ok (OutResult (req_id request) (if is_void then MNil else r)), s')
           | (Throw e, s') \<Rightarrow>
               (if is_std_exception e then Ok (answer_of_exn (req_id request) e) else Throw e, s')
           | (Undefined, s') \<Rightarrow> (Undefined, s'))
      | Throw e \<Rightarrow> (Ok (OutError (req_id request) (MStr (what e))), s)
      | Undefined \<Rightarrow> (Undefined, s))"

lemma parameters_as_Throw:
  "parameters_as num as_tuple p = Throw e \<Longrightarrow> \<exists>x. e = RpcException x"
  by (auto simp: parameters_as_def split: option.splits if_splits)

lemma processor_call_registered:
  assumes m: "methods mp (req_method request) = Some (functional_method ser is_void nm num as_tuple fn)"
    and ser: "\<And>out. ser out = Ok (f out)"
  shows "processor_call ser mp request s =
    (case call_spec is_void num as_tuple fn request s of
       (Ok out, s') \<Rightarrow> (Ok (f out), s') | (Throw e, s') \<Rightarrow> (Throw e, s') | (Undefined, s') \<Rightarrow> (Undefined, s'))"
proof (cases "parameters_as num as_tuple (req_params request)")
  case (Ok p)
  show ?thesis
  proof (cases "fn p s")
    case (Pair r s')
    show ?thesis
      by (cases r; cases is_void)
        (auto simp: processor_call_def dict_get_def m functional_method_def functional_call_def
          functional_call_void_def invoke_with_tuple_def call_spec_def answer_of_exn_def act_defs
          Ok Pair ser split: exn.splits)
  qed
next
  case (Throw e)
  then obtain x where "e = RpcException x" using parameters_as_Throw by blast
  with Throw show ?thesis
    by (cases is_void)
      (simp_all add: processor_call_def dict_get_def m functional_method_def functional_call_def
        functional_call_void_def call_spec_def act_defs ser)
next
  case Undefined
  then show ?thesis
    by (cases is_void)
      (simp_all add: processor_call_def dict_get_def m functional_method_def functional_call_def
        functional_call_void_def call_spec_def act_defs)
qed

text \<open>Only the answer itself has to be serialized.\<close>

lemma processor_call_answer:
  assumes m: "methods mp (req_method request) = Some (functional_method ser is_void nm num as_tuple fn)"
    and spec: "call_spec is_void num as_tuple fn request s = (Ok out, s')" and ser: "ser out = Ok msg"
  shows "processor_call ser mp request s = (Ok msg, s')"
proof (cases "parameters_as num as_tuple (req_params request)")
  case (Ok p)
  obtain r s1 where fn: "fn p s = (r, s1)" by (cases "fn p s")
  show ?thesis
  proof (cases r)
    case r: (Ok v)
    have o: "out = OutResult (req_id request) (if is_void then MNil else v)" "s' = s1"
      using spec Ok fn r by (simp_all add: call_spec_def)
    show ?thesis using ser unfolding o
      by (cases is_void)
        (simp_all add: processor_call_def dict_get_def m functional_method_def functional_call_def
          functional_call_void_def invoke_with_tuple_def act_defs Ok fn r)
  next
    case r: (Throw e)
    have std: "is_std_exception e" using spec Ok fn r by (simp add: call_spec_def split: if_splits)
    then have o: "out = answer_of_exn (req_id request) e" "s' = s1"
      using spec Ok fn r by (simp_all add: call_spec_def)
    show ?thesis using ser std unfolding o
      by (cases is_void; cases e)
        (simp_all add: processor_call_def dict_get_def m functional_method_def functional_call_def
          functional_call_void_def invoke_with_tuple_def act_defs answer_of_exn_def Ok fn r)
  next
    case Undefined
    then show ?thesis using spec Ok fn by (simp add: call_spec_def)
  qed
next
  case (Throw e)
  then obtain x where e: "e = RpcException x" using parameters_as_Throw by blast
  have o: "out = OutError (req_id request) (MStr (what e))" "s' = s" using spec Throw by (simp_all add: call_spec_def)
  show ?thesis using ser Throw unfolding o e
    by (cases is_void)
      (simp_all add: processor_call_def dict_get_def m functional_method_def functional_call_def
        functional_call_void_def act_defs)
next
  case Undefined
  then show ?thesis using spec by (simp add: call_spec_def)
qed

text \<open>Every answer carries the id of its request.\<close>

lemma call_spec_response:
  assumes "call_spec is_void num as_tuple fn request s = (Ok out, s')"
  obtains (result) r where "out = OutResult (req_id request) r"
    | (error) e where "out = OutError (req_id request) e"
proof (cases "parameters_as num as_tuple (req_params request)")
  case (Ok p)
  obtain r s1 where "fn p s = (r, s1)" by (cases "fn p s")
  then show ?thesis using assms Ok result error
    by (cases r) (auto simp: call_spec_def answer_of_exn_def split: if_splits exn.splits)
next
  case (Throw e)
  then show ?thesis using assms error by (auto simp: call_spec_def)
next
  case Undefined
  then show ?thesis using assms by (simp add: call_spec_def)
qed

text \<open>
  C14. The answer to a request for a registered method, whether it returns a value or not: a
  wrong number or wrong types of parameters are answered with an error message, without calling
  the function; otherwise the function runs once and a value, a custom error object or the text of
  an exception becomes the response, always with the id of the request. Only an exception that is
  not a \<open>std::exception\<close> leaves the processor.
\<close>

theorem registered_call_is_answered:
  assumes "methods mp (req_method request) = Some (functional_method ser is_void nm num as_tuple fn)"
    and "\<And>out. ser out = Ok (f out)"
  shows "processor_call ser mp request s =
    (case call_spec is_void num as_tuple fn request s of
       (Ok out, s') \<Rightarrow> (Ok (f out), s') | (Throw e, s') \<Rightarrow> (Throw e, s') | (Undefined, s') \<Rightarrow> (Undefined, s'))"
  by (rule processor_call_registered [OF assms])

text \<open>An example: a method that adds two unsigned integers and counts its calls.\<close>

definition add_params :: "mp_object \<Rightarrow> (u64 \<times> u64) option" where
  "add_params obj = (case obj of MArray [MPosInt a, MPosInt b] \<Rightarrow> Some (a, b) | _ \<Rightarrow> None)"

definition add_function :: "u64 \<times> u64 \<Rightarrow> (nat, mp_object) action" where
  "add_function p = (\<lambda>n.
     if fst p = 0 then (Throw (MethodException (MBool False)), Suc n)
     else (Ok (MPosInt (fst p + snd p)), Suc n))"

definition add_method :: "(outgoing \<Rightarrow> (exn, 'm) outcome) \<Rightarrow> (nat, 'm) rpc_method" where
  "add_method ser = functional_method ser False ''add'' 2 add_params add_function"

definition add_processor where
  "add_processor ser = \<lparr>methods = [''add'' \<mapsto> add_method ser]\<rparr>"

definition add_request :: "mp_object list \<Rightarrow> parsed_request" where
  "add_request ps = \<lparr>req_id = 5, req_method = ''add'', req_params = \<lparr>params_object = MArray ps\<rparr>\<rparr>"

lemma add_method_registered:
  "methods (add_processor ser) (req_method (add_request ps)) =
     Some (functional_method ser False ''add'' 2 add_params add_function)"
  by (simp add: add_processor_def add_method_def add_request_def)

lemma add_call:
  "processor_call Ok (add_processor Ok) (add_request [MPosInt 1, MPosInt 2]) n = (Ok (OutResult 5 (MPosInt 3)), Suc n)"
  unfolding processor_call_registered [where f = "\<lambda>x. x", OF add_method_registered refl]
  by (simp add: call_spec_def add_request_def parameters_as_def add_params_def add_function_def)

theorem registered_call_is_answered_witness:
  "processor_call Ok (add_processor Ok) (add_request [MPosInt 1, MPosInt 2]) 0 = (Ok (OutResult 5 (MPosInt 3)), 1) \<and>
   processor_call Ok (add_processor Ok) (add_request [MPosInt 0, MPosInt 2]) 0 = (Ok (OutError 5 (MBool False)), 1) \<and>
   processor_call Ok (add_processor Ok) (add_request [MNil, MPosInt 2]) 0 =
     (Ok (OutError 5 (MStr ''Invalid types of parameters.'')), 0)"
proof -
  note call = registered_call_is_answered [where f = "\<lambda>x. x", OF add_method_registered refl]
  show ?thesis
    unfolding call
    by (simp add: call_spec_def add_request_def parameters_as_def add_params_def add_function_def
        answer_of_exn_def exc_what_mk c_str_def)
qed

text \<open>
  C15. Whatever the methods do, an exception leaves \<open>call\<close> only when it is not a
  \<open>std::exception\<close> or when the error response itself cannot be serialized; none that is a
  \<open>std::exception\<close> leaves \<open>notify\<close>; and a request for an unknown method is answered with an error
  and changes nothing.
\<close>

theorem processor_contains_exceptions:
  "(fst (processor_call ser mp request s) = Throw e \<longrightarrow>
      \<not> is_std_exception e \<or> (\<exists>t. ser (OutError (req_id request) (MStr t)) = Throw e)) \<and>
   (fst (processor_notify mp notification s) = Throw e \<longrightarrow> \<not> is_std_exception e) \<and>
   (methods mp (req_method request) = None \<longrightarrow>
      processor_call ser mp request s =
        (ser (OutError (req_id request) (MStr (c_str (''Method '' @ req_method request @ '' not found.'')))), s)) \<and>
   (methods mp (notif_method notification) = None \<longrightarrow> processor_notify mp notification s = (Ok (), s))"
  by (auto simp: processor_call_def processor_notify_def act_defs dict_get_def exc_what_mk
      split: outcome.splits prod.splits if_splits option.splits)

theorem processor_contains_exceptions_witness:
  "processor_call Ok (create_method_processor :: (unit, outgoing) method_processor)
     \<lparr>req_id = 9, req_method = ''f'', req_params = \<lparr>params_object = MArray []\<rparr>\<rparr> () =
   (Ok (OutError 9 (MStr ''Method f not found.'')), ())"
  using processor_contains_exceptions [of Ok "create_method_processor :: (unit, outgoing) method_processor"
      "\<lparr>req_id = 9, req_method = ''f'', req_params = \<lparr>params_object = MArray []\<rparr>\<rparr>" "()" OtherException]
  by (simp add: create_method_processor_def c_str_def)

end
