(* ===== verification/Client_Calls.thy ===== *)
theory Client_Calls
  imports Messages Format_Object
begin

text \<open>
  The calls of a client and their results (\<open>src/msgpack_rpc/clients/impl\<close>: \<open>request_id_generator.h\<close>,
  \<open>call_future_impl.h\<close>, \<open>call.h\<close>, \<open>call_list.h\<close>, \<open>received_message_processor.h\<close>; \<open>clients/call_future.h\<close>,
  \<open>clients/server_exception.h\<close>).

  Futures are shared objects, so they live in a store and are named by their position in it. Time
  is a number of nanoseconds; a point in time the 64-bit counter of the clock cannot hold is an
  overflow of a signed integer, which is undefined.
\<close>

section \<open>Request IDs\<close>

text \<open>\<open>next_id_++\<close> on an unsigned 32-bit counter; the first id is random, so it is a parameter.\<close>

definition generate_id :: "u32 \<Rightarrow> u32 \<times> u32" where
  "generate_id next_id = (next_id, next_id + 1)"

fun generate_ids :: "nat \<Rightarrow> u32 \<Rightarrow> u32 list \<times> u32" where
  "generate_ids 0 g = ([], g)"
| "generate_ids (Suc n) g =
     (let (i, g') = generate_id g; (is, g'') = generate_ids n g' in (i # is, g''))"

lemma generate_ids_nth: "generate_ids n g = (map (\<lambda>k. g + of_nat k) [0..<n], g + of_nat n)"
proof (induction n arbitrary: g)
  case (Suc n)
  have "map (\<lambda>k. g + of_nat k) [0..<Suc n] = g # map (\<lambda>k. g + 1 + of_nat k) [0..<n]"
    by (subst upt_conv_Cons, simp, subst map_Suc_upt [symmetric]) (simp add: comp_def algebra_simps)
  then show ?case by (simp add: generate_id_def Suc Let_def algebra_simps)
qed simp

lemma of_nat_word_eq: "m < 2 ^ 32 \<Longrightarrow> n < 2 ^ 32 \<Longrightarrow> (of_nat m :: u32) = of_nat n \<longleftrightarrow> m = n"
  by (simp add: word_of_nat_eq_iff take_bit_nat_eq_self)

text \<open>
  Request ids repeat exactly after \<open>2 ^ 32\<close> requests: any \<open>2 ^ 32\<close> ids generated in a row are
  distinct, whatever the first one is, and the one after them is the first again.
\<close>

theorem request_ids_distinct:
  "(distinct (fst (generate_ids n g)) \<longleftrightarrow> n \<le> 2 ^ 32) \<and> snd (generate_ids (2 ^ 32) g) = g"
proof -
  have wrap: "(of_nat (2 ^ 32) :: u32) = 0" by simp
  have "distinct (map (\<lambda>k. g + of_nat k) [0..<n])" if "n \<le> 2 ^ 32"
    using that by (auto simp: distinct_map inj_on_def of_nat_word_eq)
  moreover have "\<not> distinct (map (\<lambda>k. g + of_nat k) [0..<n])" if "2 ^ 32 < n"
  proof
    assume "distinct (map (\<lambda>k. g + of_nat k) [0..<n])"
    then have "inj_on (\<lambda>k. g + of_nat k) (set [0..<n])" by (simp add: distinct_map)
    moreover have "g + of_nat 0 = g + of_nat (2 ^ 32)" by (simp only: wrap) simp
    ultimately have "(0 :: nat) = 2 ^ 32" by (rule inj_onD) (use that in simp_all)
    then show False by simp
  qed
  ultimately have "distinct (map (\<lambda>k. g + of_nat k) [0..<n]) \<longleftrightarrow> n \<le> 2 ^ 32" by linarith
  then show ?thesis by (simp only: generate_ids_nth fst_conv snd_conv wrap add_0_right simp_thms)
qed

section \<open>Futures\<close>

record call_future =
  fut_result :: "call_result option"
  fut_status :: status
  fut_set :: bool
  fut_deadline :: int

definition mk_future :: "int \<Rightarrow> call_future" where
  "mk_future deadline =
     \<lparr>fut_result = None, fut_status = success_status, fut_set = False, fut_deadline = deadline\<rparr>"

definition set_result :: "call_result \<Rightarrow> call_future \<Rightarrow> call_future" where
  "set_result r f = (if fut_set f then f else f\<lparr>fut_result := Some r, fut_set := True\<rparr>)"

definition set_error :: "status \<Rightarrow> call_future \<Rightarrow> (exn, call_future) outcome" where
  "set_error err f =
     (if fut_set f then Ok f
      else if code_of err = SUCCESS then throw_rpc INVALID_ARGUMENT ''Invalid error status.''
      else Ok (f\<lparr>fut_status := err, fut_set := True\<rparr>))"

definition get_result_impl :: "call_future \<Rightarrow> (exn, call_result) outcome" where
  "get_result_impl f =
     (case fut_result f of
        Some r \<Rightarrow> Ok r
      | None \<Rightarrow> Throw (RpcException (rpc_exception_of_status (fut_status f))))"

definition timeout_message :: string where
  "timeout_message = ''Result of an RPC couldn'' @ [CHR 0x27] @ ''t be received within a timeout.''"

text \<open>
  \<open>wait_until\<close> on the condition variable: \<open>wakeups\<close> are the times at which the waiting thread holds
  the lock, with the future it sees then: at the call, at notifications, spuriously, and after the
  deadline at the latest. Without a wake-up the thread still waits (\<open>None\<close>).
\<close>

fun wait_until_impl :: "int \<Rightarrow> (int \<times> call_future) list \<Rightarrow> (exn, call_future) outcome option" where
  "wait_until_impl deadline [] = None"
| "wait_until_impl deadline ((t, f) # wakeups) =
     (if fut_set f then Some (Ok f)
      else if deadline \<le> t then Some (throw_rpc TIMEOUT timeout_message)
      else wait_until_impl deadline wakeups)"

definition clock_ok :: "int \<Rightarrow> bool" where
  "clock_ok t \<longleftrightarrow> - (2 ^ 63) \<le> t \<and> t < 2 ^ 63"

definition add_time :: "int \<Rightarrow> int \<Rightarrow> (exn, int) outcome" where
  "add_time now d = (if clock_ok (now + d) then Ok (now + d) else Undefined)"

definition get_result :: "int \<Rightarrow> (int \<times> call_future) list \<Rightarrow> (exn, call_result) outcome option" where
  "get_result fut_dl wakeups =
     map_option (\<lambda>r. bind_out r get_result_impl) (wait_until_impl fut_dl wakeups)"

definition get_result_within ::
    "int \<Rightarrow> int \<Rightarrow> int \<Rightarrow> (int \<times> call_future) list \<Rightarrow> (exn, call_result) outcome option" where
  "get_result_within fut_dl now timeout wakeups =
     (case add_time now timeout of
        Ok t \<Rightarrow> map_option (\<lambda>r. bind_out r get_result_impl) (wait_until_impl (min t fut_dl) wakeups)
      | Throw e \<Rightarrow> Some (Throw e)
      | Undefined \<Rightarrow> Some Undefined)"

text \<open>\<open>CallFuture<Result>\<close>: the result is converted, an error becomes a \<open>ServerException\<close>.\<close>

definition mk_server_exception :: "(u64 \<Rightarrow> string) \<Rightarrow> mp_object \<Rightarrow> (exn, exn) outcome" where
  "mk_server_exception show_double obj =
     bind_out (format_msgpack_object_to_string show_double obj) (\<lambda>t.
       Ok (ServerException (mk_rpc_exception SERVER_ERROR (''An error in a server: '' @ t)) obj))"

definition get_from_call_result ::
    "(u64 \<Rightarrow> string) \<Rightarrow> (mp_object \<Rightarrow> 'a option) \<Rightarrow> call_result \<Rightarrow> (exn, 'a) outcome" where
  "get_from_call_result show_double as_T r =
     (if is_success r then result_as as_T r
      else bind_out (mk_server_exception show_double (result_object r)) Throw)"

definition get_from_call_result_void :: "(u64 \<Rightarrow> string) \<Rightarrow> call_result \<Rightarrow> (exn, unit) outcome" where
  "get_from_call_result_void show_double r =
     (if is_success r then Ok ()
      else bind_out (mk_server_exception show_double (result_object r)) Throw)"

definition server_error_as :: "(mp_object \<Rightarrow> 'a option) \<Rightarrow> mp_object \<Rightarrow> (exn, 'a) outcome" where
  "server_error_as as_T obj =
     (case as_T obj of None \<Rightarrow> throw_rpc TYPE_ERROR ''Invalid type of the error.'' | Some x \<Rightarrow> Ok x)"

section \<open>The list of calls\<close>

text \<open>
  \<open>calls\<close> is \<open>list_\<close>: the future of the promise of each call not answered yet. The timer of a call
  only calls \<open>on_timeout\<close> with its id, so it needs no state. \<open>executor_alive\<close> says whether the weak
  pointer to the executor can be locked.
\<close>

record call_list =
  calls :: "u32 \<rightharpoonup> nat"
  futures :: "nat \<Rightarrow> call_future"
  next_future :: nat
  next_id :: u32
  call_timeout :: int
  executor_alive :: bool

definition mk_call_list :: "int \<Rightarrow> u32 \<Rightarrow> call_list" where
  "mk_call_list timeout first_id =
     \<lparr>calls = Map.empty, futures = (\<lambda>_. mk_future 0), next_future = 0, next_id = first_id,
      call_timeout = timeout, executor_alive = True\<rparr>"

text \<open>The part of \<open>create\<close> under the lock; it returns the id, the message and the new entry.\<close>

definition create_entry ::
    "int \<Rightarrow> (u32 \<Rightarrow> (exn, 'm) outcome) \<Rightarrow> (call_list, u32 \<times> 'm \<times> nat) action" where
  "create_entry now ser cl =
     (case add_time now (call_timeout cl) of
        Ok deadline \<Rightarrow>
          (let (request_id, g) = generate_id (next_id cl); cl1 = cl\<lparr>next_id := g\<rparr>
           in case ser request_id of
             Ok msg \<Rightarrow>
               if \<not> executor_alive cl1 then (Undefined, cl1)
               else if calls cl1 request_id \<noteq> None
               then (throw_rpc UNEXPECTED_ERROR ''Duplicate request ID.'', cl1)
               else (Ok (request_id, msg, next_future cl1),
                     cl1\<lparr>calls := (calls cl1)(request_id \<mapsto> next_future cl1),
                        futures := (futures cl1)(next_future cl1 := mk_future deadline),
                        next_future := Suc (next_future cl1)\<rparr>)
           | Throw e \<Rightarrow> (Throw e, cl1)
           | Undefined \<Rightarrow> (Undefined, cl1))
      | Throw e \<Rightarrow> (Throw e, cl)
      | Undefined \<Rightarrow> (Undefined, cl))"

text \<open>
  The part after \<open>lock.unlock()\<close>, which uses the reference \<open>call\<close> to the entry: \<open>set_timeout\<close> and
  \<open>future()\<close>. The reference is valid while the entry is in the list.
\<close>

definition use_entry :: "u32 \<Rightarrow> nat \<Rightarrow> (call_list, nat) action" where
  "use_entry request_id entry cl = (if calls cl request_id = Some entry then (Ok entry, cl) else (Undefined, cl))"

definition create_call ::
    "int \<Rightarrow> (u32 \<Rightarrow> (exn, 'm) outcome) \<Rightarrow> (call_list, u32 \<times> 'm \<times> nat) action" where
  "create_call now ser =
     bind_act (create_entry now ser) (\<lambda>(request_id, msg, entry).
     bind_act (use_entry request_id entry) (\<lambda>_.
     bind_act (use_entry request_id entry) (\<lambda>future.
       return_act (request_id, msg, future))))"

definition handle_response :: "parsed_response \<Rightarrow> (call_list, unit) action" where
  "handle_response response cl =
     (case calls cl (resp_id response) of
        None \<Rightarrow> (Ok (), cl)
      | Some f \<Rightarrow>
          (Ok (), cl\<lparr>futures := (futures cl)(f := set_result (resp_result response) (futures cl f)),
             calls := (calls cl)(resp_id response := None)\<rparr>))"

definition on_timeout :: "u32 \<Rightarrow> (call_list, unit) action" where
  "on_timeout request_id cl =
     (case calls cl request_id of
        None \<Rightarrow> (Ok (), cl)
      | Some f \<Rightarrow>
          (case set_error (mk_status TIMEOUT timeout_message) (futures cl f) of
             Ok fut \<Rightarrow>
               (Ok (), cl\<lparr>futures := (futures cl)(f := fut), calls := (calls cl)(request_id := None)\<rparr>)
           | Throw e \<Rightarrow> (Throw e, cl)
           | Undefined \<Rightarrow> (Undefined, cl)))"

text \<open>\<open>ReceivedMessageProcessor::operator()\<close>: only responses are for a client.\<close>

definition process_received :: "parsed_message \<Rightarrow> (call_list, unit) action" where
  "process_received msg =
     (case msg of PResponse response \<Rightarrow> handle_response response | _ \<Rightarrow> return_act ())"

section \<open>What the calls do\<close>

fun future_sets :: "(call_result + status) list \<Rightarrow> call_future \<Rightarrow> call_future" where
  "future_sets [] f = f"
| "future_sets (Inl r # xs) f = future_sets xs (set_result r f)"
| "future_sets (Inr e # xs) f =
     future_sets xs (case set_error e f of Ok f' \<Rightarrow> f' | _ \<Rightarrow> f)"

lemma future_sets_done: "fut_set f \<Longrightarrow> future_sets xs f = f"
  by (induction xs f rule: future_sets.induct) (simp_all add: set_result_def set_error_def)

lemma wait_until_ends:
  "\<exists>t f. (t, f) \<in> set wakeups \<and> deadline \<le> t \<Longrightarrow>
     wait_until_impl deadline wakeups = Some (throw_rpc TIMEOUT timeout_message) \<or>
     (\<exists>t f. (t, f) \<in> set wakeups \<and> fut_set f \<and> wait_until_impl deadline wakeups = Some (Ok f))"
  by (induction deadline wakeups rule: wait_until_impl.induct) (auto split: if_splits)

text \<open>
  A future takes the first result or error it is given and ignores the others; an error must
  not be the success status; and waiting for it ends at the deadline at the latest, with what was
  set before or with \<open>TIMEOUT\<close>.
\<close>

theorem future_takes_first:
  "(future_sets (Inl r # xs) (mk_future d) = (mk_future d)\<lparr>fut_result := Some r, fut_set := True\<rparr>) \<and>
   (code_of e \<noteq> SUCCESS \<longrightarrow>
      future_sets (Inr e # xs) (mk_future d) = (mk_future d)\<lparr>fut_status := e, fut_set := True\<rparr>) \<and>
   (code_of e = SUCCESS \<longrightarrow> set_error e (mk_future d) = throw_rpc INVALID_ARGUMENT ''Invalid error status.'') \<and>
   ((\<exists>t f. (t, f) \<in> set wakeups \<and> d \<le> t) \<longrightarrow>
      get_result d wakeups = Some (throw_rpc TIMEOUT timeout_message) \<or>
      (\<exists>t f. (t, f) \<in> set wakeups \<and> fut_set f \<and> get_result d wakeups = Some (get_result_impl f)))"
proof -
  have "get_result d wakeups = Some (throw_rpc TIMEOUT timeout_message) \<or>
      (\<exists>t f. (t, f) \<in> set wakeups \<and> fut_set f \<and> get_result d wakeups = Some (get_result_impl f))"
    if "\<exists>t f. (t, f) \<in> set wakeups \<and> d \<le> t"
    using wait_until_ends [OF that] unfolding get_result_def by fastforce
  then show ?thesis
    by (simp add: future_sets_done set_result_def set_error_def mk_future_def)
qed

theorem future_takes_first_witness:
  "get_result 10 [(3, mk_future 10), (12, mk_future 10)] = Some (throw_rpc TIMEOUT timeout_message)"
  using future_takes_first [of "create_result MNil" "[]" 10 success_status "[(3, mk_future 10), (12, mk_future 10)]"]
  by (auto simp: mk_future_def)

text \<open>
  The invariant: the futures of the calls in the list are distinct and unset, every other created
  future is set.
\<close>

definition calls_ok :: "call_list \<Rightarrow> bool" where
  "calls_ok cl \<longleftrightarrow>
     (\<forall>i f. calls cl i = Some f \<longrightarrow> f < next_future cl \<and> \<not> fut_set (futures cl f)) \<and>
     (\<forall>i j f. calls cl i = Some f \<longrightarrow> calls cl j = Some f \<longrightarrow> i = j) \<and>
     (\<forall>f < next_future cl. (\<forall>i. calls cl i \<noteq> Some f) \<longrightarrow> fut_set (futures cl f))"

lemma calls_ok_initial [simp]: "calls_ok (mk_call_list t g)"
  by (simp add: calls_ok_def mk_call_list_def)

text \<open>The operations of the list as commands; \<open>None\<close> is undefined behaviour.\<close>

datatype 'm call_cmd =
    Create int "u32 \<Rightarrow> (exn, 'm) outcome"
  | Received parsed_message
  | Expired u32

fun call_exec :: "'m call_cmd \<Rightarrow> call_list \<Rightarrow> call_list option" where
  "call_exec (Create now ser) cl =
     (case create_call now ser cl of (Undefined, _) \<Rightarrow> None | (_, cl') \<Rightarrow> Some cl')"
| "call_exec (Received m) cl = (case process_received m cl of (Undefined, _) \<Rightarrow> None | (_, cl') \<Rightarrow> Some cl')"
| "call_exec (Expired i) cl = (case on_timeout i cl of (Undefined, _) \<Rightarrow> None | (_, cl') \<Rightarrow> Some cl')"

fun call_run :: "'m call_cmd list \<Rightarrow> call_list \<Rightarrow> call_list option" where
  "call_run [] cl = Some cl"
| "call_run (c # cs) cl = (case call_exec c cl of None \<Rightarrow> None | Some cl' \<Rightarrow> call_run cs cl')"

text \<open>The effect of a command on the call with a given id.\<close>

fun answer_for :: "u32 \<Rightarrow> 'm call_cmd \<Rightarrow> (call_result + status) option" where
  "answer_for i (Received (PResponse r)) = (if resp_id r = i then Some (Inl (resp_result r)) else None)"
| "answer_for i (Expired j) = (if j = i then Some (Inr (mk_status TIMEOUT timeout_message)) else None)"
| "answer_for i _ = None"

fun first_answer :: "u32 \<Rightarrow> 'm call_cmd list \<Rightarrow> (call_result + status) option" where
  "first_answer i [] = None"
| "first_answer i (c # cs) = (case answer_for i c of Some a \<Rightarrow> Some a | None \<Rightarrow> first_answer i cs)"

text \<open>\<open>create\<close> is the registration under the lock when nothing happens in between.\<close>

lemma create_call_eq: "create_call now ser cl = create_entry now ser cl"
  by (auto simp: create_call_def create_entry_def use_entry_def act_defs generate_id_def Let_def
      split: outcome.splits if_splits)

lemma create_call_cases:
  obtains (ok) msg deadline where
      "create_call now ser cl = (Ok (next_id cl, msg, next_future cl),
         cl\<lparr>next_id := next_id cl + 1, calls := (calls cl)(next_id cl \<mapsto> next_future cl),
            futures := (futures cl)(next_future cl := mk_future deadline), next_future := Suc (next_future cl)\<rparr>)"
      "calls cl (next_id cl) = None" "deadline = now + call_timeout cl" "ser (next_id cl) = Ok msg"
    | (throw) e g where "create_call now ser cl = (Throw e, cl\<lparr>next_id := g\<rparr>)"
    | (undef) cl' where "create_call now ser cl = (Undefined, cl')"
proof (cases "add_time now (call_timeout cl)")
  case (Ok deadline)
  then have d: "deadline = now + call_timeout cl" by (simp add: add_time_def split: if_splits)
  show ?thesis
  proof (cases "ser (next_id cl)")
    case Ok2: (Ok msg)
    consider "\<not> executor_alive cl" | "executor_alive cl" "calls cl (next_id cl) \<noteq> None"
      | "executor_alive cl" "calls cl (next_id cl) = None" by blast
    then show ?thesis
    proof cases
      case 1
      then show ?thesis
        by (intro undef) (simp add: create_call_eq create_entry_def Ok Ok2 generate_id_def)
    next
      case 2
      then show ?thesis
        by (intro throw) (simp add: create_call_eq create_entry_def Ok Ok2 generate_id_def)
    next
      case 3
      then show ?thesis
        by (intro ok [OF _ _ d Ok2]) (simp_all add: create_call_eq create_entry_def Ok Ok2 generate_id_def)
    qed
  next
    case (Throw e)
    then show ?thesis
      by (intro throw) (simp add: create_call_eq create_entry_def Ok generate_id_def)
  next
    case Undefined
    then show ?thesis
      by (intro undef) (simp add: create_call_eq create_entry_def Ok generate_id_def)
  qed
next
  case (Throw e)
  then show ?thesis by (simp add: add_time_def split: if_splits)
next
  case Undefined
  then show ?thesis by (intro undef) (simp add: create_call_eq create_entry_def)
qed

lemma create_call_refused:
  "create_call now ser cl = (Throw e, cl') \<Longrightarrow> cl' = cl\<lparr>next_id := next_id cl + 1\<rparr>"
  by (auto simp: create_call_eq create_entry_def add_time_def generate_id_def Let_def split: if_splits outcome.splits)

lemma on_timeout_eq:
  assumes "calls_ok cl"
  shows "on_timeout i cl =
    (case calls cl i of
       None \<Rightarrow> (Ok (), cl)
     | Some f \<Rightarrow> (Ok (), cl\<lparr>futures := (futures cl)(f := (futures cl f)\<lparr>fut_status := mk_status TIMEOUT timeout_message, fut_set := True\<rparr>),
          calls := (calls cl)(i := None)\<rparr>))"
  using assms by (auto simp: on_timeout_def set_error_def calls_ok_def split: option.splits)

text \<open>The effect of an answer on the list, whichever it is.\<close>

definition answered :: "call_result + status \<Rightarrow> call_future \<Rightarrow> call_future" where
  "answered a f = (case a of
     Inl r \<Rightarrow> f\<lparr>fut_result := Some r, fut_set := True\<rparr> | Inr e \<Rightarrow> f\<lparr>fut_status := e, fut_set := True\<rparr>)"

definition answer_call :: "u32 \<Rightarrow> call_result + status \<Rightarrow> call_list \<Rightarrow> call_list" where
  "answer_call i a cl =
     (case calls cl i of
        None \<Rightarrow> cl
      | Some f \<Rightarrow> cl\<lparr>futures := (futures cl)(f := answered a (futures cl f)), calls := (calls cl)(i := None)\<rparr>)"

lemma fut_set_answered [simp]: "fut_set (answered a f)"
  by (simp add: answered_def split: sum.splits)

lemma handle_response_eq:
  "calls_ok cl \<Longrightarrow> handle_response r cl = (Ok (), answer_call (resp_id r) (Inl (resp_result r)) cl)"
  by (auto simp: handle_response_def answer_call_def answered_def set_result_def calls_ok_def split: option.splits)

lemma on_timeout_answer:
  "calls_ok cl \<Longrightarrow> on_timeout i cl = (Ok (), answer_call i (Inr (mk_status TIMEOUT timeout_message)) cl)"
  by (auto simp: on_timeout_eq answer_call_def answered_def split: option.splits)

lemma calls_okD:
  assumes "calls_ok cl"
  shows "calls cl i = Some f \<Longrightarrow> f < next_future cl" "calls cl i = Some f \<Longrightarrow> \<not> fut_set (futures cl f)"
    "calls cl i = Some f \<Longrightarrow> calls cl j = Some f \<Longrightarrow> i = j"
    "f < next_future cl \<Longrightarrow> (\<And>i. calls cl i \<noteq> Some f) \<Longrightarrow> fut_set (futures cl f)"
  using assms unfolding calls_ok_def by blast+

lemma calls_ok_answer:
  assumes ok: "calls_ok cl"
  shows "calls_ok (answer_call i a cl)"
proof (cases "calls cl i")
  case None
  then show ?thesis using ok by (simp add: answer_call_def)
next
  case (Some f)
  have ne: "calls cl j = Some g \<Longrightarrow> j \<noteq> i \<Longrightarrow> g \<noteq> f" for j g using calls_okD(3) [OF ok Some, of j] by blast
  have "fut_set (((futures cl)(f := answered a (futures cl f))) g)"
    if g: "g < next_future cl" and none: "\<And>j. ((calls cl)(i := None)) j \<noteq> Some g" for g
  proof (cases "g = f")
    case False
    then have "calls cl j \<noteq> Some g" for j using none [of j] Some by (cases "j = i") simp_all
    then show ?thesis using calls_okD(4) [OF ok g] False by simp
  qed simp
  then show ?thesis
    using calls_okD(1-3) [OF ok] ne Some by (simp add: calls_ok_def answer_call_def)
qed

lemma calls_ok_new:
  assumes ok: "calls_ok cl" and i: "calls cl i = None"
  shows "calls_ok (cl\<lparr>next_id := g, calls := (calls cl)(i \<mapsto> next_future cl),
       futures := (futures cl)(next_future cl := mk_future d), next_future := Suc (next_future cl)\<rparr>)"
proof -
  have lt: "calls cl j = Some f \<Longrightarrow> f < next_future cl" for j f using calls_okD(1) [OF ok] .
  have "fut_set (((futures cl)(next_future cl := mk_future d)) f)"
    if "f < Suc (next_future cl)" and none: "\<And>j. ((calls cl)(i \<mapsto> next_future cl)) j \<noteq> Some f" for f
  proof -
    have f: "f \<noteq> next_future cl" using none [of i] by simp
    moreover have "calls cl j \<noteq> Some f" for j using none [of j] i by (cases "j = i") simp_all
    ultimately show ?thesis using calls_okD(4) [OF ok, of f] that(1) by simp
  qed
  moreover have "calls cl j \<noteq> Some (next_future cl)" for j using lt [of j "next_future cl"] by blast
  moreover have "calls cl j = Some f \<Longrightarrow> f < Suc (next_future cl)" "calls cl j = Some f \<Longrightarrow> next_future cl \<noteq> f" for j f
    using lt [of j f] by auto
  ultimately show ?thesis
    using calls_okD(2,3) [OF ok] by (simp add: calls_ok_def mk_future_def)
qed

lemma calls_ok_id: "calls_ok (cl\<lparr>next_id := g\<rparr>) \<longleftrightarrow> calls_ok cl"
  by (simp add: calls_ok_def)

text \<open>A command does nothing, answers the call of an id, or registers a new call.\<close>

lemma call_exec_cases:
  assumes "calls_ok cl" and "call_exec c cl = Some cl'"
  obtains (same) g where "cl' = cl\<lparr>next_id := g\<rparr>" "\<And>i. calls cl i \<noteq> None \<Longrightarrow> answer_for i c = None"
    | (answer) i a where "cl' = answer_call i a cl" "\<And>j. answer_for j c = (if j = i then Some a else None)"
    | (new) i d where "calls cl i = None" "\<And>j. answer_for j c = None"
        "cl' = cl\<lparr>next_id := next_id cl + 1, calls := (calls cl)(i \<mapsto> next_future cl),
            futures := (futures cl)(next_future cl := mk_future d), next_future := Suc (next_future cl)\<rparr>"
proof (cases c)
  case (Create now ser)
  show ?thesis
  proof (cases rule: create_call_cases [of now ser cl])
    case (ok msg deadline)
    then show ?thesis using assms(2) by (intro new [of "next_id cl" deadline]) (simp_all add: Create)
  next
    case (throw e g)
    then show ?thesis using assms(2) by (intro same [of g]) (simp_all add: Create)
  next
    case (undef cl2)
    then show ?thesis using assms(2) by (simp add: Create)
  qed
next
  case (Received m)
  show ?thesis
  proof (cases m)
    case (PResponse r)
    then show ?thesis using assms
      by (intro answer [of "resp_id r" "Inl (resp_result r)"])
        (simp_all add: Received process_received_def handle_response_eq)
  qed (use assms in \<open>auto intro!: same [of "next_id cl"] simp: Received process_received_def\<close>)
next
  case (Expired i)
  then show ?thesis using assms
    by (intro answer [of i "Inr (mk_status TIMEOUT timeout_message)"]) (simp_all add: on_timeout_answer)
qed

lemma call_exec_ok:
  assumes "calls_ok cl" "call_exec c cl = Some cl'"
  shows "calls_ok cl'"
  using assms
  by (cases rule: call_exec_cases) (simp_all add: assms(1) calls_ok_id calls_ok_answer calls_ok_new)

lemma call_run_ok: "calls_ok cl \<Longrightarrow> call_run cs cl = Some cl' \<Longrightarrow> calls_ok cl'"
  by (induction cs arbitrary: cl) (auto split: option.splits intro: call_exec_ok)

text \<open>A future that is not in the list any more never changes.\<close>

definition retired :: "nat \<Rightarrow> call_list \<Rightarrow> bool" where
  "retired f cl \<longleftrightarrow> f < next_future cl \<and> (\<forall>i. calls cl i \<noteq> Some f)"

lemma call_exec_retired:
  assumes "calls_ok cl" "call_exec c cl = Some cl'" "retired f cl"
  shows "retired f cl' \<and> futures cl' f = futures cl f"
  using assms(1,2)
proof (cases rule: call_exec_cases)
  case (same g)
  then show ?thesis using assms(3) by (simp add: retired_def)
next
  case (answer i a)
  then show ?thesis using assms(3) by (auto simp: retired_def answer_call_def split: option.splits)
next
  case (new i d)
  then show ?thesis using assms(3) by (simp add: retired_def)
qed

lemma call_run_retired:
  "calls_ok cl \<Longrightarrow> call_run cs cl = Some cl' \<Longrightarrow> retired f cl \<Longrightarrow> futures cl' f = futures cl f"
proof (induction cs arbitrary: cl)
  case (Cons c cs)
  then obtain cl1 where cl1: "call_exec c cl = Some cl1" "call_run cs cl1 = Some cl'"
    by (auto split: option.splits)
  have "retired f cl1 \<and> futures cl1 f = futures cl f" using Cons.prems cl1 call_exec_retired by blast
  then show ?case using Cons.IH [OF call_exec_ok [OF Cons.prems(1) cl1(1)] cl1(2)] by simp
qed simp

lemma pending_call_answer:
  assumes "calls_ok cl" "calls cl i = Some f" "call_run cs cl = Some cl'"
  shows "futures cl' f =
    (case first_answer i cs of None \<Rightarrow> futures cl f | Some a \<Rightarrow> answered a (futures cl f))"
  using assms
proof (induction cs arbitrary: cl)
  case (Cons c cs)
  then obtain cl1 where cl1: "call_exec c cl = Some cl1" "call_run cs cl1 = Some cl'"
    by (auto split: option.splits)
  note ok1 = call_exec_ok [OF Cons.prems(1) cl1(1)]
  from Cons.prems(1) cl1(1) show ?case
  proof (cases rule: call_exec_cases)
    case (same g)
    have "calls cl1 i = Some f" "futures cl1 f = futures cl f" "answer_for i c = None"
      using same(1) same(2) [of i] Cons.prems(2) by simp_all
    then show ?thesis using Cons.IH [OF ok1 _ cl1(2)] by (simp cong: option.case_cong)
  next
    case (answer j a)
    show ?thesis
    proof (cases "j = i")
      case True
      have "retired f cl1" "futures cl1 f = answered a (futures cl f)"
        using answer(1) True Cons.prems(1,2) by (auto simp: retired_def answer_call_def calls_ok_def)
      then show ?thesis using call_run_retired [OF ok1 cl1(2)] answer(2) True by simp
    next
      case False
      then have "calls cl1 i = Some f \<and> futures cl1 f = futures cl f"
        using answer(1) Cons.prems(1,2) by (auto simp: answer_call_def calls_ok_def split: option.splits)
      then show ?thesis using Cons.IH [OF ok1 _ cl1(2)] answer(2) False by (simp cong: option.case_cong)
    qed
  next
    case (new j d)
    have "j \<noteq> i" "f \<noteq> next_future cl" using new(1) Cons.prems(1,2) by (auto simp: calls_ok_def)
    then have "calls cl1 i = Some f \<and> futures cl1 f = futures cl f" using Cons.prems(2) new(3) by simp
    then show ?thesis using Cons.IH [OF ok1 _ cl1(2)] new(2) by (simp cong: option.case_cong)
  qed
qed simp

lemma first_answer_append:
  "first_answer i (cs @ ds) = (case first_answer i cs of Some a \<Rightarrow> Some a | None \<Rightarrow> first_answer i ds)"
  by (induction cs) (simp_all split: option.splits)

text \<open>A response that is the first answer to a pending call is what its future returns.\<close>

lemma pending_call_result:
  assumes "calls_ok cl" "calls cl i = Some f" "fut_result (futures cl f) = None"
    and "first_answer i cs = None"
    and "call_run (cs @ [Received (PResponse \<lparr>resp_id = i, resp_result = r\<rparr>)]) cl = Some cl'"
  shows "get_result_impl (futures cl' f) = Ok r \<and> fut_set (futures cl' f)"
  using pending_call_answer [OF assms(1,2,5)] assms(4)
  by (simp add: first_answer_append answered_def get_result_impl_def)

text \<open>
  C7. Each call gets the first answer to its id and nothing else. In any sequence of calls,
  received messages and timeouts on a new list, the future of a call holds exactly the first of the
  responses with its id and the timeouts of its id that came after it was made, later answers (and
  answers to other ids, requests and notifications) leave it alone, and while there is none the
  call stays pending.
\<close>

theorem call_gets_first_answer:
  assumes "call_run before (mk_call_list t g) = Some cl"
    and "create_call now ser cl = (Ok (i, msg, f), cl1)"
    and "call_run after cl1 = Some cl'"
  shows "let f0 = mk_future (now + call_timeout cl) in futures cl' f =
    (case first_answer i after of
       None \<Rightarrow> f0
     | Some (Inl r) \<Rightarrow> f0\<lparr>fut_result := Some r, fut_set := True\<rparr>
     | Some (Inr e) \<Rightarrow> f0\<lparr>fut_status := e, fut_set := True\<rparr>)"
proof -
  have ok: "calls_ok cl" using assms(1) call_run_ok [OF calls_ok_initial] by blast
  show ?thesis
  proof (cases rule: create_call_cases [of now ser cl])
    case c: (ok msg2 deadline)
    then have cl1: "calls cl1 i = Some f" "futures cl1 f = mk_future (now + call_timeout cl)" "calls_ok cl1"
      using assms(2) calls_ok_new [OF ok c(2)] by auto
    show ?thesis
      unfolding Let_def pending_call_answer [OF cl1(3,1) assms(3)] cl1(2)
      by (simp add: answered_def split: option.splits sum.splits)
  qed (use assms(2) in simp_all)
qed

text \<open>A request on a new list, answered by a response after a response to another id.\<close>

theorem call_gets_first_answer_witness:
  "\<exists>cl'. call_run ([Received (PResponse \<lparr>resp_id = 4, resp_result = create_result MNil\<rparr>),
        Received (PResponse \<lparr>resp_id = 3, resp_result = create_result (MBool True)\<rparr>), Expired 3] :: u32 call_cmd list)
      (snd (create_call 0 (Ok :: u32 \<Rightarrow> (exn, u32) outcome) (mk_call_list 10 3))) = Some cl' \<and>
     fut_result (futures cl' 0) = Some (create_result (MBool True))"
proof -
  let ?cl = "mk_call_list 10 3"
  let ?cs = "[Received (PResponse \<lparr>resp_id = 4, resp_result = create_result MNil\<rparr>),
        Received (PResponse \<lparr>resp_id = 3, resp_result = create_result (MBool True)\<rparr>), Expired 3] :: u32 call_cmd list"
  obtain cl1 where c: "create_call 0 (Ok :: u32 \<Rightarrow> (exn, u32) outcome) ?cl = (Ok (3, 3, 0), cl1)"
      and cl1: "calls cl1 = [3 \<mapsto> 0]"
    by (simp add: create_call_eq create_entry_def mk_call_list_def generate_id_def add_time_def clock_ok_def)
  obtain cl' where r: "call_run ?cs cl1 = Some cl'"
    by (simp add: process_received_def handle_response_def cl1 on_timeout_def)
  have "call_run [] ?cl = Some ?cl" by simp
  from call_gets_first_answer [OF this c r]
  have "fut_result (futures cl' 0) = Some (create_result (MBool True))" by (simp add: mk_future_def)
  moreover have "call_run ?cs (snd (create_call 0 (Ok :: u32 \<Rightarrow> (exn, u32) outcome) ?cl)) = Some cl'"
    unfolding c snd_conv by (rule r)
  ultimately show ?thesis by blast
qed

text \<open>
  The reference \<open>create\<close> keeps to the entry it has registered: it is valid when the caller uses
  it next, so \<open>create\<close> as a whole never uses a dangling reference; but \<open>create\<close> uses it after it has
  released the lock and armed the timer, and when the timeout (or an answer) is handled by the
  executor's thread in between, the entry is gone and \<open>call.future()\<close> reads freed memory.
\<close>

theorem create_reference_validity:
  assumes "calls_ok cl" and "create_entry now ser cl = (Ok (i, msg, f), cl1)"
  shows "use_entry i f cl1 = (Ok f, cl1) \<and> create_call now ser cl = (Ok (i, msg, f), cl1) \<and>
    fst (use_entry i f (snd (on_timeout i cl1))) = Undefined \<and>
    (resp_id r = i \<longrightarrow> fst (use_entry i f (snd (handle_response r cl1))) = Undefined)"
proof -
  have c: "create_call now ser cl = (Ok (i, msg, f), cl1)" using assms(2) by (simp add: create_call_eq)
  have e: "calls cl1 i = Some f \<and> calls_ok cl1"
  proof (cases rule: create_call_cases [of now ser cl])
    case c2: (ok msg2 deadline)
    have "cl1 = cl\<lparr>next_id := next_id cl + 1, calls := (calls cl)(next_id cl \<mapsto> next_future cl),
            futures := (futures cl)(next_future cl := mk_future deadline), next_future := Suc (next_future cl)\<rparr>"
      "i = next_id cl" "f = next_future cl"
      using c2(1) c by simp_all
    then show ?thesis using calls_ok_new [OF assms(1) c2(2)] by simp_all
  qed (use c in simp_all)
  show ?thesis
    using e c by (simp add: use_entry_def on_timeout_answer handle_response_eq answer_call_def)
qed

theorem create_reference_validity_witness:
  "\<exists>cl1. create_entry 0 (Ok :: u32 \<Rightarrow> (exn, u32) outcome) (mk_call_list 0 7) = (Ok (7, 7, 0), cl1) \<and>
     fst (use_entry 7 0 (snd (on_timeout 7 cl1))) = Undefined"
proof -
  obtain cl1 where c: "create_entry 0 (Ok :: u32 \<Rightarrow> (exn, u32) outcome) (mk_call_list 0 7) = (Ok (7, 7, 0), cl1)"
    by (simp add: create_entry_def mk_call_list_def generate_id_def add_time_def clock_ok_def)
  from create_reference_validity [OF calls_ok_initial c] c show ?thesis by blast
qed

text \<open>What the user of a future sees of a result.\<close>

lemma get_from_success:
  "get_from_call_result sd as_T (create_result obj) =
     (case as_T obj of Some x \<Rightarrow> Ok x | None \<Rightarrow> throw_rpc TYPE_ERROR ''Invalid type of the result.'')"
  by (simp add: get_from_call_result_def is_success_def result_as_def create_result_def split: option.splits)

lemma get_from_error:
  assumes "well_typed obj"
  obtains ex where "code_of (exc_status ex) = SERVER_ERROR"
    "message_of (exc_status ex) = ''An error in a server: '' @ render sd obj"
    "get_from_call_result sd as_T (create_error obj) = Throw (ServerException ex obj)"
    "get_from_call_result_void sd (create_error obj) = Throw (ServerException ex obj)"
proof (rule that)
  let ?ex = "mk_rpc_exception SERVER_ERROR (''An error in a server: '' @ render sd obj)"
  show "code_of (exc_status ?ex) = SERVER_ERROR" "message_of (exc_status ?ex) = ''An error in a server: '' @ render sd obj"
    by simp_all
  show "get_from_call_result sd as_T (create_error obj) = Throw (ServerException ?ex obj)"
    "get_from_call_result_void sd (create_error obj) = Throw (ServerException ?ex obj)"
    using assms
    by (simp_all add: get_from_call_result_def get_from_call_result_void_def is_success_def create_error_def
        mk_server_exception_def format_to_string_render)
qed

text \<open>
  \<open>CallFuture::get_result\<close> returns the converted result of a successful call, reports a result
  of another type as \<open>TYPE_ERROR\<close>, and turns every error of the server into a \<open>ServerException\<close> with
  the error object and the code \<open>SERVER_ERROR\<close>, for a result type and for \<open>void\<close> alike.
\<close>

theorem call_result_is_delivered:
  "get_from_call_result sd as_T (create_result obj) =
     (case as_T obj of Some x \<Rightarrow> Ok x | None \<Rightarrow> throw_rpc TYPE_ERROR ''Invalid type of the result.'') \<and>
   get_from_call_result_void sd (create_result obj) = Ok () \<and>
   (well_typed obj \<longrightarrow>
     (\<exists>ex. code_of (exc_status ex) = SERVER_ERROR \<and>
       message_of (exc_status ex) = ''An error in a server: '' @ render sd obj \<and>
       get_from_call_result sd as_T (create_error obj) = Throw (ServerException ex obj) \<and>
       get_from_call_result_void sd (create_error obj) = Throw (ServerException ex obj)))"
proof (intro conjI impI)
  show "get_from_call_result_void sd (create_result obj) = Ok ()"
    by (simp add: get_from_call_result_void_def is_success_def create_result_def)
next
  assume "well_typed obj"
  then obtain ex where "code_of (exc_status ex) = SERVER_ERROR"
    "message_of (exc_status ex) = ''An error in a server: '' @ render sd obj"
    "get_from_call_result sd as_T (create_error obj) = Throw (ServerException ex obj)"
    "get_from_call_result_void sd (create_error obj) = Throw (ServerException ex obj)"
    by (rule get_from_error)
  then show "\<exists>ex. code_of (exc_status ex) = SERVER_ERROR \<and>
       message_of (exc_status ex) = ''An error in a server: '' @ render sd obj \<and>
       get_from_call_result sd as_T (create_error obj) = Throw (ServerException ex obj) \<and>
       get_from_call_result_void sd (create_error obj) = Throw (ServerException ex obj)" by blast
qed (rule get_from_success)

theorem call_result_is_delivered_witness:
  "\<exists>ex. get_from_call_result_void (\<lambda>_. ''0'') (create_error (MBool True)) = Throw (ServerException ex (MBool True))"
  using call_result_is_delivered [of "\<lambda>_. ''0''" Some "MBool True"] by auto

end
