(* ===== verification/Message_Sender.thy ===== *)
theory Message_Sender
  imports Exceptions
begin

text \<open>
  The sender of a client (\<open>src/msgpack_rpc/clients/impl\<close>: \<open>sent_message_queue.h\<close>,
  \<open>message_sender.h\<close>): a queue of serialized messages of which one is being sent at a time.

  \<open>connection\<close> is what \<open>connector->connection()\<close> returns, a name of the current connection or
  nothing. \<open>outbox\<close> records the calls of \<open>async_send\<close> on connections, in order.
\<close>

section \<open>The queue\<close>

type_synonym 'm sent_message_queue = "('m \<times> u32 option) list"

definition queue_next :: "'m sent_message_queue \<Rightarrow> ('m \<times> u32 option) option" where
  "queue_next q = (if q = [] then None else Some (hd q))"

text \<open>\<open>std::queue::pop\<close> on an empty queue is undefined.\<close>

definition queue_pop :: "'m sent_message_queue \<Rightarrow> 'm sent_message_queue option" where
  "queue_pop q = (if q = [] then None else Some (tl q))"

definition queue_push :: "'m \<Rightarrow> u32 option \<Rightarrow> 'm sent_message_queue \<Rightarrow> 'm sent_message_queue" where
  "queue_push message i q = q @ [(message, i)]"

interpretation sent_queue: fifo_queue "[]" "\<lambda>(m, i). queue_push m i" queue_next queue_pop "\<lambda>q. q"
  by unfold_locales (auto simp: queue_push_def queue_next_def queue_pop_def split: list.splits)

section \<open>The sender\<close>

record 'm message_sender =
  sent_messages :: "'m sent_message_queue"
  is_sending :: bool
  connection :: "nat option"
  outbox :: "(nat \<times> 'm) list"

definition mk_sender :: "'m message_sender" where
  "mk_sender = \<lparr>sent_messages = [], is_sending = False, connection = None, outbox = []\<rparr>"

definition async_send_on :: "nat \<Rightarrow> 'm \<Rightarrow> 'm message_sender \<Rightarrow> 'm message_sender" where
  "async_send_on c message s = s\<lparr>outbox := outbox s @ [(c, message)]\<rparr>"

definition send_next :: "'m message_sender \<Rightarrow> 'm message_sender" where
  "send_next s =
     (if is_sending s then s
      else case connection s of
        None \<Rightarrow> s
      | Some c \<Rightarrow>
          (case queue_next (sent_messages s) of
             None \<Rightarrow> s
           | Some (message, request_id) \<Rightarrow>
               if is_sending s then s
               else async_send_on c message (s\<lparr>is_sending := True\<rparr>)))"

definition send_message :: "'m \<Rightarrow> u32 option \<Rightarrow> 'm message_sender \<Rightarrow> 'm message_sender" where
  "send_message message i s = send_next (s\<lparr>sent_messages := queue_push message i (sent_messages s)\<rparr>)"

definition handle_sent_message :: "'m message_sender \<Rightarrow> (exn, 'm message_sender) outcome" where
  "handle_sent_message s =
     (case queue_pop (sent_messages s) of
        None \<Rightarrow> Undefined
      | Some q \<Rightarrow> Ok (s\<lparr>sent_messages := q, is_sending := False\<rparr>))"

definition handle_disconnection :: "'m message_sender \<Rightarrow> 'm message_sender" where
  "handle_disconnection s = s\<lparr>is_sending := False\<rparr>"

section \<open>Events of a client\<close>

text \<open>
  What calls the sender: a user's message, a new connection (\<open>on_connection_\<close>), the completion of a
  write (\<open>on_sent_\<close>, which is the callback of the connection it names), the end of the connection.
\<close>

datatype 'm sender_event =
    UserSend 'm "u32 option"
  | Connected nat
  | WriteDone nat
  | Disconnected

fun sender_exec :: "'m sender_event \<Rightarrow> 'm message_sender \<Rightarrow> (exn, 'm message_sender) outcome" where
  "sender_exec (UserSend m i) s = Ok (send_message m i s)"
| "sender_exec (Connected c) s = Ok (send_next (s\<lparr>connection := Some c\<rparr>))"
| "sender_exec (WriteDone c) s = bind_out (handle_sent_message s) (\<lambda>s. Ok (send_next s))"
| "sender_exec Disconnected s = Ok (handle_disconnection (s\<lparr>connection := None\<rparr>))"

text \<open>
  The events that are in order: connections are new ones, a write completes on the connection in
  use while a message is being sent, a connection ends when there is one.
\<close>

fun in_order :: "'m sender_event \<Rightarrow> 'm message_sender \<Rightarrow> bool" where
  "in_order (UserSend m i) s = True"
| "in_order (Connected c) s = (connection s = None \<and> c \<notin> fst ` set (outbox s))"
| "in_order (WriteDone c) s = (connection s = Some c \<and> is_sending s)"
| "in_order Disconnected s = (connection s \<noteq> None)"

text \<open>The history: the messages accepted from the user and those whose write completed.\<close>

record 'm sender_history =
  sender :: "'m message_sender"
  accepted :: "'m list"
  completed :: "'m list"

fun accepted_by :: "'m sender_event \<Rightarrow> 'm list" where
  "accepted_by (UserSend m i) = [m]"
| "accepted_by _ = []"

fun completed_by :: "'m sender_event \<Rightarrow> 'm message_sender \<Rightarrow> 'm list" where
  "completed_by (WriteDone c) s = map fst (take 1 (sent_messages s))"
| "completed_by _ s = []"

definition sender_init :: "'m sender_history \<Rightarrow> bool" where
  "sender_init h \<longleftrightarrow> h = \<lparr>sender = mk_sender, accepted = [], completed = []\<rparr>"

inductive sender_step :: "'m sender_history \<Rightarrow> 'm sender_history \<Rightarrow> bool" where
  "in_order ev (sender h) \<Longrightarrow> sender_exec ev (sender h) = Ok s' \<Longrightarrow>
     sender_step h \<lparr>sender = s', accepted = accepted h @ accepted_by ev,
       completed = completed h @ completed_by ev (sender h)\<rparr>"

section \<open>Invariant\<close>

definition sent_on :: "nat \<Rightarrow> 'm message_sender \<Rightarrow> 'm list" where
  "sent_on c s = map snd (filter (\<lambda>x. fst x = c) (outbox s))"

definition in_flight :: "'m message_sender \<Rightarrow> nat" where
  "in_flight s = (if is_sending s then 1 else 0)"

definition sender_inv :: "'m sender_history \<Rightarrow> bool" where
  "sender_inv h \<longleftrightarrow>
     (let s = sender h; n = length (completed h) + in_flight s in
       accepted h = completed h @ map fst (sent_messages s) \<and>
       (is_sending s \<longrightarrow> sent_messages s \<noteq> [] \<and> connection s \<noteq> None) \<and>
       (\<not> is_sending s \<longrightarrow> connection s \<noteq> None \<longrightarrow> sent_messages s = []) \<and>
       (\<forall>c. \<exists>a b. a \<le> b \<and> b \<le> Suc (length (completed h)) \<and> b \<le> length (accepted h) \<and>
          sent_on c s = drop a (take b (accepted h)) \<and> (connection s = Some c \<longrightarrow> b = n)))"

definition segment_ok :: "'m list \<Rightarrow> nat \<Rightarrow> nat \<Rightarrow> nat option \<Rightarrow> 'm message_sender \<Rightarrow> nat \<Rightarrow> bool" where
  "segment_ok acc k n conn s c \<longleftrightarrow>
     (\<exists>a b. a \<le> b \<and> b \<le> Suc k \<and> b \<le> length acc \<and>
        sent_on c s = drop a (take b acc) \<and> (conn = Some c \<longrightarrow> b = n))"

definition pre_inv :: "'m list \<Rightarrow> 'm list \<Rightarrow> 'm message_sender \<Rightarrow> bool" where
  "pre_inv acc done_msgs s \<longleftrightarrow>
     acc = done_msgs @ map fst (sent_messages s) \<and>
     (is_sending s \<longrightarrow> sent_messages s \<noteq> [] \<and> connection s \<noteq> None) \<and>
     (\<forall>c. segment_ok acc (length done_msgs) (length done_msgs + in_flight s) (connection s) s c)"

lemma sender_inv_pre:
  "sender_inv h \<longleftrightarrow> pre_inv (accepted h) (completed h) (sender h) \<and>
     (\<not> is_sending (sender h) \<longrightarrow> connection (sender h) \<noteq> None \<longrightarrow> sent_messages (sender h) = [])"
  by (auto simp: sender_inv_def pre_inv_def segment_ok_def Let_def)

lemma sent_on_simps [simp]:
  "sent_on c (s\<lparr>sent_messages := q\<rparr>) = sent_on c s"
  "sent_on c (s\<lparr>is_sending := b\<rparr>) = sent_on c s"
  "sent_on c (s\<lparr>connection := d\<rparr>) = sent_on c s"
  by (simp_all add: sent_on_def)

lemma segment_grow:
  assumes "segment_ok (done_msgs @ m # r) (length done_msgs) (length done_msgs) (Some c) s d"
    and "\<And>d. sent_on d s' = sent_on d s @ (if c = d then [m] else [])"
  shows "segment_ok (done_msgs @ m # r) (length done_msgs) (Suc (length done_msgs)) (Some c) s' d"
proof -
  from assms(1) obtain a b where ab: "a \<le> b" "b \<le> Suc (length done_msgs)" "b \<le> length (done_msgs @ m # r)"
      "sent_on d s = drop a (take b (done_msgs @ m # r))" "c = d \<Longrightarrow> b = length done_msgs"
    unfolding segment_ok_def by auto
  show ?thesis
  proof (cases "c = d")
    case True
    then have "sent_on d s' = drop a (take (Suc (length done_msgs)) (done_msgs @ m # r))"
      using ab assms(2) by simp
    then show ?thesis using ab True unfolding segment_ok_def
      by (intro exI [of _ a] exI [of _ "Suc (length done_msgs)"]) simp
  next
    case False
    then show ?thesis using ab assms(2) [of d] unfolding segment_ok_def
      by (intro exI [of _ a] exI [of _ b]) simp
  qed
qed

lemma send_next_inv:
  assumes pre: "pre_inv acc done_msgs s"
  shows "pre_inv acc done_msgs (send_next s) \<and>
    (\<not> is_sending (send_next s) \<longrightarrow> connection (send_next s) \<noteq> None \<longrightarrow> sent_messages (send_next s) = [])"
proof -
  consider (same) "send_next s = s" "\<not> is_sending s \<longrightarrow> connection s \<noteq> None \<longrightarrow> sent_messages s = []"
    | (sent) c m i q where "\<not> is_sending s" "connection s = Some c" "sent_messages s = (m, i) # q"
        "send_next s = async_send_on c m (s\<lparr>is_sending := True\<rparr>)"
    by (cases "is_sending s"; cases "connection s"; cases "sent_messages s")
      (auto simp: send_next_def queue_next_def)
  then show ?thesis
  proof cases
    case same
    then show ?thesis using pre by simp
  next
    case sent
    have acc: "acc = done_msgs @ m # map fst q"
      using pre sent(3) by (simp add: pre_inv_def)
    have "segment_ok acc (length done_msgs) (length done_msgs + in_flight s) (connection s) s d" for d
      using pre unfolding pre_inv_def by blast
    then have seg: "\<And>d. segment_ok acc (length done_msgs) (length done_msgs) (Some c) s d"
      using sent(1,2) by (simp add: in_flight_def)
    have on: "sent_on d (send_next s) = sent_on d s @ (if c = d then [m] else [])" for d
      by (simp add: sent(4) async_send_on_def sent_on_def)
    have "segment_ok acc (length done_msgs) (Suc (length done_msgs)) (Some c) (send_next s) d" for d
      unfolding acc by (rule segment_grow [OF seg [unfolded acc] on])
    then show ?thesis
      using sent acc by (simp add: pre_inv_def async_send_on_def in_flight_def)
  qed
qed

lemma segment_mono:
  assumes "segment_ok acc k n conn s c" and "k \<le> k'" and "sent_on c s' = sent_on c s"
    and "conn' = Some c \<Longrightarrow> conn = Some c \<and> n' = n"
  shows "segment_ok (acc @ later) k' n' conn' s' c"
proof -
  from assms(1) obtain a b where ab: "a \<le> b" "b \<le> Suc k" "b \<le> length acc"
      "sent_on c s = drop a (take b acc)" "conn = Some c \<Longrightarrow> b = n"
    unfolding segment_ok_def by blast
  then show ?thesis unfolding segment_ok_def using assms(2-4)
    by (intro exI [of _ a] exI [of _ b]) auto
qed

lemma sender_exec_inv:
  assumes inv: "sender_inv h" and ord: "in_order ev (sender h)"
  shows "\<exists>s'. sender_exec ev (sender h) = Ok s' \<and>
    sender_inv \<lparr>sender = s', accepted = accepted h @ accepted_by ev, completed = completed h @ completed_by ev (sender h)\<rparr>"
proof -
  let ?s = "sender h" and ?acc = "accepted h" and ?done_msgs = "completed h"
  have pre: "pre_inv ?acc ?done_msgs ?s" using inv by (simp add: sender_inv_pre)
  then have acc: "?acc = ?done_msgs @ map fst (sent_messages ?s)"
    and fl: "is_sending ?s \<Longrightarrow> sent_messages ?s \<noteq> [] \<and> connection ?s \<noteq> None"
    and seg: "\<And>c. segment_ok ?acc (length ?done_msgs) (length ?done_msgs + in_flight ?s) (connection ?s) ?s c"
    unfolding pre_inv_def by blast+
  show ?thesis
  proof (cases ev)
    case (UserSend m i)
    have "segment_ok (?acc @ [m]) (length ?done_msgs) (length ?done_msgs + in_flight ?s) (connection ?s)
        (?s\<lparr>sent_messages := queue_push m i (sent_messages ?s)\<rparr>) c" for c
      by (rule segment_mono [OF seg]) simp_all
    then have "pre_inv (?acc @ [m]) ?done_msgs (?s\<lparr>sent_messages := queue_push m i (sent_messages ?s)\<rparr>)"
      using acc fl by (simp add: pre_inv_def queue_push_def in_flight_def)
    from send_next_inv [OF this] show ?thesis
      by (simp add: UserSend sender_inv_pre send_message_def)
  next
    case (Connected c)
    then have c: "connection ?s = None" "c \<notin> fst ` set (outbox ?s)" using ord by simp_all
    then have ns: "\<not> is_sending ?s" using fl by blast
    have empty: "sent_on c ?s = []" using c(2) by (auto simp: sent_on_def filter_empty_conv)
    have new: "segment_ok ?acc (length ?done_msgs) (length ?done_msgs) (Some c) (?s\<lparr>connection := Some c\<rparr>) c"
      unfolding segment_ok_def
      by (intro exI [of _ "length ?done_msgs"]) (simp add: empty acc)
    have "segment_ok ?acc (length ?done_msgs) (length ?done_msgs) (Some c) (?s\<lparr>connection := Some c\<rparr>) d" for d
    proof (cases "d = c")
      case False
      have "segment_ok (?acc @ []) (length ?done_msgs) (length ?done_msgs) (Some c) (?s\<lparr>connection := Some c\<rparr>) d"
        by (rule segment_mono [OF seg]) (use False in simp_all)
      then show ?thesis by simp
    qed (simp add: new)
    then have "pre_inv ?acc ?done_msgs (?s\<lparr>connection := Some c\<rparr>)"
      using acc ns by (simp add: pre_inv_def in_flight_def)
    from send_next_inv [OF this] show ?thesis by (simp add: Connected sender_inv_pre)
  next
    case (WriteDone c)
    then have ns: "is_sending ?s" "connection ?s = Some c" using ord by simp_all
    with fl obtain x q where q: "sent_messages ?s = x # q" by (cases "sent_messages ?s") auto
    let ?s1 = "?s\<lparr>sent_messages := q, is_sending := False\<rparr>"
    have "segment_ok (?acc @ []) (Suc (length ?done_msgs)) (Suc (length ?done_msgs)) (connection ?s) ?s1 d" for d
      by (rule segment_mono [OF seg]) (use ns in \<open>simp_all add: in_flight_def\<close>)
    then have "pre_inv ?acc (?done_msgs @ [fst x]) ?s1"
      using acc q by (simp add: pre_inv_def in_flight_def)
    from send_next_inv [OF this] show ?thesis
      by (simp add: WriteDone sender_inv_pre handle_sent_message_def queue_pop_def q)
  next
    case Disconnected
    have "segment_ok (?acc @ []) (length ?done_msgs) (length ?done_msgs) None (?s\<lparr>connection := None, is_sending := False\<rparr>) d" for d
      by (rule segment_mono [OF seg]) simp_all
    then show ?thesis
      using acc by (auto simp: Disconnected sender_inv_pre pre_inv_def handle_disconnection_def in_flight_def)
  qed
qed

interpretation sender_sys: invariant_system sender_init sender_step sender_inv
proof
  fix h :: "'m sender_history"
  assume "sender_init h"
  then show "sender_inv h"
    by (simp add: sender_init_def sender_inv_def mk_sender_def sent_on_def Let_def in_flight_def)
next
  fix h h' :: "'m sender_history"
  assume "sender_inv h" "sender_step h h'"
  then show "sender_inv h'" using sender_exec_inv by (fastforce elim: sender_step.cases)
qed



section \<open>Interleaving\<close>

text \<open>
  \<open>send_next\<close> runs on the user's thread and on the executor's thread and takes no lock of its own:
  its atomic accesses one by one. A thread between two accesses is at a program point.
\<close>

datatype 'm send_point =
    AtStart
  | NotSending
  | GotConnection nat
  | GotMessage nat 'm
  | Returned

fun send_next_access :: "'m send_point \<Rightarrow> 'm message_sender \<Rightarrow> 'm send_point \<times> 'm message_sender" where
  "send_next_access AtStart s = (if is_sending s then Returned else NotSending, s)"
| "send_next_access NotSending s =
     (case connection s of None \<Rightarrow> Returned | Some c \<Rightarrow> GotConnection c, s)"
| "send_next_access (GotConnection c) s =
     (case queue_next (sent_messages s) of None \<Rightarrow> Returned | Some (m, i) \<Rightarrow> GotMessage c m, s)"
| "send_next_access (GotMessage c m) s =
     (Returned, if is_sending s then s else async_send_on c m (s\<lparr>is_sending := True\<rparr>))"
| "send_next_access Returned s = (Returned, s)"

fun send_next_accesses :: "nat \<Rightarrow> 'm send_point \<times> 'm message_sender \<Rightarrow> 'm send_point \<times> 'm message_sender" where
  "send_next_accesses 0 x = x"
| "send_next_accesses (Suc n) (p, s) = send_next_accesses n (send_next_access p s)"

lemma send_next_accesses_alone: "send_next_accesses 4 (AtStart, s) = (Returned, send_next s)"
  by (cases "is_sending s"; cases "connection s"; cases "queue_next (sent_messages s)")
    (auto simp: numeral_eq_Suc send_next_def)

text \<open>
  The accesses of \<open>send_next\<close> in a row are the whole function, but between threads they are not
  atomic: when the user's thread has read the front of the queue, and the executor's thread sends
  that message, completes it and removes it before the user's thread takes the flag, the user's
  thread sends the same message again, and the next completion removes a message from the queue
  that was never sent.
\<close>

theorem send_next_is_not_atomic:
  "send_next_accesses 4 (AtStart, s) = (Returned, send_next s) \<and>
   (let s0 = \<lparr>sent_messages = [(m1, i1), (m2, i2)], is_sending = False, connection = Some c, outbox = []\<rparr>;
        (user, s0) = send_next_accesses 3 (AtStart, s0)
    in \<exists>s2 s3. handle_sent_message (send_next s0) = Ok s2 \<and>
      handle_sent_message (snd (send_next_access user s2)) = Ok s3 \<and>
      sent_messages s3 = [] \<and> outbox s3 = [(c, m1), (c, m1)])"
  by (simp add: send_next_accesses_alone)
    (simp add: numeral_eq_Suc send_next_def queue_next_def async_send_on_def handle_sent_message_def
      queue_pop_def)

fun sender_run :: "'m sender_event list \<Rightarrow> 'm message_sender \<Rightarrow> (exn, 'm message_sender) outcome" where
  "sender_run [] s = Ok s"
| "sender_run (ev # evs) s = bind_out (sender_exec ev s) (sender_run evs)"

text \<open>
  The other order the sender does not expect: a connection whose end was reported while a write was
  pending still reports the write. After the message was sent again on a new connection, the two
  reports remove two messages for one, and with a single message the second removes from an empty
  queue.
\<close>

theorem late_write_pops_empty_queue:
  "sender_run [Connected 0, UserSend m i, Disconnected, Connected 1, WriteDone 0, WriteDone 1] mk_sender = Undefined"
  by (simp add: mk_sender_def send_message_def send_next_def queue_push_def queue_next_def async_send_on_def
      handle_sent_message_def queue_pop_def handle_disconnection_def)

end
