(* ===== verification/Transport_Base.thy ===== *)
theory Transport_Base
  imports Addresses
begin

text \<open>
  What the transports share (\<open>src/msgpack_rpc/transport\<close>): the state machine of a task in the
  background, the list of backends, the connectors of the two backends, and the connector that
  tries the URIs of a client one after the other.
\<close>

section \<open>State machine of background tasks\<close>

datatype task_state = INIT | STARTING | PROCESSING | STOPPED

definition handle_start_request :: "task_state \<Rightarrow> (exn, task_state) outcome" where
  "handle_start_request s =
     (if s = INIT then Ok STARTING else throw_rpc PRECONDITION_NOT_MET ''Already started.'')"

definition handle_processing_started :: "task_state \<Rightarrow> task_state" where
  "handle_processing_started s = PROCESSING"

text \<open>The result says whether the task has to be stopped now.\<close>

definition handle_stop_requested :: "task_state \<Rightarrow> bool \<times> task_state" where
  "handle_stop_requested s = (s \<noteq> STOPPED, STOPPED)"

definition handle_processing_stopped :: "task_state \<Rightarrow> task_state" where
  "handle_processing_stopped s = STOPPED"

definition is_processing :: "task_state \<Rightarrow> bool" where
  "is_processing s \<longleftrightarrow> s = PROCESSING"

datatype task_event = StartRequest | ProcessingStarted | StopRequest | ProcessingStopped

text \<open>
  One call on the machine: the new state, whether a start was accepted and whether a stop has to be
  carried out.
\<close>

fun task_exec :: "task_event \<Rightarrow> task_state \<Rightarrow> task_state \<times> bool \<times> bool" where
  "task_exec StartRequest s =
     (case handle_start_request s of Ok s' \<Rightarrow> (s', True, False) | _ \<Rightarrow> (s, False, False))"
| "task_exec ProcessingStarted s = (handle_processing_started s, False, False)"
| "task_exec StopRequest s = (let (b, s') = handle_stop_requested s in (s', False, b))"
| "task_exec ProcessingStopped s = (handle_processing_stopped s, False, False)"

fun task_run :: "task_event list \<Rightarrow> task_state \<Rightarrow> task_state \<times> nat \<times> nat" where
  "task_run [] s = (s, 0, 0)"
| "task_run (e # es) s =
     (let (s1, started, stopped) = task_exec e s; (s2, a, b) = task_run es s1
      in (s2, a + of_bool started, b + of_bool stopped))"

lemma task_run_not_init: "s \<noteq> INIT \<Longrightarrow> fst (snd (task_run es s)) = 0"
proof (induction es arbitrary: s)
  case (Cons e es)
  have "fst (task_exec e s) \<noteq> INIT \<and> \<not> fst (snd (task_exec e s))"
    using Cons.prems
    by (cases e) (auto simp: handle_start_request_def handle_processing_started_def
        handle_stop_requested_def handle_processing_stopped_def)
  then show ?case using Cons.IH [of "fst (task_exec e s)"] by (simp add: case_prod_beta Let_def)
qed simp

lemma task_run_start_once: "fst (snd (task_run es s)) \<le> 1"
proof (induction es arbitrary: s)
  case (Cons e es)
  show ?case
  proof (cases "fst (snd (task_exec e s))")
    case True
    then have "fst (task_exec e s) \<noteq> INIT"
      by (cases e) (auto simp: handle_start_request_def handle_stop_requested_def split: if_splits)
    then show ?thesis using task_run_not_init [of "fst (task_exec e s)"] True
      by (simp add: case_prod_beta Let_def)
  next
    case False
    then show ?thesis using Cons.IH [of "fst (task_exec e s)"] by (simp add: case_prod_beta Let_def)
  qed
qed simp

lemma task_run_stopped:
  "ProcessingStarted \<notin> set es \<Longrightarrow> task_run es STOPPED = (STOPPED, 0, 0)"
proof (induction es)
  case (Cons e es)
  then have "task_exec e STOPPED = (STOPPED, False, False)"
    by (cases e) (auto simp: handle_start_request_def handle_stop_requested_def handle_processing_stopped_def)
  then show ?case using Cons by simp
qed simp

text \<open>
  A background task is started by \<open>StartRequest\<close> followed at once by \<open>ProcessingStarted\<close>, in the same
  thread; other threads can only come in between the two.
\<close>

lemma task_run_stop_once: "snd (snd (task_run es s)) \<le> 1" if "ProcessingStarted \<notin> set es"
  using that
proof (induction es arbitrary: s)
  case (Cons e es)
  show ?case
  proof (cases "fst (task_exec e s) = STOPPED")
    case True
    then show ?thesis using task_run_stopped [of es] Cons.prems by (simp add: case_prod_beta Let_def)
  next
    case False
    then have "\<not> snd (snd (task_exec e s))" using Cons.prems
      by (cases e) (auto simp: handle_start_request_def handle_stop_requested_def split: outcome.splits)
    then show ?thesis using Cons by (simp add: case_prod_beta Let_def)
  qed
qed simp

text \<open>
  The machine accepts one start in any sequence of calls; after the task was started, it
  asks for one stop at most, and once it is stopped it stays stopped: a late \<open>handle_start_request\<close> is
  refused. What breaks this is a \<open>handle_processing_started\<close> that comes after the stop: it brings the
  task back to processing, and a second stop is carried out.
\<close>

theorem task_starts_and_stops_once:
  "fst (snd (task_run es s)) \<le> 1 \<and>
   (ProcessingStarted \<notin> set es \<longrightarrow> snd (snd (task_run es s)) \<le> 1 \<and> task_run es STOPPED = (STOPPED, 0, 0)) \<and>
   task_run [StartRequest, StopRequest, ProcessingStarted, StopRequest] INIT = (STOPPED, 1, 2)"
  using task_run_start_once [of es s] task_run_stop_once [of es s] task_run_stopped [of es]
  by (auto simp: handle_start_request_def handle_stop_requested_def handle_processing_started_def)

theorem task_starts_and_stops_once_witness:
  "snd (snd (task_run [StopRequest, ProcessingStopped, StopRequest] PROCESSING)) \<le> 1"
  using task_starts_and_stops_once [of "[StopRequest, ProcessingStopped, StopRequest]" PROCESSING] by simp

section \<open>Backends\<close>

text \<open>
  What the code calls of asio, as parameters: resolving a host, connecting to one of some endpoints
  (a socket or the text of an error), and building a Unix endpoint from a path, which throws a
  \<open>std::system_error\<close> when the path is too long for the operating system.
\<close>

record ('ep, 'sock) net =
  resolve_host :: "string \<Rightarrow> string \<Rightarrow> 'ep list + string"
  connect_endpoints :: "'ep list \<Rightarrow> 'sock + string"
  unix_endpoint :: "string \<Rightarrow> (exn, 'ep) outcome"

text \<open>A connector reports a status with a connection, now or later, or throws before it begins.\<close>

type_synonym 'sock connector = "uri \<Rightarrow> (exn, status \<times> 'sock option) outcome"

record 'sock backend =
  b_scheme :: string
  create_connector :: "(exn, 'sock connector) outcome"

definition on_connect :: "uri \<Rightarrow> 'sock + string \<Rightarrow> status \<times> 'sock option" where
  "on_connect u r =
     (case r of
        Inr err \<Rightarrow> (mk_status CONNECTION_FAILURE (''Failed to connect to '' @ format_uri u @ '': '' @ err), None)
      | Inl socket \<Rightarrow> (success_status, Some socket))"

definition tcp_resolve :: "('ep, 'sock) net \<Rightarrow> string \<Rightarrow> uri \<Rightarrow> (exn, 'ep list) outcome" where
  "tcp_resolve net sch u =
     (if scheme u \<noteq> sch then
        throw_rpc INVALID_ARGUMENT
          (''Scheme is different with the resolver: expected='' @ sch @ '', actual='' @ scheme u)
      else
        (let service = show_nat (case port_number u of Some p \<Rightarrow> unat p | None \<Rightarrow> 0)
         in case resolve_host net (host_or_path u) service of
              Inr err \<Rightarrow> throw_rpc HOST_UNRESOLVED (''Failed to resolve '' @ format_uri u @ '': '' @ err)
            | Inl results \<Rightarrow> Ok results))"

definition get_executor :: "bool \<Rightarrow> (exn, unit) outcome" where
  "get_executor executor_alive =
     (if executor_alive then Ok () else throw_rpc PRECONDITION_NOT_MET ''Executor is not set.'')"

definition tcp_async_connect :: "('ep, 'sock) net \<Rightarrow> bool \<Rightarrow> 'sock connector" where
  "tcp_async_connect net executor_alive u =
     bind_out (tcp_resolve net ''tcp'' u) (\<lambda>resolved_endpoints.
     bind_out (get_executor executor_alive) (\<lambda>_.
       Ok (on_connect u (connect_endpoints net resolved_endpoints))))"

definition unix_async_connect :: "('ep, 'sock) net \<Rightarrow> bool \<Rightarrow> 'sock connector" where
  "unix_async_connect net executor_alive u =
     bind_out (unix_endpoint net (host_or_path u)) (\<lambda>asio_address.
     bind_out (get_executor executor_alive) (\<lambda>_.
       Ok (on_connect u (connect_endpoints net [asio_address]))))"

definition backend_executor :: "bool \<Rightarrow> (exn, unit) outcome" where
  "backend_executor executor_alive =
     (if executor_alive then Ok () else throw_rpc PRECONDITION_NOT_MET ''Executor has been deleted.'')"

definition tcp_backend :: "('ep, 'sock) net \<Rightarrow> bool \<Rightarrow> 'sock backend" where
  "tcp_backend net executor_alive =
     \<lparr>b_scheme = TCP_SCHEME,
      create_connector = bind_out (backend_executor executor_alive) (\<lambda>_. Ok (tcp_async_connect net executor_alive))\<rparr>"

definition unix_backend :: "('ep, 'sock) net \<Rightarrow> bool \<Rightarrow> 'sock backend" where
  "unix_backend net executor_alive =
     \<lparr>b_scheme = UNIX_SOCKET_SCHEME,
      create_connector = bind_out (backend_executor executor_alive) (\<lambda>_. Ok (unix_async_connect net executor_alive))\<rparr>"

type_synonym 'sock backend_list = "string \<rightharpoonup> 'sock backend"

definition backend_emplace ::
    "string \<Rightarrow> 'sock backend \<Rightarrow> 'sock backend_list \<Rightarrow> (exn, 'sock backend_list) outcome" where
  "backend_emplace sch backend backends =
     (case backends sch of
        None \<Rightarrow> Ok (backends(sch \<mapsto> backend))
      | Some _ \<Rightarrow>
          throw_rpc INVALID_ARGUMENT (''Duplicate scheme : '' @ [CHR 0x22] @ sch @ [CHR 0x22] @ ''.''))"

definition backend_append where
  "backend_append backend backends = backend_emplace (b_scheme backend) backend backends"

definition backend_find :: "'sock backend_list \<Rightarrow> string \<Rightarrow> (exn, 'sock backend) outcome" where
  "backend_find backends sch =
     (case backends sch of
        None \<Rightarrow> throw_rpc INVALID_ARGUMENT (''Invalid scheme: '' @ sch @ ''.'')
      | Some b \<Rightarrow> Ok b)"

interpretation backend_table: unique_table Map.empty backend_emplace "\<lambda>t. t"
  by unfold_locales (auto simp: backend_emplace_def split: option.splits)

definition create_default_backend_list :: "('ep, 'sock) net \<Rightarrow> bool \<Rightarrow> (exn, 'sock backend_list) outcome" where
  "create_default_backend_list net executor_alive =
     bind_out (backend_append (tcp_backend net executor_alive) Map.empty)
       (backend_append (unix_backend net executor_alive))"

lemma default_backends:
  "create_default_backend_list net alive =
     Ok [TCP_SCHEME \<mapsto> tcp_backend net alive, UNIX_SOCKET_SCHEME \<mapsto> unix_backend net alive]"
  by (simp add: create_default_backend_list_def backend_append_def backend_emplace_def tcp_backend_def
      unix_backend_def TCP_SCHEME_def UNIX_SOCKET_SCHEME_def)

section \<open>Connecting to one of many URIs\<close>

text \<open>
  \<open>MultiBackendConnector\<close>: \<open>current_uri_\<close> is an iterator over the URIs, here the URIs from it on; it
  is dereferenced at the start without a check. Only the call of the connector is inside the \<open>try\<close>.
  The value is what the callback \<open>on_connection_\<close> is called with.
\<close>

fun multi_async_connect :: "'sock backend_list \<Rightarrow> uri list \<Rightarrow> (exn, status \<times> 'sock option) outcome" where
  "multi_async_connect backends [] = Undefined"
| "multi_async_connect backends (u # us) =
     bind_out (bind_out (backend_find backends (scheme u)) create_connector) (\<lambda>connector.
       (let report = (\<lambda>(st, conn).
              if code_of st = SUCCESS then Ok (st, conn)
              else if us = [] then
                Ok (mk_status CONNECTION_FAILURE ''Failed to connect to all the URIs.'', conn)
              else multi_async_connect backends us)
        in case connector u of
             Ok r \<Rightarrow> report r
           | Throw (RpcException e) \<Rightarrow> report (exc_status e, None)
           | Throw (ServerException e obj) \<Rightarrow> report (exc_status e, None)
           | Throw e \<Rightarrow> Throw e
           | Undefined \<Rightarrow> Undefined))"

text \<open>The status an attempt ends with, when it neither ends the process nor lets an exception out.\<close>

definition attempt_status :: "'sock backend_list \<Rightarrow> uri \<Rightarrow> (status \<times> 'sock option) option" where
  "attempt_status backends u =
     (case bind_out (backend_find backends (scheme u)) create_connector of
        Ok connector \<Rightarrow>
          (case connector u of
             Ok r \<Rightarrow> Some r
           | Throw (RpcException e) \<Rightarrow> Some (exc_status e, None)
           | Throw (ServerException e obj) \<Rightarrow> Some (exc_status e, None)
           | _ \<Rightarrow> None)
      | _ \<Rightarrow> None)"

definition attempt_succeeds :: "'sock backend_list \<Rightarrow> uri \<Rightarrow> bool" where
  "attempt_succeeds backends u \<longleftrightarrow>
     (case attempt_status backends u of Some (st, _) \<Rightarrow> code_of st = SUCCESS | None \<Rightarrow> False)"

lemma multi_step:
  assumes "attempt_status backends u = Some (st, conn)"
  shows "multi_async_connect backends (u # us) =
     (if code_of st = SUCCESS then Ok (st, conn)
      else if us = [] then Ok (mk_status CONNECTION_FAILURE ''Failed to connect to all the URIs.'', conn)
      else multi_async_connect backends us)"
  using assms
  by (auto simp: attempt_status_def Let_def split: outcome.splits exn.splits)

lemma multi_result:
  assumes "us \<noteq> []" and "\<forall>u \<in> set us. attempt_status backends u \<noteq> None"
  shows "case find (attempt_succeeds backends) us of
      Some u \<Rightarrow> multi_async_connect backends us = Ok (the (attempt_status backends u))
    | None \<Rightarrow> \<exists>conn. multi_async_connect backends us =
        Ok (mk_status CONNECTION_FAILURE ''Failed to connect to all the URIs.'', conn)"
  using assms
proof (induction us)
  case (Cons u us)
  then obtain st conn where a: "attempt_status backends u = Some (st, conn)" by (metis list.set_intros(1) not_None_eq prod.exhaust)
  note step = multi_step [OF a]
  show ?case
  proof (cases "code_of st = SUCCESS")
    case True
    then show ?thesis using a step by (simp add: attempt_succeeds_def)
  next
    case False
    then have f: "\<not> attempt_succeeds backends u" using a by (simp add: attempt_succeeds_def)
    show ?thesis
    proof (cases "us = []")
      case True
      then show ?thesis using step False f by simp
    next
      case ne: False
      then have "multi_async_connect backends (u # us) = multi_async_connect backends us"
        using step False by simp
      then show ?thesis using Cons.IH [OF ne] Cons.prems(2) f
        by (simp del: multi_async_connect.simps cong: option.case_cong)
    qed
  qed
qed simp

text \<open>
  C28. Connecting to one of many URIs: when the schemes of all of them are known and no attempt
  lets a foreign exception out, the callback gets the connection of the first URI that can be
  connected to, and \<open>CONNECTION_FAILURE\<close> exactly when none can, the others being tried in order. With
  no URI at all the code dereferences the end of the list, and a URI with an unknown scheme ends the
  attempts with an exception, wherever it stands.
\<close>

theorem multi_connector_takes_first:
  "(us \<noteq> [] \<and> (\<forall>u \<in> set us. attempt_status backends u \<noteq> None) \<longrightarrow>
     (case find (attempt_succeeds backends) us of
        Some u \<Rightarrow> multi_async_connect backends us = Ok (the (attempt_status backends u))
      | None \<Rightarrow> \<exists>conn. multi_async_connect backends us =
          Ok (mk_status CONNECTION_FAILURE ''Failed to connect to all the URIs.'', conn))) \<and>
   multi_async_connect backends [] = Undefined \<and>
   (backends (scheme u) = None \<longrightarrow>
      multi_async_connect backends (u # us) = throw_rpc INVALID_ARGUMENT (''Invalid scheme: '' @ scheme u @ ''.''))"
  using multi_result [of us backends] by (auto simp: backend_find_def)

text \<open>A network with one host, which listens, and Unix paths of at most 107 characters.\<close>

definition example_net :: "(string, string) net" where
  "example_net = \<lparr>
     resolve_host = (\<lambda>h service. if h = ''a'' then Inl [h @ '':'' @ service] else Inr ''Host not found''),
     connect_endpoints = (\<lambda>eps. case eps of [] \<Rightarrow> Inr ''No endpoint'' | ep # _ \<Rightarrow> Inl ep),
     unix_endpoint = (\<lambda>path. if length path \<le> 107 then Ok path else Throw (StdException ''File name too long''))\<rparr>"

definition example_backends :: "string backend_list" where
  "example_backends =
     [TCP_SCHEME \<mapsto> tcp_backend example_net True, UNIX_SOCKET_SCHEME \<mapsto> unix_backend example_net True]"

definition tcp_uri :: "string \<Rightarrow> uri" where
  "tcp_uri h = \<lparr>scheme = ''tcp'', host_or_path = h, port_number = Some 80\<rparr>"

lemmas example_simps =
  example_net_def example_backends_def tcp_uri_def tcp_backend_def unix_backend_def backend_find_def
  backend_executor_def tcp_async_connect_def tcp_resolve_def get_executor_def on_connect_def
  TCP_SCHEME_def UNIX_SOCKET_SCHEME_def

theorem multi_connector_takes_first_witness:
  "multi_async_connect example_backends [tcp_uri ''b'', tcp_uri ''a''] = Ok (success_status, Some ''a:80'')"
proof -
  have b: "attempt_status example_backends (tcp_uri ''b'') =
      Some (mk_status HOST_UNRESOLVED ''Failed to resolve tcp://b:80: Host not found'', None)"
    by (simp add: attempt_status_def example_simps format_uri_def show_nat.simps)
  have a: "attempt_status example_backends (tcp_uri ''a'') = Some (success_status, Some ''a:80'')"
    by (simp add: attempt_status_def example_simps show_nat.simps)
  from multi_connector_takes_first [of "[tcp_uri ''b'', tcp_uri ''a'']" example_backends "tcp_uri ''b''"]
  show ?thesis by (simp add: a b attempt_succeeds_def)
qed

text \<open>
  With the default backends and a living executor, an attempt at a TCP URI always ends with a
  status: \<open>HOST_UNRESOLVED\<close>, \<open>CONNECTION_FAILURE\<close>, or success with a socket. A Unix URI whose path the
  operating system cannot take is different: the exception is not one of the library, it leaves the
  connector and the URIs after it are not tried.
\<close>

theorem default_connectors_report:
  "(scheme u = ''tcp'' \<longrightarrow>
      (\<exists>st conn. attempt_status [TCP_SCHEME \<mapsto> tcp_backend net True, UNIX_SOCKET_SCHEME \<mapsto> unix_backend net True] u
          = Some (st, conn) \<and>
        (code_of st = SUCCESS \<longleftrightarrow> conn \<noteq> None) \<and> code_of st \<in> {SUCCESS, HOST_UNRESOLVED, CONNECTION_FAILURE})) \<and>
   (scheme u = ''unix'' \<and> unix_endpoint net (host_or_path u) = Throw (StdException t) \<longrightarrow>
      multi_async_connect [TCP_SCHEME \<mapsto> tcp_backend net True, UNIX_SOCKET_SCHEME \<mapsto> unix_backend net True] (u # us)
        = Throw (StdException t))"
  by (auto simp: attempt_status_def tcp_backend_def unix_backend_def backend_find_def backend_executor_def
      tcp_async_connect_def unix_async_connect_def tcp_resolve_def get_executor_def on_connect_def Let_def
      TCP_SCHEME_def UNIX_SOCKET_SCHEME_def split: sum.splits)

theorem default_connectors_report_witness:
  "multi_async_connect example_backends
     [\<lparr>scheme = ''unix'', host_or_path = replicate 200 CHR ''p'', port_number = None\<rparr>, tcp_uri ''a''] =
   Throw (StdException ''File name too long'')"
  using default_connectors_report [of "\<lparr>scheme = ''unix'', host_or_path = replicate 200 CHR ''p'', port_number = None\<rparr>"
      example_net "''File name too long''" "[tcp_uri ''a'']"]
  by (simp add: example_backends_def example_net_def)

end
