(* ===== verification/Logging.thy ===== *)
theory Logging
  imports Exceptions
begin

text \<open>
  Logging (\<open>include/msgpack_rpc/logging\<close>, \<open>src/msgpack_rpc/logging\<close>): the levels and their order, the
  logger, the macros that filter by level, and the sink over spdlog. What spdlog does with a record
  is not modelled; a sink is the list of the records written to it. A registry of spdlog loggers,
  in which a logger is created by name, is a parameter.
\<close>

section \<open>Levels\<close>

datatype log_level = TRACE | DEBUG | INFO | WARN | ERROR | CRITICAL

text \<open>The values of the enumerators.\<close>

fun level_value :: "log_level \<Rightarrow> u8" where
  "level_value TRACE = 0"
| "level_value DEBUG = 1"
| "level_value INFO = 2"
| "level_value WARN = 3"
| "level_value ERROR = 4"
| "level_value CRITICAL = 5"

lemma level_value_inj: "level_value a = level_value b \<Longrightarrow> a = b"
  by (cases a; cases b) simp_all

instantiation log_level :: linorder
begin

definition less_eq_log_level :: "log_level \<Rightarrow> log_level \<Rightarrow> bool" where
  "less_eq_log_level a b \<longleftrightarrow> level_value a \<le> level_value b"

definition less_log_level :: "log_level \<Rightarrow> log_level \<Rightarrow> bool" where
  "less_log_level a b \<longleftrightarrow> level_value a < level_value b"

instance
  by standard (auto simp: less_eq_log_level_def less_log_level_def intro: level_value_inj)

end

lemma level_bounds: "TRACE \<le> l" "l \<le> CRITICAL"
  by (cases l; simp add: less_eq_log_level_def)+

text \<open>An argument of type \<open>LogLevel\<close> is any 8-bit value, of which six are enumerators.\<close>

definition level_of_value :: "u8 \<Rightarrow> log_level option" where
  "level_of_value v =
     (if v = 0 then Some TRACE else if v = 1 then Some DEBUG else if v = 2 then Some INFO
      else if v = 3 then Some WARN else if v = 4 then Some ERROR else if v = 5 then Some CRITICAL else None)"

lemma level_of_value [simp]: "level_of_value (level_value l) = Some l"
  by (cases l) (simp_all add: level_of_value_def)

section \<open>Records and sinks\<close>

record source_location =
  loc_file_path :: string
  loc_line :: u32
  function_name :: string

datatype spdlog_level = L_trace | L_debug | L_info | L_warn | L_err | L_critical

text \<open>After the switch, a value that is no enumerator is written as \<open>trace\<close>.\<close>

definition convert_log_level :: "u8 \<Rightarrow> spdlog_level" where
  "convert_log_level v =
     (case level_of_value v of
        Some TRACE \<Rightarrow> L_trace | Some DEBUG \<Rightarrow> L_debug | Some INFO \<Rightarrow> L_info
      | Some WARN \<Rightarrow> L_warn | Some ERROR \<Rightarrow> L_err | Some CRITICAL \<Rightarrow> L_critical
      | None \<Rightarrow> L_trace)"

text \<open>\<open>SpdlogLogSink\<close>: its spdlog logger passes every level, so each write is a record.\<close>

record log_sink =
  records :: "(source_location \<times> spdlog_level \<times> string) list"

definition mk_spdlog_sink :: "bool \<Rightarrow> (exn, log_sink) outcome" where
  "mk_spdlog_sink has_logger =
     (if \<not> has_logger
      then throw_rpc INVALID_ARGUMENT ''Null logger was given to SpdlogLogSink class.''
      else Ok \<lparr>records = []\<rparr>)"

definition sink_write :: "source_location \<Rightarrow> u8 \<Rightarrow> string \<Rightarrow> log_sink \<Rightarrow> log_sink" where
  "sink_write location level body s = s\<lparr>records := records s @ [(location, convert_log_level level, body)]\<rparr>"

text \<open>
  \<open>create_stdout_log_sink\<close> creates the logger named \<open>stdout\<close> once and keeps it; each file sink creates
  a logger named by its path, with the limits of the size and the number of its files. \<open>register\<close>
  and \<open>rotating\<close> are spdlog and its registry. Each logger of the model holds the records it wrote
  itself, also where several loggers share the sink of the standard output.
\<close>

record 'r sinks =
  registry :: 'r
  stdout_sink :: "log_sink option"

definition create_stdout_log_sink :: "(string \<Rightarrow> 'r \<Rightarrow> (exn, 'r) outcome) \<Rightarrow> ('r sinks, log_sink) action" where
  "create_stdout_log_sink register s =
     (case stdout_sink s of
        Some sink \<Rightarrow> (Ok sink, s)
      | None \<Rightarrow>
          (case register ''stdout'' (registry s) of
             Ok r \<Rightarrow>
               (case mk_spdlog_sink True of
                  Ok sink \<Rightarrow> (Ok sink, s\<lparr>registry := r, stdout_sink := Some sink\<rparr>)
                | Throw e \<Rightarrow> (Throw e, s\<lparr>registry := r\<rparr>)
                | Undefined \<Rightarrow> (Undefined, s\<lparr>registry := r\<rparr>))
           | Throw e \<Rightarrow> (Throw e, s)
           | Undefined \<Rightarrow> (Undefined, s)))"

definition create_rotating_file_log_sink ::
    "(string \<Rightarrow> u64 \<Rightarrow> u64 \<Rightarrow> 'r \<Rightarrow> (exn, 'r) outcome) \<Rightarrow> string \<Rightarrow> u64 \<Rightarrow> u64 \<Rightarrow> ('r sinks, log_sink) action" where
  "create_rotating_file_log_sink rotating path max_size max_count s =
     (case rotating path max_size max_count (registry s) of
        Ok r \<Rightarrow> (mk_spdlog_sink True, s\<lparr>registry := r\<rparr>)
      | Throw e \<Rightarrow> (Throw e, s)
      | Undefined \<Rightarrow> (Undefined, s))"

text \<open>A sink that was created has a logger of spdlog.\<close>

lemma create_stdout_log_sink_records:
  "create_stdout_log_sink register s = (Ok x, s') \<Longrightarrow> stdout_sink s' = Some x \<and> (stdout_sink s = None \<longrightarrow> records x = [])"
  by (auto simp: create_stdout_log_sink_def mk_spdlog_sink_def split: option.splits outcome.splits)

lemma create_rotating_file_log_sink_records:
  "create_rotating_file_log_sink rotating path n k s = (Ok x, s') \<Longrightarrow> records x = [] \<and> stdout_sink s' = stdout_sink s"
  by (auto simp: create_rotating_file_log_sink_def mk_spdlog_sink_def split: outcome.splits)

section \<open>Logger\<close>

record logger =
  sink :: "log_sink option"
  output_log_level :: u8

definition mk_logger :: "log_sink option \<Rightarrow> u8 \<Rightarrow> logger" where
  "mk_logger sk level = \<lparr>sink = sk, output_log_level = level\<rparr>"

definition logger_write :: "source_location \<Rightarrow> u8 \<Rightarrow> string \<Rightarrow> logger \<Rightarrow> logger" where
  "logger_write location level body l =
     (case sink l of None \<Rightarrow> l | Some s \<Rightarrow> l\<lparr>sink := Some (sink_write location level body s)\<rparr>)"

text \<open>\<open>MSGPACK_RPC_LOG\<close>: the arguments after the level are evaluated only when the test succeeds.\<close>

definition log_macro :: "source_location \<Rightarrow> u8 \<Rightarrow> (unit \<Rightarrow> (exn, string) outcome) \<Rightarrow> logger \<Rightarrow> (exn, logger) outcome" where
  "log_macro location level body l =
     (if output_log_level l \<le> level then bind_out (body ()) (\<lambda>b. Ok (logger_write location level b l)) else Ok l)"

definition log_trace where "log_trace location = log_macro location (level_value TRACE)"
definition log_debug where "log_debug location = log_macro location (level_value DEBUG)"
definition log_info where "log_info location = log_macro location (level_value INFO)"
definition log_warn where "log_warn location = log_macro location (level_value WARN)"
definition log_error where "log_error location = log_macro location (level_value ERROR)"
definition log_critical where "log_critical location = log_macro location (level_value CRITICAL)"

text \<open>A critical record passes every output level, a trace record only the lowest one.\<close>

lemma critical_always_written:
  "output_log_level l = level_value out \<Longrightarrow>
     log_critical location body l = bind_out (body ()) (\<lambda>b. Ok (logger_write location 5 b l))"
  by (cases out) (simp_all add: log_critical_def log_macro_def)

lemma trace_written_at_trace_only:
  "output_log_level l = level_value out \<Longrightarrow>
     log_trace location body l =
       (if out = TRACE then bind_out (body ()) (\<lambda>b. Ok (logger_write location 0 b l)) else Ok l)"
  by (cases out) (simp_all add: log_trace_def log_macro_def)

fun log_all :: "(source_location \<times> log_level \<times> string) list \<Rightarrow> logger \<Rightarrow> (exn, logger) outcome" where
  "log_all [] l = Ok l"
| "log_all ((loc, level, body) # xs) l =
     bind_out (log_macro loc (level_value level) (\<lambda>_. Ok body) l) (log_all xs)"

fun spdlog_level_of :: "log_level \<Rightarrow> spdlog_level" where
  "spdlog_level_of TRACE = L_trace"
| "spdlog_level_of DEBUG = L_debug"
| "spdlog_level_of INFO = L_info"
| "spdlog_level_of WARN = L_warn"
| "spdlog_level_of ERROR = L_err"
| "spdlog_level_of CRITICAL = L_critical"

lemma convert_level [simp]: "convert_log_level (level_value l) = spdlog_level_of l"
  by (cases l) (simp_all add: convert_log_level_def level_of_value_def)

lemma log_all_records:
  "sink l = Some s \<Longrightarrow> output_log_level l = level_value out \<Longrightarrow>
     \<exists>l'. log_all xs l = Ok l' \<and>
       sink l' = Some \<lparr>records = records s @ map (\<lambda>(loc, lv, b). (loc, spdlog_level_of lv, b)) (filter (\<lambda>(_, lv, _). out \<le> lv) xs)\<rparr>"
proof (induction xs l arbitrary: s rule: log_all.induct)
  case (1 l)
  then show ?case by (cases s) simp
next
  case (2 loc level body xs l)
  show ?case
  proof (cases "out \<le> level")
    case True
    let ?s = "sink_write loc (level_value level) body s"
    have "sink (logger_write loc (level_value level) body l) = Some ?s"
      "output_log_level (logger_write loc (level_value level) body l) = level_value out"
      using 2(2,3) by (simp_all add: logger_write_def)
    then show ?thesis using 2(1) [of "logger_write loc (level_value level) body l" ?s] True 2(3)
      by (auto simp: log_macro_def less_eq_log_level_def sink_write_def)
  next
    case False
    then show ?thesis using 2 by (auto simp: log_macro_def less_eq_log_level_def)
  qed
qed



end
