(* ===== verification/Config.thy ===== *)
theory Config
  imports Addresses Logging
begin

text \<open>
  Configurations (\<open>include/msgpack_rpc/config\<close>, \<open>src/msgpack_rpc/config\<close>): the classes with their
  default values and their checked setters. Durations are 64-bit numbers of nanoseconds, sizes
  64-bit unsigned numbers. The default size of the read buffer is a constant of the MessagePack
  library, so it is a parameter. The loggers made from a configuration are here too.
\<close>

section \<open>Message parsers\<close>

record message_parser_config =
  mpc_read_buffer_size :: u64

definition default_message_parser_config :: "u64 \<Rightarrow> message_parser_config" where
  "default_message_parser_config reserve_size = \<lparr>mpc_read_buffer_size = reserve_size\<rparr>"

definition set_read_buffer_size :: "u64 \<Rightarrow> message_parser_config \<Rightarrow> (exn, message_parser_config) outcome" where
  "set_read_buffer_size value c =
     (if value \<le> 0 then throw_rpc INVALID_ARGUMENT ''Buffer size must be at least one.''
      else Ok (c\<lparr>mpc_read_buffer_size := value\<rparr>))"

section \<open>Executors\<close>

record executor_config =
  num_transport_threads :: u64
  num_callback_threads :: u64

definition default_executor_config :: executor_config where
  "default_executor_config = \<lparr>num_transport_threads = 1, num_callback_threads = 1\<rparr>"

definition set_num_transport_threads :: "u64 \<Rightarrow> executor_config \<Rightarrow> (exn, executor_config) outcome" where
  "set_num_transport_threads value c =
     (if value \<le> 0 then throw_rpc INVALID_ARGUMENT ''Invalid number of transport threads.''
      else Ok (c\<lparr>num_transport_threads := value\<rparr>))"

definition set_num_callback_threads :: "u64 \<Rightarrow> executor_config \<Rightarrow> (exn, executor_config) outcome" where
  "set_num_callback_threads value c =
     (if value \<le> 0 then throw_rpc INVALID_ARGUMENT ''Invalid number of callback threads.''
      else Ok (c\<lparr>num_callback_threads := value\<rparr>))"

section \<open>Reconnection\<close>

record reconnection_config =
  initial_waiting_time :: int
  max_waiting_time :: int
  max_jitter_waiting_time :: int

definition default_reconnection_config :: reconnection_config where
  "default_reconnection_config =
     \<lparr>initial_waiting_time = 125000000, max_waiting_time = 32000000000, max_jitter_waiting_time = 125000000\<rparr>"

definition set_initial_waiting_time :: "int \<Rightarrow> reconnection_config \<Rightarrow> (exn, reconnection_config) outcome" where
  "set_initial_waiting_time value c =
     (if value \<le> 0 then throw_rpc INVALID_ARGUMENT ''Waiting time must be larger than zero.''
      else Ok (c\<lparr>initial_waiting_time := value\<rparr>))"

definition set_max_waiting_time :: "int \<Rightarrow> reconnection_config \<Rightarrow> (exn, reconnection_config) outcome" where
  "set_max_waiting_time value c =
     (if value \<le> 0 then throw_rpc INVALID_ARGUMENT ''Waiting time must be larger than zero.''
      else Ok (c\<lparr>max_waiting_time := value\<rparr>))"

definition set_max_jitter_waiting_time :: "int \<Rightarrow> reconnection_config \<Rightarrow> (exn, reconnection_config) outcome" where
  "set_max_jitter_waiting_time value c =
     (if value < 0 then throw_rpc INVALID_ARGUMENT ''Jitter must be larger than or equal to zero.''
      else Ok (c\<lparr>max_jitter_waiting_time := value\<rparr>))"

section \<open>Logging\<close>

record logging_config =
  lc_file_path :: string
  max_file_size :: u64
  max_files :: u64
  lc_output_log_level :: u8

definition default_logging_config :: logging_config where
  "default_logging_config =
     \<lparr>lc_file_path = '''', max_file_size = 1024 * 1024, max_files = 5, lc_output_log_level = level_value INFO\<rparr>"

definition set_file_path :: "string \<Rightarrow> logging_config \<Rightarrow> (exn, logging_config) outcome" where
  "set_file_path value c = Ok (c\<lparr>lc_file_path := value\<rparr>)"

definition set_max_file_size :: "u64 \<Rightarrow> logging_config \<Rightarrow> (exn, logging_config) outcome" where
  "set_max_file_size value c =
     (if value \<le> 0 then throw_rpc INVALID_ARGUMENT ''Maximum size of a file must be greater than 0.''
      else Ok (c\<lparr>max_file_size := value\<rparr>))"

definition set_max_files :: "u64 \<Rightarrow> logging_config \<Rightarrow> (exn, logging_config) outcome" where
  "set_max_files value c =
     (if value \<le> 0 then throw_rpc INVALID_ARGUMENT ''Maximum number of files must be greater than 0.''
      else Ok (c\<lparr>max_files := value\<rparr>))"

definition set_output_log_level :: "u8 \<Rightarrow> logging_config \<Rightarrow> (exn, logging_config) outcome" where
  "set_output_log_level value c =
     (case level_of_value value of
        None \<Rightarrow> throw_rpc INVALID_ARGUMENT ''Invalid log level.''
      | Some _ \<Rightarrow> Ok (c\<lparr>lc_output_log_level := value\<rparr>))"

text \<open>
  The sink for a configuration (\<open>logging/log_sinks.cpp\<close>) and the logger over it, \<open>Logger::create\<close>.
  \<open>stdout\<close> and \<open>rotating\<close> create the loggers of spdlog.
\<close>

definition create_log_sink ::
    "(string \<Rightarrow> 'r \<Rightarrow> (exn, 'r) outcome) \<Rightarrow> (string \<Rightarrow> u64 \<Rightarrow> u64 \<Rightarrow> 'r \<Rightarrow> (exn, 'r) outcome) \<Rightarrow>
     logging_config \<Rightarrow> ('r sinks, log_sink) action" where
  "create_log_sink stdout rotating c =
     (if lc_file_path c = [] then create_stdout_log_sink stdout
      else create_rotating_file_log_sink rotating (lc_file_path c) (max_file_size c) (max_files c))"

definition create_logger where
  "create_logger stdout rotating c =
     bind_act (create_log_sink stdout rotating c) (\<lambda>s. return_act (mk_logger (Some s) (lc_output_log_level c)))"

text \<open>
  A logger made from a configuration, of a file or of the standard output used for the first time,
  writes what is at the configured level or above, in order.
\<close>

lemma created_logger_filters:
  assumes made: "create_logger stdout rotating c s = (Ok l, s')"
    and level: "lc_output_log_level c = level_value out"
    and fresh: "stdout_sink s = None"
  shows "\<exists>l'. log_all xs l = Ok l' \<and>
     sink l' = Some \<lparr>records = map (\<lambda>(loc, lv, b). (loc, spdlog_level_of lv, b)) (filter (\<lambda>(_, lv, _). out \<le> lv) xs)\<rparr>"
proof -
  obtain x where x: "create_log_sink stdout rotating c s = (Ok x, s')" "l = mk_logger (Some x) (level_value out)"
    using made level
    by (cases "create_log_sink stdout rotating c s" rule: prod.exhaust; cases "fst (create_log_sink stdout rotating c s)")
       (auto simp: create_logger_def bind_act_def return_act_def)
  have "records x = []"
    using x(1) fresh create_stdout_log_sink_records create_rotating_file_log_sink_records
    by (fastforce simp: create_log_sink_def split: if_splits)
  then show ?thesis
    using log_all_records [of l x out xs] by (simp add: x(2) mk_logger_def)
qed

text \<open>The standard output is opened once: its second logger opens nothing and cannot fail.\<close>

lemma second_default_logger:
  assumes "create_logger stdout rotating default_logging_config s = (Ok l, s')"
  shows "\<exists>l'. create_logger stdout' rotating' default_logging_config s' = (Ok l', s') \<and> output_log_level l' = level_value INFO"
proof -
  obtain x where x: "create_stdout_log_sink stdout s = (Ok x, s')"
    using assms
    by (cases "create_stdout_log_sink stdout s" rule: prod.exhaust; cases "fst (create_stdout_log_sink stdout s)")
       (auto simp: create_logger_def create_log_sink_def default_logging_config_def bind_act_def return_act_def)
  then have "stdout_sink s' = Some x" using create_stdout_log_sink_records by blast
  then show ?thesis
    by (simp add: create_logger_def create_log_sink_def create_stdout_log_sink_def default_logging_config_def
        bind_act_def return_act_def mk_logger_def)
qed

section \<open>Clients and servers\<close>

record client_config =
  client_uris :: "uri list"
  cc_call_timeout :: int
  client_message_parser :: message_parser_config
  client_executor :: executor_config
  reconnection :: reconnection_config

definition default_client_config :: "u64 \<Rightarrow> client_config" where
  "default_client_config reserve_size =
     \<lparr>client_uris = [], cc_call_timeout = 15000000000,
      client_message_parser = default_message_parser_config reserve_size,
      client_executor = default_executor_config, reconnection = default_reconnection_config\<rparr>"

definition client_add_uri :: "uri \<Rightarrow> client_config \<Rightarrow> client_config" where
  "client_add_uri u c = c\<lparr>client_uris := client_uris c @ [u]\<rparr>"

definition client_add_uri_text :: "string \<Rightarrow> client_config \<Rightarrow> (exn, client_config) outcome" where
  "client_add_uri_text s c = bind_out (parse_uri s) (\<lambda>u. Ok (client_add_uri u c))"

definition set_call_timeout :: "int \<Rightarrow> client_config \<Rightarrow> (exn, client_config) outcome" where
  "set_call_timeout value c =
     (if value \<le> 0 then throw_rpc INVALID_ARGUMENT ''Duration of timeout must be longer than zero.''
      else Ok (c\<lparr>cc_call_timeout := value\<rparr>))"

record server_config =
  server_uris :: "uri list"
  server_message_parser :: message_parser_config
  server_executor :: executor_config

definition default_server_config :: "u64 \<Rightarrow> server_config" where
  "default_server_config reserve_size =
     \<lparr>server_uris = [], server_message_parser = default_message_parser_config reserve_size,
      server_executor = default_executor_config\<rparr>"

definition server_add_uri :: "uri \<Rightarrow> server_config \<Rightarrow> server_config" where
  "server_add_uri u c = c\<lparr>server_uris := server_uris c @ [u]\<rparr>"

definition server_add_uri_text :: "string \<Rightarrow> server_config \<Rightarrow> (exn, server_config) outcome" where
  "server_add_uri_text s c = bind_out (parse_uri s) (\<lambda>u. Ok (server_add_uri u c))"

section \<open>Valid configurations\<close>

definition parser_config_valid :: "message_parser_config \<Rightarrow> bool" where "parser_config_valid c \<longleftrightarrow> 0 < mpc_read_buffer_size c"

definition executor_config_valid :: "executor_config \<Rightarrow> bool" where
  "executor_config_valid c \<longleftrightarrow> 0 < num_transport_threads c \<and> 0 < num_callback_threads c"

definition reconnection_config_valid :: "reconnection_config \<Rightarrow> bool" where
  "reconnection_config_valid c \<longleftrightarrow>
     0 < initial_waiting_time c \<and> 0 < max_waiting_time c \<and> 0 \<le> max_jitter_waiting_time c"

definition logging_config_valid :: "logging_config \<Rightarrow> bool" where
  "logging_config_valid c \<longleftrightarrow>
     0 < max_file_size c \<and> 0 < max_files c \<and> level_of_value (lc_output_log_level c) \<noteq> None"

definition client_config_valid :: "client_config \<Rightarrow> bool" where
  "client_config_valid c \<longleftrightarrow>
     0 < cc_call_timeout c \<and> parser_config_valid (client_message_parser c) \<and>
     executor_config_valid (client_executor c) \<and> reconnection_config_valid (reconnection c) \<and>
     (\<forall>u \<in> set (client_uris c). uri_wf u)"

definition server_config_valid :: "server_config \<Rightarrow> bool" where
  "server_config_valid c \<longleftrightarrow>
     parser_config_valid (server_message_parser c) \<and> executor_config_valid (server_executor c) \<and>
     (\<forall>u \<in> set (server_uris c). uri_wf u)"

lemmas valid_defs =
  parser_config_valid_def executor_config_valid_def reconnection_config_valid_def logging_config_valid_def
  client_config_valid_def server_config_valid_def

named_theorems setter_valid

lemma word_pos: "\<not> v \<le> 0 \<Longrightarrow> 0 < (v :: u64)"
  by (simp add: word_neq_0_conv)

lemma setters_valid [setter_valid]:
  "set_read_buffer_size n c1 = Ok c1' \<Longrightarrow> parser_config_valid c1 \<Longrightarrow> parser_config_valid c1'"
  "set_num_transport_threads n c2 = Ok c2' \<Longrightarrow> executor_config_valid c2 \<Longrightarrow> executor_config_valid c2'"
  "set_num_callback_threads n c2 = Ok c2' \<Longrightarrow> executor_config_valid c2 \<Longrightarrow> executor_config_valid c2'"
  "set_initial_waiting_time t c3 = Ok c3' \<Longrightarrow> reconnection_config_valid c3 \<Longrightarrow> reconnection_config_valid c3'"
  "set_max_waiting_time t c3 = Ok c3' \<Longrightarrow> reconnection_config_valid c3 \<Longrightarrow> reconnection_config_valid c3'"
  "set_max_jitter_waiting_time t c3 = Ok c3' \<Longrightarrow> reconnection_config_valid c3 \<Longrightarrow> reconnection_config_valid c3'"
  by (auto simp: valid_defs set_read_buffer_size_def set_num_transport_threads_def set_num_callback_threads_def
      set_initial_waiting_time_def set_max_waiting_time_def set_max_jitter_waiting_time_def word_neq_0_conv
      split: if_splits)

lemma logging_setters_valid [setter_valid]:
  "set_file_path s c = Ok c' \<Longrightarrow> logging_config_valid c \<Longrightarrow> logging_config_valid c'"
  "set_max_file_size n c = Ok c' \<Longrightarrow> logging_config_valid c \<Longrightarrow> logging_config_valid c'"
  "set_max_files n c = Ok c' \<Longrightarrow> logging_config_valid c \<Longrightarrow> logging_config_valid c'"
  "set_output_log_level v c = Ok c' \<Longrightarrow> logging_config_valid c \<Longrightarrow> logging_config_valid c'"
  by (auto simp: valid_defs set_file_path_def set_max_file_size_def set_max_files_def set_output_log_level_def
      word_neq_0_conv split: if_splits option.splits)

lemma client_setters_valid [setter_valid]:
  "client_add_uri_text s c = Ok c' \<Longrightarrow> client_config_valid c \<Longrightarrow> client_config_valid c'"
  "set_call_timeout t c = Ok c' \<Longrightarrow> client_config_valid c \<Longrightarrow> client_config_valid c'"
  "server_add_uri_text s d = Ok d' \<Longrightarrow> server_config_valid d \<Longrightarrow> server_config_valid d'"
  by (auto simp: client_add_uri_text_def server_add_uri_text_def client_add_uri_def server_add_uri_def
      set_call_timeout_def valid_defs bind_out_Ok_iff parse_uri_ok_iff dest: uri_text_wf split: if_splits)

lemma defaults_valid:
  "0 < reserve_size \<Longrightarrow> client_config_valid (default_client_config reserve_size)"
  "0 < reserve_size \<Longrightarrow> server_config_valid (default_server_config reserve_size)"
  "logging_config_valid default_logging_config"
  by (simp_all add: valid_defs level_of_value_def default_client_config_def default_server_config_def default_logging_config_def
      default_message_parser_config_def default_executor_config_def default_reconnection_config_def)

end
