(* ===== verification/Client_Connector.thy ===== *)
theory Client_Connector
  imports Transport_Base Config
begin

text \<open>
  How a client keeps a connection (\<open>src/msgpack_rpc/clients/impl\<close>: \<open>reconnection_timer.h\<close>,
  \<open>client_connector.h\<close>). Durations are 64-bit numbers of nanoseconds; a sum or product that does not
  fit is an overflow of a signed integer, which is undefined. The random jitter is an argument.
\<close>

section \<open>Waiting times\<close>

record reconnection_timer =
  rt_initial :: int
  rt_max :: int
  rt_max_jitter :: int
  next_wait_time :: int

definition mk_reconnection_timer :: "reconnection_config \<Rightarrow> (exn, reconnection_timer) outcome" where
  "mk_reconnection_timer config =
     (if max_waiting_time config < initial_waiting_time config
      then throw_rpc INVALID_ARGUMENT
        ''The maximum waiting time must be longer than of equal to the initial waiting time.''
      else Ok \<lparr>rt_initial = initial_waiting_time config, rt_max = max_waiting_time config,
             rt_max_jitter = max_jitter_waiting_time config, next_wait_time = initial_waiting_time config\<rparr>)"

definition fits_int64 :: "int \<Rightarrow> bool" where
  "fits_int64 i \<longleftrightarrow> - (2 ^ 63) \<le> i \<and> i < 2 ^ 63"

definition compute_waiting_time :: "int \<Rightarrow> (reconnection_timer, int) action" where
  "compute_waiting_time jitter t =
     (let wait_time = next_wait_time t + jitter; doubled = next_wait_time t * 2
      in if \<not> fits_int64 wait_time \<or> \<not> fits_int64 doubled then (Undefined, t)
         else (Ok wait_time, t\<lparr>next_wait_time := (if rt_max t < doubled then rt_max t else doubled)\<rparr>))"

definition timer_reset :: "reconnection_timer \<Rightarrow> reconnection_timer" where
  "timer_reset t = t\<lparr>next_wait_time := rt_initial t\<rparr>"

text \<open>The waits of failures in a row, with their jitters.\<close>

fun waits :: "int list \<Rightarrow> reconnection_timer \<Rightarrow> (exn, int list) outcome" where
  "waits [] t = Ok []"
| "waits (j # js) t =
     (let (r, t') = compute_waiting_time j t in bind_out r (\<lambda>w. bind_out (waits js t') (\<lambda>ws. Ok (w # ws))))"

lemma waits_from:
  assumes "0 < rt_initial t" "rt_initial t \<le> rt_max t" "2 * rt_max t < 2 ^ 63"
    and "next_wait_time t = min (rt_initial t * 2 ^ k) (rt_max t)"
    and "\<forall>j \<in> set js. 0 \<le> j \<and> j \<le> rt_max_jitter t" and "rt_max t + rt_max_jitter t < 2 ^ 63"
  shows "waits js t = Ok (map (\<lambda>i. min (rt_initial t * 2 ^ (k + i)) (rt_max t) + js ! i) [0..<length js])"
  using assms
proof (induction js arbitrary: t k)
  case Nil
  then show ?case by simp
next
  case (Cons j js)
  define n where "n = next_wait_time t"
  have pow: "0 < rt_initial t * 2 ^ k" using Cons.prems(1) by simp
  have n: "0 < n" "n \<le> rt_max t" using Cons.prems(1,2,4) pow by (auto simp: n_def min_def)
  have j: "0 \<le> j" "j \<le> rt_max_jitter t" using Cons.prems(5) by simp_all
  have fits: "fits_int64 (n + j)" "fits_int64 (n * 2)"
    using n j Cons.prems(3,6) by (auto simp: fits_int64_def)
  let ?t = "t\<lparr>next_wait_time := (if rt_max t < n * 2 then rt_max t else n * 2)\<rparr>"
  have nxt: "next_wait_time ?t = min (rt_initial t * 2 ^ Suc k) (rt_max t)"
    using Cons.prems(4) n by (auto simp: n_def min_def)
  have "waits js ?t = Ok (map (\<lambda>i. min (rt_initial t * 2 ^ (Suc k + i)) (rt_max t) + js ! i) [0..<length js])"
    using Cons.IH [of ?t "Suc k"] Cons.prems(1-3,5,6) nxt by simp
  moreover have "compute_waiting_time j t = (Ok (n + j), ?t)"
    using fits by (simp add: compute_waiting_time_def Let_def n_def)
  moreover have "[0..<length (j # js)] = 0 # map Suc [0..<length js]"
    by (simp add: upt_conv_Cons map_Suc_upt del: upt_Suc)
  ultimately show ?case
    using Cons.prems(4) by (simp add: n_def comp_def)
qed

text \<open>
  C23. The waiting time doubles from the initial one up to the maximum: the \<open>k\<close>-th failure in a row
  waits exactly \<open>min (initial * 2 ^ k) max\<close> plus its jitter, whatever the configuration that the
  constructor accepts, as long as twice the maximum and the maximum with jitter fit in 64 bits; and
  the constructor refuses exactly a maximum below the initial time.
\<close>

theorem waiting_times_double:
  "(max_waiting_time config < initial_waiting_time config \<longleftrightarrow>
      (\<exists>e. mk_reconnection_timer config = Throw e \<and> code_of_exn e = Some INVALID_ARGUMENT)) \<and>
   (reconnection_config_valid config \<and> mk_reconnection_timer config = Ok t \<and>
    2 * max_waiting_time config < 2 ^ 63 \<and>
    max_waiting_time config + max_jitter_waiting_time config < 2 ^ 63 \<and>
    (\<forall>j \<in> set js. 0 \<le> j \<and> j \<le> max_jitter_waiting_time config) \<longrightarrow>
      waits js (timer_reset t) =
        Ok (map (\<lambda>k. min (initial_waiting_time config * 2 ^ k) (max_waiting_time config) + js ! k) [0..<length js]))"
proof (intro conjI impI)
  show "max_waiting_time config < initial_waiting_time config \<longleftrightarrow>
      (\<exists>e. mk_reconnection_timer config = Throw e \<and> code_of_exn e = Some INVALID_ARGUMENT)"
    by (simp add: mk_reconnection_timer_def)
  assume a: "reconnection_config_valid config \<and> mk_reconnection_timer config = Ok t \<and>
    2 * max_waiting_time config < 2 ^ 63 \<and>
    max_waiting_time config + max_jitter_waiting_time config < 2 ^ 63 \<and>
    (\<forall>j \<in> set js. 0 \<le> j \<and> j \<le> max_jitter_waiting_time config)"
  then have t: "rt_initial t = initial_waiting_time config" "rt_max t = max_waiting_time config"
      "rt_max_jitter t = max_jitter_waiting_time config" "rt_initial t \<le> rt_max t"
    by (auto simp: mk_reconnection_timer_def split: if_splits)
  have "waits js (timer_reset t) =
      Ok (map (\<lambda>i. min (rt_initial (timer_reset t) * 2 ^ (0 + i)) (rt_max (timer_reset t)) + js ! i) [0..<length js])"
    by (rule waits_from) (use a t in \<open>simp_all add: timer_reset_def reconnection_config_valid_def min_absorb1\<close>)
  then show "waits js (timer_reset t) =
        Ok (map (\<lambda>k. min (initial_waiting_time config * 2 ^ k) (max_waiting_time config) + js ! k) [0..<length js])"
    by (simp add: t timer_reset_def)
qed

theorem waiting_times_double_witness:
  "\<exists>t. mk_reconnection_timer default_reconnection_config = Ok t \<and>
     waits [0, 7, 0] (timer_reset t) = Ok [125000000, 250000007, 500000000]"
proof -
  obtain t where t: "mk_reconnection_timer default_reconnection_config = Ok t"
    by (simp add: mk_reconnection_timer_def default_reconnection_config_def)
  have "reconnection_config_valid default_reconnection_config"
    by (simp add: reconnection_config_valid_def default_reconnection_config_def)
  with waiting_times_double [of default_reconnection_config t "[0, 7, 0]"] t show ?thesis
    by (simp add: default_reconnection_config_def upt_rec)
qed

section \<open>The connector\<close>

text \<open>
  Connections are named by numbers. \<open>connecting\<close>: an attempt to connect is under way; \<open>waiting\<close>: the
  retry timer is armed. \<open>actions\<close> records what the connector asks for, in order.
\<close>

datatype connector_action =
    BeginConnect
  | StartConnection nat
  | CloseConnection nat
  | NotifyConnected
  | NotifyClosed
  | Wait int

record client_connector =
  cn_connection :: "nat option"
  is_stopped :: bool
  retry_timer :: reconnection_timer
  connecting :: bool
  waiting :: bool
  actions :: "connector_action list"

definition mk_connector :: "reconnection_config \<Rightarrow> (exn, client_connector) outcome" where
  "mk_connector config =
     bind_out (mk_reconnection_timer config) (\<lambda>t.
       Ok \<lparr>cn_connection = None, is_stopped = False, retry_timer = t, connecting = False, waiting = False, actions = []\<rparr>)"

definition record_action :: "connector_action \<Rightarrow> client_connector \<Rightarrow> client_connector" where
  "record_action a s = s\<lparr>actions := actions s @ [a]\<rparr>"

definition begin_connect :: "client_connector \<Rightarrow> client_connector" where
  "begin_connect s = record_action BeginConnect (s\<lparr>connecting := True\<rparr>)"

definition connector_start :: "client_connector \<Rightarrow> client_connector" where
  "connector_start s = begin_connect s"

definition connector_stop :: "client_connector \<Rightarrow> client_connector" where
  "connector_stop s =
     (if is_stopped s then s
      else (let s = s\<lparr>is_stopped := True\<rparr>;
                s = (case cn_connection s of
                       Some c \<Rightarrow> (record_action (CloseConnection c) s)\<lparr>cn_connection := None\<rparr>
                     | None \<Rightarrow> s)
            in s\<lparr>waiting := False\<rparr>))"

text \<open>\<open>on_connection\<close>: the test of \<open>is_stopped_\<close>, and what follows it under the lock.\<close>

definition on_connection_locked :: "nat \<Rightarrow> client_connector \<Rightarrow> client_connector" where
  "on_connection_locked c s =
     record_action NotifyConnected
       ((record_action (StartConnection c) (s\<lparr>cn_connection := Some c\<rparr>))
          \<lparr>retry_timer := timer_reset (retry_timer s)\<rparr>)"

definition on_connection :: "nat \<Rightarrow> client_connector \<Rightarrow> client_connector" where
  "on_connection c s = (if is_stopped s then s else on_connection_locked c s)"

definition on_connection_failure :: "int \<Rightarrow> (client_connector, unit) action" where
  "on_connection_failure jitter s =
     (if is_stopped s then (Ok (), s)
      else (case compute_waiting_time jitter (retry_timer s) of
              (Ok w, t) \<Rightarrow> (Ok (), record_action (Wait w) (s\<lparr>retry_timer := t, waiting := True\<rparr>))
            | (Throw e, t) \<Rightarrow> (Throw e, s)
            | (Undefined, t) \<Rightarrow> (Undefined, s)))"

definition on_connection_closed :: "client_connector \<Rightarrow> client_connector" where
  "on_connection_closed s =
     (if is_stopped s then s
      else begin_connect (record_action NotifyClosed (s\<lparr>cn_connection := None\<rparr>)))"

text \<open>The events of a connector, and when each can come.\<close>

datatype connector_event =
    Attempted "nat + int"
  | RetryFired
  | ConnectionLost nat
  | StopCalled

fun connector_exec :: "connector_event \<Rightarrow> (client_connector, unit) action" where
  "connector_exec (Attempted (Inl c)) s = (Ok (), on_connection c (s\<lparr>connecting := False\<rparr>))"
| "connector_exec (Attempted (Inr jitter)) s = on_connection_failure jitter (s\<lparr>connecting := False\<rparr>)"
| "connector_exec RetryFired s = (Ok (), begin_connect (s\<lparr>waiting := False\<rparr>))"
| "connector_exec (ConnectionLost c) s = (Ok (), on_connection_closed s)"
| "connector_exec StopCalled s = (Ok (), connector_stop s)"

fun can_happen :: "connector_event \<Rightarrow> client_connector \<Rightarrow> bool" where
  "can_happen (Attempted (Inl c)) s = connecting s"
| "can_happen (Attempted (Inr jitter)) s = (connecting s \<and> 0 \<le> jitter \<and> jitter \<le> rt_max_jitter (retry_timer s))"
| "can_happen RetryFired s = waiting s"
| "can_happen (ConnectionLost c) s = (cn_connection s = Some c \<or> is_stopped s)"
| "can_happen StopCalled s = True"

definition connector_init :: "client_connector \<Rightarrow> bool" where
  "connector_init s \<longleftrightarrow>
     (\<exists>config s0. reconnection_config_valid config \<and> 2 * max_waiting_time config < 2 ^ 63 \<and>
        max_waiting_time config + max_jitter_waiting_time config < 2 ^ 63 \<and>
        mk_connector config = Ok s0 \<and> s = connector_start s0)"

definition connector_step :: "client_connector \<Rightarrow> client_connector \<Rightarrow> bool" where
  "connector_step s s' \<longleftrightarrow> (\<exists>ev r. can_happen ev s \<and> connector_exec ev s = (r, s'))"

definition timer_ok :: "reconnection_timer \<Rightarrow> bool" where
  "timer_ok t \<longleftrightarrow>
     0 < rt_initial t \<and> rt_initial t \<le> next_wait_time t \<and> next_wait_time t \<le> rt_max t \<and>
     2 * rt_max t < 2 ^ 63 \<and> rt_max t + rt_max_jitter t < 2 ^ 63"

definition connector_inv :: "client_connector \<Rightarrow> bool" where
  "connector_inv s \<longleftrightarrow>
     timer_ok (retry_timer s) \<and>
     (\<not> is_stopped s \<longrightarrow>
        of_bool (cn_connection s \<noteq> None) + of_bool (connecting s) + of_bool (waiting s) = (1 :: nat)) \<and>
     (is_stopped s \<longrightarrow> cn_connection s = None \<and> \<not> waiting s)"

lemma compute_ok:
  assumes "timer_ok t" "0 \<le> j" "j \<le> rt_max_jitter t"
  shows "\<exists>t'. compute_waiting_time j t = (Ok (next_wait_time t + j), t') \<and> timer_ok t' \<and> rt_max_jitter t' = rt_max_jitter t"
proof -
  have "fits_int64 (next_wait_time t + j)" "fits_int64 (next_wait_time t * 2)"
    using assms by (auto simp: timer_ok_def fits_int64_def)
  then show ?thesis using assms(1)
    by (simp add: compute_waiting_time_def Let_def timer_ok_def)
qed

lemma connector_exec_ok:
  assumes inv: "connector_inv s" and ev: "can_happen ev s"
  shows "connector_inv (snd (connector_exec ev s)) \<and> fst (connector_exec ev s) = Ok ()"
proof (cases "(ev, s)" rule: connector_exec.cases)
  case (1 c s')
  then show ?thesis using inv ev
    by (auto simp: connector_inv_def on_connection_def on_connection_locked_def record_action_def timer_reset_def timer_ok_def)
next
  case (2 jitter s')
  then have j: "0 \<le> jitter" "jitter \<le> rt_max_jitter (retry_timer s)" using ev by simp_all
  have "timer_ok (retry_timer s)" using inv by (simp add: connector_inv_def)
  from compute_ok [OF this j] obtain t' where
    "compute_waiting_time jitter (retry_timer s) = (Ok (next_wait_time (retry_timer s) + jitter), t')" "timer_ok t'"
    by blast
  then show ?thesis using 2 inv ev
    by (auto simp: connector_inv_def on_connection_failure_def record_action_def)
next
  case (3 s')
  then show ?thesis using inv ev by (auto simp: connector_inv_def begin_connect_def record_action_def)
next
  case (4 c s')
  then show ?thesis using inv ev
    by (auto simp: connector_inv_def on_connection_closed_def begin_connect_def record_action_def)
next
  case (5 s')
  then show ?thesis using inv
    by (auto simp: connector_inv_def connector_stop_def record_action_def Let_def split: option.splits)
qed

interpretation connector_sys: invariant_system connector_init connector_step connector_inv
proof
  fix s
  assume "connector_init s"
  then show "connector_inv s"
    by (auto simp: connector_init_def connector_inv_def mk_connector_def mk_reconnection_timer_def
        connector_start_def begin_connect_def record_action_def timer_ok_def reconnection_config_valid_def
        bind_out_Ok_iff split: if_splits)
next
  fix s s'
  assume "connector_inv s" "connector_step s s'"
  then show "connector_inv s'" using connector_exec_ok by (fastforce simp: connector_step_def)
qed

text \<open>
  A client never gives up its connection and never works on two at a time: in every state of a
  started connector that was not stopped it has a connection, or it is connecting, or it waits to
  retry - exactly one of them; no event is undefined; and once it is stopped it has no connection
  and does not wait. This rests on the handlers being atomic: \<open>on_connection\<close> tests \<open>is_stopped_\<close>
  before it takes the lock, and a \<open>stop\<close> between the two leaves the stopped connector with a
  connection that was started and that nothing closes.
\<close>

theorem connector_always_active:
  assumes "reach connector_init connector_step s"
  shows "(\<not> is_stopped s \<longrightarrow>
      of_bool (cn_connection s \<noteq> None) + of_bool (connecting s) + of_bool (waiting s) = (1 :: nat)) \<and>
    (is_stopped s \<longrightarrow> cn_connection s = None \<and> \<not> waiting s) \<and>
    (\<forall>ev. can_happen ev s \<longrightarrow> fst (connector_exec ev s) = Ok ()) \<and>
    (let s' = on_connection_locked c (connector_stop s)
     in is_stopped s' \<and> cn_connection s' = Some c \<and> StartConnection c \<in> set (actions s') \<and> connector_stop s' = s')"
proof -
  have inv: "connector_inv s" using assms by (rule connector_sys.reach_inv)
  have "is_stopped (connector_stop s)" by (auto simp: connector_stop_def Let_def record_action_def split: option.splits)
  then have "let s' = on_connection_locked c (connector_stop s)
     in is_stopped s' \<and> cn_connection s' = Some c \<and> StartConnection c \<in> set (actions s') \<and> connector_stop s' = s'"
    by (simp add: on_connection_locked_def record_action_def Let_def connector_stop_def)
  moreover have "\<forall>ev. can_happen ev s \<longrightarrow> fst (connector_exec ev s) = Ok ()"
    using connector_exec_ok [OF inv] by blast
  ultimately show ?thesis using inv unfolding connector_inv_def by blast
qed

theorem connector_always_active_witness:
  "\<exists>s. reach connector_init connector_step s \<and> cn_connection s = Some 4 \<and> \<not> connecting s \<and> \<not> waiting s"
proof -
  obtain s0 where s0: "mk_connector default_reconnection_config = Ok s0" "is_stopped s0 = False"
    by (simp add: mk_connector_def mk_reconnection_timer_def default_reconnection_config_def)
  have "connector_init (connector_start s0)"
    unfolding connector_init_def
    by (intro exI [of _ default_reconnection_config] exI [of _ s0])
      (use s0(1) in \<open>simp add: reconnection_config_valid_def default_reconnection_config_def\<close>)
  then have r: "reach connector_init connector_step (connector_start s0)" by (rule reach_init)
  let ?s = "snd (connector_exec (Attempted (Inl 4)) (connector_start s0))"
  have "connector_step (connector_start s0) ?s"
    unfolding connector_step_def
    by (intro exI [of _ "Attempted (Inl 4)"] exI [of _ "Ok ()"])
      (simp add: connector_start_def begin_connect_def record_action_def)
  then have r2: "reach connector_init connector_step ?s" by (rule reach_step [OF r])
  moreover have s: "cn_connection ?s = Some 4" "\<not> is_stopped ?s"
    using s0(2) by (simp_all add: connector_start_def begin_connect_def record_action_def on_connection_def on_connection_locked_def)
  ultimately show ?thesis using connector_always_active [OF r2, of 0] by (intro exI [of _ ?s]) auto
qed

end
