(* ===== verification/Client.thy ===== *)
theory Client
  imports Client_Calls Message_Sender Client_Connector
begin

text \<open>
  The client (\<open>src/msgpack_rpc/clients/impl/client_impl.h\<close>, \<open>client_builder_impl.h\<close>,
  \<open>include/msgpack_rpc/clients\<close>): it owns an executor, a connector, a list of calls and a sender, and
  drops its pointers to them when it is stopped. The objects live on in the callbacks that captured
  them, so the pointers (\<open>_ptr\<close>) and the objects (\<open>_obj\<close>) are separate; using a null pointer is
  undefined.

  What the start of the connector and of the executor throw is an argument; the executor may also
  stop by itself, after an exception in one of its threads.
\<close>

record 'm client =
  executor_ptr :: bool
  connector_ptr :: bool
  call_list_ptr :: bool
  sender_ptr :: bool
  executor_running :: bool
  connector_obj :: client_connector
  calls_obj :: call_list
  sender_obj :: "'m message_sender"
  client_started :: bool
  client_stopped :: bool

text \<open>\<open>build\<close> up to \<open>client->start()\<close>; the constructor of the connector may throw.\<close>

definition mk_client :: "client_config \<Rightarrow> u32 \<Rightarrow> (exn, 'm client) outcome" where
  "mk_client config first_id =
     bind_out (mk_connector (reconnection config)) (\<lambda>connector.
       Ok \<lparr>executor_ptr = True, connector_ptr = True, call_list_ptr = True, sender_ptr = True,
          executor_running = False, connector_obj = connector,
          calls_obj = mk_call_list (cc_call_timeout config) first_id, sender_obj = mk_sender,
          client_started = False, client_stopped = False\<rparr>)"

definition deref :: "bool \<Rightarrow> ('s, unit) action" where
  "deref ptr s = (if ptr then (Ok (), s) else (Undefined, s))"

definition client_start ::
    "(exn, unit) outcome \<Rightarrow> (exn, unit) outcome \<Rightarrow> ('m client, unit) action" where
  "client_start connector_start_outcome executor_start_outcome s =
     (if client_started s
      then (throw_rpc PRECONDITION_NOT_MET ''This client has already been started.'', s)
      else bind_act (deref (connector_ptr s)) (\<lambda>_.
           bind_act (\<lambda>s. (connector_start_outcome, s\<lparr>connector_obj := connector_start (connector_obj s)\<rparr>)) (\<lambda>_.
           bind_act (deref (executor_ptr s)) (\<lambda>_ s.
             (executor_start_outcome, s\<lparr>executor_running := (executor_start_outcome = Ok ())\<rparr>))))
           (s\<lparr>client_started := True\<rparr>))"

text \<open>\<open>stop\<close>: the calls through the pointers and the resets, in the order of the code.\<close>

definition client_stop :: "('m client, unit) action" where
  "client_stop s =
     (if \<not> client_started s then (Ok (), s)
      else if client_stopped s then (Ok (), s)
      else bind_act (deref (connector_ptr s)) (\<lambda>_ s.
        (let s = s\<lparr>connector_obj := connector_stop (connector_obj s),
                   sender_obj := (sender_obj s)\<lparr>connection := None\<rparr>\<rparr>;
             s = s\<lparr>connector_ptr := False\<rparr>;
             s = s\<lparr>call_list_ptr := False\<rparr>;
             s = s\<lparr>sender_ptr := False\<rparr>
         in bind_act (deref (executor_ptr s)) (\<lambda>_ s.
              (Ok (), s\<lparr>executor_running := False, executor_ptr := False\<rparr>)) s))
        (s\<lparr>client_stopped := True\<rparr>))"

definition check_executor_state :: "('m client, unit) action" where
  "check_executor_state s =
     (if \<not> executor_ptr s \<or> \<not> executor_running s
      then (throw_rpc PRECONDITION_NOT_MET ''This client has been stopped.'', s)
      else (Ok (), s))"

text \<open>Operations on the list of calls and on the sender, through the pointers of the client.\<close>

definition on_calls :: "(call_list, 'a) action \<Rightarrow> ('m client, 'a) action" where
  "on_calls act s =
     (if \<not> call_list_ptr s then (Undefined, s)
      else (let (r, cl) = act (calls_obj s) in (r, s\<lparr>calls_obj := cl\<rparr>)))"

definition on_sender :: "('m message_sender \<Rightarrow> 'm message_sender) \<Rightarrow> ('m client, unit) action" where
  "on_sender f s = (if \<not> sender_ptr s then (Undefined, s) else (Ok (), s\<lparr>sender_obj := f (sender_obj s)\<rparr>))"

definition async_call :: "int \<Rightarrow> (u32 \<Rightarrow> (exn, 'm) outcome) \<Rightarrow> ('m client, nat) action" where
  "async_call now create_serialized_request =
     bind_act check_executor_state (\<lambda>_.
     bind_act (on_calls (create_call now create_serialized_request)) (\<lambda>(request_id, serialized_request, future).
     bind_act (on_sender (send_message serialized_request (Some request_id))) (\<lambda>_.
       return_act future)))"

definition client_notify :: "(exn, 'm) outcome \<Rightarrow> ('m client, unit) action" where
  "client_notify serialized_notification =
     bind_act check_executor_state (\<lambda>_.
     bind_act (lift_out serialized_notification) (\<lambda>msg.
       on_sender (send_message msg None)))"

section \<open>Events of a client\<close>

text \<open>
  The calls of the user, and what happens in the threads of the executor: it fails, a message is
  received, a call times out, something happens to the connection of the sender.
\<close>

datatype 'm client_event =
    CStart "(exn, unit) outcome" "(exn, unit) outcome"
  | CCall int "u32 \<Rightarrow> (exn, 'm) outcome"
  | CNotify "(exn, 'm) outcome"
  | CStop
  | CExecutorFailed
  | CReceived parsed_message
  | CTimeout u32
  | CSender "'m sender_event"

fun forget :: "(exn, 'a) outcome \<times> 's \<Rightarrow> (exn, unit) outcome \<times> 's" where
  "forget (Ok x, s) = (Ok (), s)"
| "forget (Throw e, s) = (Throw e, s)"
| "forget (Undefined, s) = (Undefined, s)"

fun client_exec :: "'m client_event \<Rightarrow> ('m client, unit) action" where
  "client_exec (CStart a b) s = client_start a b s"
| "client_exec (CCall now ser) s = forget (async_call now ser s)"
| "client_exec (CNotify m) s = client_notify m s"
| "client_exec CStop s = client_stop s"
| "client_exec CExecutorFailed s = (Ok (), s\<lparr>executor_running := False\<rparr>)"
| "client_exec (CReceived m) s = (let (r, cl) = process_received m (calls_obj s) in (r, s\<lparr>calls_obj := cl\<rparr>))"
| "client_exec (CTimeout i) s = (let (r, cl) = on_timeout i (calls_obj s) in (r, s\<lparr>calls_obj := cl\<rparr>))"
| "client_exec (CSender ev) s =
     (case sender_exec ev (sender_obj s) of
        Ok sd \<Rightarrow> (Ok (), s\<lparr>sender_obj := sd\<rparr>) | Throw e \<Rightarrow> (Throw e, s) | Undefined \<Rightarrow> (Undefined, s))"

fun is_user_call :: "'m client_event \<Rightarrow> bool" where
  "is_user_call (CStart a b) = True"
| "is_user_call (CCall now ser) = True"
| "is_user_call (CNotify m) = True"
| "is_user_call CStop = True"
| "is_user_call _ = False"

text \<open>The arguments of a call are sensible: the clock has room for the timeout, nothing that is passed is undefined.\<close>

fun sensible :: "'m client_event \<Rightarrow> 'm client \<Rightarrow> bool" where
  "sensible (CStart a b) s = (a \<noteq> Undefined \<and> b \<noteq> Undefined)"
| "sensible (CCall now ser) s = (clock_ok (now + call_timeout (calls_obj s)) \<and> (\<forall>i. ser i \<noteq> Undefined))"
| "sensible (CNotify m) s = (m \<noteq> Undefined)"
| "sensible _ s = True"

definition client_init :: "'m client \<Rightarrow> bool" where
  "client_init s \<longleftrightarrow> (\<exists>config i. mk_client config i = Ok s)"

definition client_step :: "'m client \<Rightarrow> 'm client \<Rightarrow> bool" where
  "client_step s s' \<longleftrightarrow> (\<exists>ev r. sensible ev s \<and> client_exec ev s = (r, s'))"

definition client_inv :: "'m client \<Rightarrow> bool" where
  "client_inv s \<longleftrightarrow>
     (executor_ptr s \<longrightarrow> connector_ptr s \<and> call_list_ptr s \<and> sender_ptr s) \<and>
     (client_stopped s \<longleftrightarrow> \<not> executor_ptr s) \<and> (client_stopped s \<longrightarrow> client_started s) \<and>
     (executor_running s \<longrightarrow> client_started s \<and> executor_ptr s) \<and>
     executor_alive (calls_obj s) \<and> calls_ok (calls_obj s)"

lemma call_ops_alive:
  "create_call now ser cl = (r, cl') \<Longrightarrow> executor_alive cl' = executor_alive cl"
  "process_received m cl = (r', cl') \<Longrightarrow> executor_alive cl' = executor_alive cl"
  "on_timeout i cl = (r', cl') \<Longrightarrow> executor_alive cl' = executor_alive cl"
  by (auto simp: create_call_eq create_entry_def generate_id_def Let_def process_received_def handle_response_def
      on_timeout_def return_act_def split: outcome.splits if_splits option.splits parsed_message.splits)

lemma create_call_defined:
  "executor_alive cl \<Longrightarrow> clock_ok (now + call_timeout cl) \<Longrightarrow> (\<And>i. ser i \<noteq> Undefined) \<Longrightarrow>
     fst (create_call now ser cl) \<noteq> Undefined"
  by (auto simp: create_call_eq create_entry_def add_time_def generate_id_def Let_def split: outcome.splits)

lemma create_call_ok: "calls_ok cl \<Longrightarrow> calls_ok (snd (create_call now ser cl))"
proof (cases rule: create_call_cases [of now ser cl])
  case (undef cl')
  assume ok: "calls_ok cl"
  have "cl' = cl \<or> cl' = cl\<lparr>next_id := next_id cl + 1\<rparr>"
    using undef by (auto simp: create_call_eq create_entry_def generate_id_def Let_def split: outcome.splits if_splits)
  then show ?thesis using ok undef by (auto simp: calls_ok_id)
qed (simp_all add: calls_ok_new calls_ok_id)

lemma client_exec_ok:
  assumes inv: "client_inv s" and sens: "sensible ev s"
  shows "client_inv (snd (client_exec ev s)) \<and> (is_user_call ev \<longrightarrow> fst (client_exec ev s) \<noteq> Undefined)"
proof (cases ev)
  case (CStart a b)
  then show ?thesis using inv sens
    by (cases a; cases b) (auto simp: client_start_def client_inv_def bind_act_def deref_def)
next
  case (CCall now ser)
  show ?thesis
  proof (cases "executor_ptr s \<and> executor_running s")
    case True
    obtain r cl where c: "create_call now ser (calls_obj s) = (r, cl)" by (cases "create_call now ser (calls_obj s)")
    have "r \<noteq> Undefined"
      using create_call_defined [of "calls_obj s" now ser] inv sens c CCall by (simp add: client_inv_def)
    moreover have "executor_alive cl" "calls_ok cl"
      using call_ops_alive(1) [OF c] create_call_ok [of "calls_obj s" now ser] inv c by (simp_all add: client_inv_def)
    ultimately show ?thesis using inv True c
      by (cases r) (auto simp: CCall async_call_def check_executor_state_def bind_act_def on_calls_def on_sender_def
          return_act_def client_inv_def)
  next
    case False
    then show ?thesis using inv
      by (auto simp: CCall async_call_def check_executor_state_def bind_act_def)
  qed
next
  case (CNotify m)
  then show ?thesis using inv sens
    by (cases m) (auto simp: client_notify_def check_executor_state_def bind_act_def lift_out_def on_sender_def client_inv_def)
next
  case CStop
  then show ?thesis using inv
    by (auto simp: client_stop_def client_inv_def bind_act_def deref_def Let_def)
next
  case CExecutorFailed
  then show ?thesis using inv by (simp add: client_inv_def)
next
  case (CReceived m)
  obtain r cl where c: "process_received m (calls_obj s) = (r, cl)" by (cases "process_received m (calls_obj s)")
  have "calls_ok cl" using c inv
    by (auto simp: process_received_def client_inv_def handle_response_eq calls_ok_answer split: parsed_message.splits)
  then show ?thesis using inv call_ops_alive(2) [OF c] by (simp add: CReceived c client_inv_def)
next
  case (CTimeout i)
  obtain r cl where c: "on_timeout i (calls_obj s) = (r, cl)" by (cases "on_timeout i (calls_obj s)")
  have "calls_ok cl" using c inv by (auto simp: client_inv_def on_timeout_answer calls_ok_answer)
  then show ?thesis using inv call_ops_alive(3) [OF c] by (simp add: CTimeout c client_inv_def)
next
  case (CSender ev)
  then show ?thesis using inv by (cases "sender_exec ev (sender_obj s)") (simp_all add: client_inv_def)
qed

interpretation client_sys: invariant_system client_init client_step client_inv
proof
  fix s :: "'m client"
  assume "client_init s"
  then obtain config i where c: "mk_client config i = Ok s" unfolding client_init_def by blast
  have "executor_alive (mk_call_list t i)" for t by (simp add: mk_call_list_def)
  then show "client_inv s" using c by (auto simp: mk_client_def bind_out_Ok_iff client_inv_def)
next
  fix s s' :: "'m client"
  assume "client_inv s" "client_step s s'"
  then show "client_inv s'" using client_exec_ok by (fastforce simp: client_step_def)
qed

text \<open>
  C22. The interface of a client is safe to use in any order: in every reachable state no call of
  the user dereferences a pointer that was reset, whatever was called before and whatever happened
  in the executor; a second \<open>start\<close> is refused, a second \<open>stop\<close> does nothing; and when the client was
  not started, was stopped or its executor failed, \<open>async_call\<close> and \<open>notify\<close> throw
  \<open>PRECONDITION_NOT_MET\<close> and change nothing.
\<close>

theorem client_interface_is_safe:
  assumes "reach client_init client_step s"
  shows "(\<forall>ev. is_user_call ev \<and> sensible ev s \<longrightarrow> fst (client_exec ev s) \<noteq> Undefined) \<and>
    (client_started s \<longrightarrow> client_start a b s = (throw_rpc PRECONDITION_NOT_MET ''This client has already been started.'', s)) \<and>
    (client_stopped s \<longrightarrow> client_stop s = (Ok (), s)) \<and>
    (\<not> client_started s \<or> client_stopped s \<or> \<not> executor_running s \<longrightarrow>
       async_call now ser s = (throw_rpc PRECONDITION_NOT_MET ''This client has been stopped.'', s) \<and>
       client_notify m s = (throw_rpc PRECONDITION_NOT_MET ''This client has been stopped.'', s))"
proof -
  have inv: "client_inv s" using assms by (rule client_sys.reach_inv)
  have "\<not> client_started s \<or> client_stopped s \<or> \<not> executor_running s \<longrightarrow>
      check_executor_state s = (throw_rpc PRECONDITION_NOT_MET ''This client has been stopped.'', s)"
    using inv by (auto simp: check_executor_state_def client_inv_def)
  then show ?thesis
    using client_exec_ok [OF inv] inv
    by (auto simp: client_start_def client_stop_def async_call_def client_notify_def client_inv_def)
qed

theorem client_interface_is_safe_witness:
  "\<exists>s :: nat client. reach client_init client_step s \<and> client_stopped s \<and>
     async_call 0 (\<lambda>i. Ok 1) s = (throw_rpc PRECONDITION_NOT_MET ''This client has been stopped.'', s)"
proof -
  obtain s0 :: "nat client" where s0: "mk_client (default_client_config 8192) 0 = Ok s0"
    by (simp add: mk_client_def mk_connector_def mk_reconnection_timer_def default_client_config_def default_reconnection_config_def)
  then have f: "client_started s0 = False" "client_stopped s0 = False" "connector_ptr s0" "executor_ptr s0"
    by (auto simp: mk_client_def bind_out_Ok_iff)
  have r0: "reach client_init client_step s0" using s0 by (intro reach_init) (auto simp: client_init_def)
  let ?s1 = "snd (client_exec (CStart (Ok ()) (Ok ())) s0)"
  have "client_step s0 ?s1"
    unfolding client_step_def
    by (intro exI [of _ "CStart (Ok ()) (Ok ())"] exI [of _ "fst (client_exec (CStart (Ok ()) (Ok ())) s0)"]) simp
  then have r1: "reach client_init client_step ?s1" by (rule reach_step [OF r0])
  let ?s2 = "snd (client_exec CStop ?s1)"
  have "client_step ?s1 ?s2"
    unfolding client_step_def by (intro exI [of _ CStop] exI [of _ "fst (client_exec CStop ?s1)"]) simp
  then have r2: "reach client_init client_step ?s2" by (rule reach_step [OF r1])
  have "client_stopped ?s2" using f
    by (simp add: client_start_def client_stop_def bind_act_def deref_def Let_def)
  then show ?thesis using client_interface_is_safe [OF r2] r2 by blast
qed

text \<open>A call of a running client, as its property below says it, for the proofs that use it.\<close>

lemma async_call_running:
  assumes inv: "client_inv s" and run: "executor_running s" and clock: "clock_ok (now + call_timeout (calls_obj s))"
    and ser: "ser (next_id (calls_obj s)) = Ok msg" and free: "calls (calls_obj s) (next_id (calls_obj s)) = None"
  shows "\<exists>f s'. async_call now ser s = (Ok f, s') \<and> calls_ok (calls_obj s') \<and>
    calls (calls_obj s') (next_id (calls_obj s)) = Some f \<and> fut_result (futures (calls_obj s') f) = None \<and>
    sender_obj s' = send_message msg (Some (next_id (calls_obj s))) (sender_obj s)"
proof -
  have p: "executor_ptr s" "call_list_ptr s" "sender_ptr s" "executor_alive (calls_obj s)" "calls_ok (calls_obj s)"
    using inv run by (simp_all add: client_inv_def)
  show ?thesis
  proof (cases rule: create_call_cases [of now ser "calls_obj s"])
    case (ok m d)
    have "m = msg" using ok(4) ser by simp
    then show ?thesis using p run ok(1) calls_ok_new [OF p(5) ok(2)]
      by (simp add: async_call_def check_executor_state_def on_calls_def on_sender_def bind_act_def return_act_def mk_future_def)
  next
    case (throw e g)
    then show ?thesis using p clock ser free
      by (simp add: create_call_eq create_entry_def add_time_def generate_id_def)
  next
    case (undef cl)
    then show ?thesis using p clock ser free
      by (simp add: create_call_eq create_entry_def add_time_def generate_id_def)
  qed
qed

text \<open>
  What a call of a running client does: it registers a fresh, unset future under the next id,
  hands the serialized request with that id to the sender behind the messages already accepted, and
  returns the future; when the serialization fails or the id is still in use nothing is sent.
\<close>

theorem async_call_registers_and_sends:
  assumes "reach client_init client_step s" and "executor_running s" and "clock_ok (now + call_timeout (calls_obj s))"
  shows "(\<forall>msg. ser (next_id (calls_obj s)) = Ok msg \<and> calls (calls_obj s) (next_id (calls_obj s)) = None \<longrightarrow>
      (\<exists>s'. async_call now ser s = (Ok (next_future (calls_obj s)), s') \<and>
        calls (calls_obj s') = (calls (calls_obj s))(next_id (calls_obj s) \<mapsto> next_future (calls_obj s)) \<and>
        futures (calls_obj s') (next_future (calls_obj s)) = mk_future (now + call_timeout (calls_obj s)) \<and>
        sender_obj s' = send_message msg (Some (next_id (calls_obj s))) (sender_obj s))) \<and>
    (\<forall>e. ser (next_id (calls_obj s)) = Throw e \<longrightarrow>
      fst (async_call now ser s) = Throw e \<and> sender_obj (snd (async_call now ser s)) = sender_obj s) \<and>
    (\<forall>msg. ser (next_id (calls_obj s)) = Ok msg \<and> calls (calls_obj s) (next_id (calls_obj s)) \<noteq> None \<longrightarrow>
      fst (async_call now ser s) = throw_rpc UNEXPECTED_ERROR ''Duplicate request ID.'' \<and>
      sender_obj (snd (async_call now ser s)) = sender_obj s)"
proof -
  have inv: "client_inv s" using assms(1) by (rule client_sys.reach_inv)
  then have p: "executor_ptr s" "call_list_ptr s" "sender_ptr s" "executor_alive (calls_obj s)"
    using assms(2) by (simp_all add: client_inv_def)
  show ?thesis using p assms(2,3)
    by (auto simp: async_call_def check_executor_state_def on_calls_def on_sender_def create_call_eq create_entry_def
        add_time_def generate_id_def bind_act_def return_act_def)
qed

theorem async_call_registers_and_sends_witness:
  "\<exists>s s' :: nat client. reach client_init client_step s \<and> async_call 0 (\<lambda>i. Ok 1) s = (Ok 0, s') \<and>
     sent_messages (sender_obj s') = [(1, Some 0)]"
proof -
  obtain s0 :: "nat client" where s0: "mk_client (default_client_config 8192) 0 = Ok s0"
    by (simp add: mk_client_def mk_connector_def mk_reconnection_timer_def default_client_config_def default_reconnection_config_def)
  then have f: "client_started s0 = False" "connector_ptr s0" "executor_ptr s0" "sender_obj s0 = mk_sender"
      "calls_obj s0 = mk_call_list 15000000000 0"
    by (auto simp: mk_client_def bind_out_Ok_iff default_client_config_def)
  have r0: "reach client_init client_step s0" using s0 by (intro reach_init) (auto simp: client_init_def)
  let ?s1 = "snd (client_exec (CStart (Ok ()) (Ok ())) s0)"
  have "client_step s0 ?s1"
    unfolding client_step_def
    by (intro exI [of _ "CStart (Ok ()) (Ok ())"] exI [of _ "fst (client_exec (CStart (Ok ()) (Ok ())) s0)"]) simp
  then have r1: "reach client_init client_step ?s1" by (rule reach_step [OF r0])
  have e: "executor_running ?s1" "calls_obj ?s1 = mk_call_list 15000000000 0" "sender_obj ?s1 = mk_sender"
    using f by (simp_all add: client_start_def bind_act_def deref_def)
  have "clock_ok (0 + call_timeout (calls_obj ?s1))" unfolding e(2) by (simp add: mk_call_list_def clock_ok_def)
  from async_call_registers_and_sends [OF r1 e(1) this, of "\<lambda>i. Ok 1"] obtain s' where
    "async_call 0 (\<lambda>i. Ok 1) ?s1 = (Ok 0, s')" "sender_obj s' = send_message 1 (Some 0) mk_sender"
    unfolding e(2,3) by (auto simp: mk_call_list_def)
  then show ?thesis using r1
    by (intro exI [of _ ?s1] exI [of _ s']) (simp add: send_message_def send_next_def mk_sender_def queue_push_def)
qed

end
