(* ===== verification/Executors.thy ===== *)
theory Executors
  imports Exceptions Config
begin

text \<open>
  The executors (\<open>src/msgpack_rpc/executors\<close>): threads that run asio contexts.

  A \<open>GeneralExecutor\<close> holds one context and one thread for every configured transport thread and
  callback thread. \<open>asio::io_context\<close> is not part of the repository; of a context the executor uses
  whether it was stopped and whether its work guard still holds it open, and relies on \<open>run\<close>
  being able to return once it was stopped or the guard is gone. When \<open>run\<close> returns or throws is an
  event of the model. \<open>std::thread::join\<close> blocks: \<open>stop\<close> is split before the joins, and the joins
  are possible only when every thread has ended. \<open>Undefined\<close> also stands for \<open>std::terminate\<close>, which
  a thread object calls when it is destroyed while joinable and when an exception leaves a thread.

  The lemmas show that the contexts are used in turn, and that every thread that was started ends
  and is joined before its context is destroyed.
\<close>

section \<open>State\<close>

datatype operation_type = TRANSPORT | CALLBACK

datatype std_thread = No_thread | Running | Ended

fun joinable :: "std_thread \<Rightarrow> bool" where
  "joinable No_thread = False"
| "joinable Running = True"
| "joinable Ended = True"

record context_thread_pair =
  ctx_stopped :: bool
  ctx_guard :: bool
  ctx_thread :: std_thread

definition mk_pair :: context_thread_pair where
  "mk_pair = \<lparr>ctx_stopped = False, ctx_guard = True, ctx_thread = No_thread\<rparr>"

text \<open>Where the caller of \<open>start\<close> or \<open>stop\<close> is: not inside, or at the joins of one of them.\<close>

datatype executor_pc = At_rest | Joining_for_stop | Joining_after_failure

record general_executor =
  transport_pairs :: "context_thread_pair list"
  callback_pairs :: "context_thread_pair list"
  transport_index :: u64
  callback_index :: u64
  ex_started :: bool
  ex_stopped :: bool
  exception_in_thread :: "exn option"
  exception_callbacks :: "nat list"
  callbacks_called :: "(nat \<times> exn) list"
  ex_pc :: executor_pc

definition mk_general_executor :: "executor_config \<Rightarrow> general_executor" where
  "mk_general_executor config =
     \<lparr>transport_pairs = replicate (unat (num_transport_threads config)) mk_pair,
      callback_pairs = replicate (unat (num_callback_threads config)) mk_pair,
      transport_index = 0, callback_index = 0, ex_started = False, ex_stopped = False,
      exception_in_thread = None, exception_callbacks = [], callbacks_called = [],
      ex_pc = At_rest\<rparr>"

fun pairs_of :: "operation_type \<Rightarrow> general_executor \<Rightarrow> context_thread_pair list" where
  "pairs_of TRANSPORT ex = transport_pairs ex"
| "pairs_of CALLBACK ex = callback_pairs ex"

definition map_pairs ::
  "(context_thread_pair \<Rightarrow> context_thread_pair) \<Rightarrow> general_executor \<Rightarrow> general_executor" where
  "map_pairs f ex = ex\<lparr>transport_pairs := map f (transport_pairs ex),
     callback_pairs := map f (callback_pairs ex)\<rparr>"

definition all_pairs :: "general_executor \<Rightarrow> context_thread_pair list" where
  "all_pairs ex = transport_pairs ex @ callback_pairs ex"

section \<open>Choosing a context\<close>

definition get_context_index :: "u64 \<Rightarrow> nat \<Rightarrow> (exn, nat) outcome \<times> u64" where
  "get_context_index index n = (if n = 0 then Undefined else Ok (unat index mod n), index + 1)"

definition executor_context :: "operation_type \<Rightarrow> (general_executor, nat) action" where
  "executor_context type ex = (case type of
     TRANSPORT \<Rightarrow> (let (r, i) = get_context_index (transport_index ex) (length (transport_pairs ex))
                   in (r, ex\<lparr>transport_index := i\<rparr>))
   | CALLBACK \<Rightarrow> (let (r, i) = get_context_index (callback_index ex) (length (callback_pairs ex))
                   in (r, ex\<lparr>callback_index := i\<rparr>)))"

section \<open>Starting and stopping\<close>

text \<open>\<open>can_create k\<close> tells whether the \<open>k\<close>-th thread can be created: \<open>std::thread\<close> may throw.\<close>

fun spawn_threads ::
  "(nat \<Rightarrow> bool) \<Rightarrow> nat \<Rightarrow> context_thread_pair list \<Rightarrow> bool \<times> context_thread_pair list" where
  "spawn_threads can_create k [] = (True, [])"
| "spawn_threads can_create k (p # ps) =
     (if can_create k then
        (let (ok, qs) = spawn_threads can_create (Suc k) ps in (ok, p\<lparr>ctx_thread := Running\<rparr> # qs))
      else (False, p # ps))"

definition async_stop_threads_gently :: "general_executor \<Rightarrow> general_executor" where
  "async_stop_threads_gently = map_pairs (\<lambda>p. p\<lparr>ctx_guard := False\<rparr>)"

definition interrupt_threads :: "general_executor \<Rightarrow> general_executor" where
  "interrupt_threads = map_pairs (\<lambda>p. p\<lparr>ctx_stopped := True\<rparr>)"

text \<open>
  \<open>stop_threads\<close>: the guards go first; the joins return when every thread has ended.
\<close>

definition join_threads :: "general_executor \<Rightarrow> general_executor option" where
  "join_threads ex = (if \<forall>p \<in> set (all_pairs ex). ctx_thread p \<noteq> Running
     then Some (map_pairs (\<lambda>p. p\<lparr>ctx_thread := No_thread\<rparr>) ex) else None)"

definition start_threads :: "(nat \<Rightarrow> bool) \<Rightarrow> (general_executor, unit) action" where
  "start_threads can_create ex =
     (let (ok1, ts) = spawn_threads can_create 0 (transport_pairs ex);
          ex1 = ex\<lparr>transport_pairs := ts\<rparr>
      in if ok1 then
        (let (ok2, cs) = spawn_threads can_create (length (transport_pairs ex)) (callback_pairs ex);
             ex2 = ex1\<lparr>callback_pairs := cs\<rparr>
         in if ok2 then (Ok (), ex2)
            else (Throw (StdException ''thread''),
              (async_stop_threads_gently ex2)\<lparr>ex_pc := Joining_after_failure\<rparr>))
      else (Throw (StdException ''thread''),
              (async_stop_threads_gently ex1)\<lparr>ex_pc := Joining_after_failure\<rparr>))"

definition executor_start :: "(nat \<Rightarrow> bool) \<Rightarrow> (general_executor, unit) action" where
  "executor_start can_create ex =
     (if ex_started ex then
        throw_act (rpc_error PRECONDITION_NOT_MET ''An executor must not be run multiple times.'') ex
      else start_threads can_create (ex\<lparr>ex_started := True\<rparr>))"

definition executor_stop :: "(general_executor, unit) action" where
  "executor_stop ex =
     (if ex_stopped ex then (Ok (), ex)
      else (Ok (), (async_stop_threads_gently (ex\<lparr>ex_stopped := True\<rparr>))\<lparr>ex_pc := Joining_for_stop\<rparr>))"

definition clear_pairs :: "(general_executor, unit) action" where
  "clear_pairs ex =
     (if \<exists>p \<in> set (all_pairs ex). joinable (ctx_thread p) then (Undefined, ex)
      else (Ok (), ex\<lparr>transport_pairs := [], callback_pairs := []\<rparr>))"

definition executor_joined :: "(general_executor, unit) action" where
  "executor_joined ex = (case join_threads ex of
     None \<Rightarrow> (Ok (), ex)
   | Some ex' \<Rightarrow>
       (case ex_pc ex' of
          At_rest \<Rightarrow> (Ok (), ex)
        | Joining_after_failure \<Rightarrow> (Ok (), ex'\<lparr>ex_pc := At_rest\<rparr>)
        | Joining_for_stop \<Rightarrow> clear_pairs (ex'\<lparr>ex_pc := At_rest\<rparr>)))"

section \<open>Threads\<close>

fun set_pair :: "operation_type \<Rightarrow> nat \<Rightarrow> context_thread_pair \<Rightarrow> general_executor \<Rightarrow> general_executor" where
  "set_pair TRANSPORT i p ex = ex\<lparr>transport_pairs := (transport_pairs ex)[i := p]\<rparr>"
| "set_pair CALLBACK i p ex = ex\<lparr>callback_pairs := (callback_pairs ex)[i := p]\<rparr>"

text \<open>
  \<open>run_in_thread\<close>, from the point where \<open>context.run()\<close> of thread \<open>i\<close> ends with \<open>r\<close>.
\<close>

definition run_in_thread :: "operation_type \<Rightarrow> nat \<Rightarrow> (exn, unit) outcome \<Rightarrow> (general_executor, unit) action" where
  "run_in_thread type i r ex =
     (let ended = (\<lambda>ex. set_pair type i ((pairs_of type ex ! i)\<lparr>ctx_thread := Ended\<rparr>) ex) in
      case r of
        Ok _ \<Rightarrow> (Ok (), ended ex)
      | Throw e \<Rightarrow>
          if is_std_exception e then
            (let ex1 = interrupt_threads (ex\<lparr>exception_in_thread := Some e\<rparr>);
                 ex2 = ex1\<lparr>callbacks_called := callbacks_called ex1 @
                   map (\<lambda>cb. (cb, e)) (exception_callbacks ex1)\<rparr>
             in (Ok (), ended ex2))
          else (Undefined, ex)
      | Undefined \<Rightarrow> (Undefined, ex))"

definition last_exception :: "general_executor \<Rightarrow> exn option" where
  "last_exception ex = exception_in_thread ex"

definition on_exception :: "nat \<Rightarrow> (general_executor, unit) action" where
  "on_exception callback ex =
     (Ok (), ex\<lparr>exception_callbacks := exception_callbacks ex @ [callback]\<rparr>)"

definition is_running :: "general_executor \<Rightarrow> bool" where
  "is_running ex \<longleftrightarrow>
     (if exception_in_thread ex \<noteq> None then False else ex_started ex \<and> \<not> ex_stopped ex)"

text \<open>A start that succeeds.\<close>

lemma spawn_all: "\<forall>k. c k \<Longrightarrow> spawn_threads c j ps = (True, map (\<lambda>p. p\<lparr>ctx_thread := Running\<rparr>) ps)"
  by (induction ps arbitrary: j) simp_all

lemma executor_start_all:
  assumes "\<not> ex_started ex" and "\<forall>k. c k"
  shows "executor_start c ex = (Ok (), (map_pairs (\<lambda>p. p\<lparr>ctx_thread := Running\<rparr>) ex)\<lparr>ex_started := True\<rparr>)"
  using assms by (simp add: executor_start_def start_threads_def spawn_all map_pairs_def)

section \<open>The contexts are used in turn\<close>

fun context_picks :: "operation_type \<Rightarrow> nat \<Rightarrow> (general_executor, nat list) action" where
  "context_picks type 0 = return_act []"
| "context_picks type (Suc n) =
     bind_act (context_picks type n) (\<lambda>is.
       bind_act (executor_context type) (\<lambda>i. return_act (is @ [i])))"

fun index_of :: "operation_type \<Rightarrow> general_executor \<Rightarrow> u64" where
  "index_of TRANSPORT ex = transport_index ex"
| "index_of CALLBACK ex = callback_index ex"

lemma executor_context_Ok:
  assumes "0 < length (pairs_of type ex)"
  shows "\<exists>ex'. executor_context type ex = (Ok (unat (index_of type ex) mod length (pairs_of type ex)), ex') \<and>
    index_of type ex' = index_of type ex + 1 \<and> pairs_of type ex' = pairs_of type ex"
  using assms by (cases type) (simp_all add: executor_context_def get_context_index_def)

lemma context_picks_Ok:
  assumes "0 < length (pairs_of type ex)" and "unat (index_of type ex) = 0" and "n \<le> 2 ^ 64"
  shows "\<exists>ex'. context_picks type n ex = (Ok (map (\<lambda>k. k mod length (pairs_of type ex)) [0..<n]), ex') \<and>
    index_of type ex' = of_nat n \<and> pairs_of type ex' = pairs_of type ex"
  using assms(3)
proof (induction n)
  case 0
  then show ?case using assms(2) by (simp add: unat_eq_0)
next
  case (Suc n)
  then obtain ex1 where e: "context_picks type n ex =
      (Ok (map (\<lambda>k. k mod length (pairs_of type ex)) [0..<n]), ex1)"
    "index_of type ex1 = of_nat n" "pairs_of type ex1 = pairs_of type ex" by auto
  have n: "unat (of_nat n :: u64) = n" using Suc.prems by (simp add: unat_of_nat take_bit_nat_eq_self)
  from executor_context_Ok [of type ex1] assms(1) e n obtain ex2 where
    "executor_context type ex1 = (Ok (n mod length (pairs_of type ex)), ex2)"
    "index_of type ex2 = of_nat n + 1" "pairs_of type ex2 = pairs_of type ex" by auto
  with e show ?case by (simp add: add.commute)
qed

lemma count_in_turn:
  "i < N \<Longrightarrow> count_list (map (\<lambda>k. k mod N) [0..<n]) i = n div N + (if i < n mod N then 1 else 0)"
proof (induction n)
  case 0
  then show ?case by simp
next
  case (Suc n)
  then show ?case
    by (cases "Suc (n mod N) = N") (auto simp: div_Suc mod_Suc split: if_splits)
qed

section \<open>What can happen to an executor\<close>

datatype executor_event =
    Ev_start "nat \<Rightarrow> bool"
  | Ev_stop
  | Ev_joined
  | Ev_thread operation_type nat "(exn, unit) outcome"
  | Ev_context operation_type
  | Ev_on_exception nat

fun executor_exec :: "executor_event \<Rightarrow> (general_executor, unit) action" where
  "executor_exec (Ev_start can_create) ex = executor_start can_create ex"
| "executor_exec Ev_stop ex = executor_stop ex"
| "executor_exec Ev_joined ex = executor_joined ex"
| "executor_exec (Ev_thread type i r) ex = run_in_thread type i r ex"
| "executor_exec (Ev_context type) ex = bind_act (executor_context type) (\<lambda>_. return_act ()) ex"
| "executor_exec (Ev_on_exception callback) ex = on_exception callback ex"

text \<open>
  A thread ends normally only when its context was stopped or lost its guard. The handlers throw
  only exceptions derived from \<open>std::exception\<close>. Contexts are asked for before \<open>stop\<close>.
\<close>

fun thread_may_end :: "context_thread_pair \<Rightarrow> (exn, unit) outcome \<Rightarrow> bool" where
  "thread_may_end p (Ok _) = (ctx_thread p = Running \<and> (ctx_stopped p \<or> \<not> ctx_guard p))"
| "thread_may_end p (Throw e) = (ctx_thread p = Running \<and> is_std_exception e)"
| "thread_may_end p Undefined = False"

fun executor_allowed :: "executor_event \<Rightarrow> general_executor \<Rightarrow> bool" where
  "executor_allowed (Ev_start _) ex = (ex_pc ex = At_rest)"
| "executor_allowed Ev_stop ex = (ex_pc ex \<noteq> Joining_after_failure)"
| "executor_allowed Ev_joined ex = (ex_pc ex \<noteq> At_rest \<and> join_threads ex \<noteq> None)"
| "executor_allowed (Ev_thread type i r) ex =
     (i < length (pairs_of type ex) \<and> thread_may_end (pairs_of type ex ! i) r)"
| "executor_allowed (Ev_context type) ex = (\<not> ex_stopped ex)"
| "executor_allowed (Ev_on_exception _) ex = True"

definition executor_init :: "executor_config \<Rightarrow> general_executor \<Rightarrow> bool" where
  "executor_init config ex \<longleftrightarrow> executor_config_valid config \<and> ex = mk_general_executor config"

definition executor_step :: "general_executor \<Rightarrow> general_executor \<Rightarrow> bool" where
  "executor_step ex ex' \<longleftrightarrow> (\<exists>ev. executor_allowed ev ex \<and> ex' = snd (executor_exec ev ex))"

definition executor_inv :: "executor_config \<Rightarrow> general_executor \<Rightarrow> bool" where
  "executor_inv config ex \<longleftrightarrow>
     executor_config_valid config \<and>
     (if ex_stopped ex \<and> ex_pc ex = At_rest then all_pairs ex = []
      else length (transport_pairs ex) = unat (num_transport_threads config) \<and>
           length (callback_pairs ex) = unat (num_callback_threads config)) \<and>
     (\<not> ex_started ex \<longrightarrow> (\<forall>p \<in> set (all_pairs ex). ctx_thread p = No_thread)) \<and>
     (ex_pc ex \<noteq> At_rest \<longrightarrow> (\<forall>p \<in> set (all_pairs ex). \<not> ctx_guard p)) \<and>
     (ex_pc ex = Joining_for_stop \<longrightarrow> ex_stopped ex) \<and>
     (ex_pc ex = Joining_after_failure \<longrightarrow> ex_started ex \<and> \<not> ex_stopped ex) \<and>
     (exception_in_thread ex \<noteq> None \<longrightarrow> (\<forall>p \<in> set (all_pairs ex). ctx_stopped p))"

lemma set_all_map_pairs [simp]: "set (all_pairs (map_pairs f ex)) = f ` set (all_pairs ex)"
  by (auto simp: all_pairs_def map_pairs_def)

lemma map_pairs_simps [simp]:
  "length (transport_pairs (map_pairs f ex)) = length (transport_pairs ex)"
  "length (callback_pairs (map_pairs f ex)) = length (callback_pairs ex)"
  "ex_started (map_pairs f ex) = ex_started ex" "ex_stopped (map_pairs f ex) = ex_stopped ex"
  "ex_pc (map_pairs f ex) = ex_pc ex" "exception_in_thread (map_pairs f ex) = exception_in_thread ex"
  "all_pairs (ex\<lparr>ex_pc := pc\<rparr>) = all_pairs ex" "all_pairs (ex\<lparr>ex_started := b\<rparr>) = all_pairs ex"
  "all_pairs (ex\<lparr>ex_stopped := b\<rparr>) = all_pairs ex"
  "all_pairs (ex\<lparr>exception_in_thread := e\<rparr>) = all_pairs ex"
  "all_pairs (ex\<lparr>callbacks_called := l\<rparr>) = all_pairs ex"
  "all_pairs (ex\<lparr>exception_callbacks := k\<rparr>) = all_pairs ex"
  "all_pairs (ex\<lparr>transport_index := i\<rparr>) = all_pairs ex"
  "all_pairs (ex\<lparr>callback_index := i\<rparr>) = all_pairs ex"
  by (simp_all add: map_pairs_def all_pairs_def)

lemma spawn_length: "length (snd (spawn_threads c k ps)) = length ps"
  by (induction c k ps rule: spawn_threads.induct) (auto split: prod.splits)

lemma spawn_flags:
  "(\<forall>p \<in> set ps. ctx_stopped p) \<Longrightarrow> \<forall>p \<in> set (snd (spawn_threads c k ps)). ctx_stopped p"
  by (induction c k ps rule: spawn_threads.induct) (auto split: prod.splits)

lemma set_pair_simps:
  "i < length (pairs_of type ex) \<Longrightarrow>
     set (all_pairs (set_pair type i p ex)) \<subseteq> insert p (set (all_pairs ex))"
  "length (transport_pairs (set_pair type i p ex)) = length (transport_pairs ex)"
  "length (callback_pairs (set_pair type i p ex)) = length (callback_pairs ex)"
  "ex_started (set_pair type i p ex) = ex_started ex" "ex_stopped (set_pair type i p ex) = ex_stopped ex"
  "ex_pc (set_pair type i p ex) = ex_pc ex"
  "exception_in_thread (set_pair type i p ex) = exception_in_thread ex"
  "all_pairs (set_pair type i p ex) = [] \<longleftrightarrow> all_pairs ex = []"
  by (cases type; auto simp: all_pairs_def dest: set_update_subset_insert [THEN subsetD])+

lemma pairs_of_mem: "i < length (pairs_of type ex) \<Longrightarrow> pairs_of type ex ! i \<in> set (all_pairs ex)"
  by (cases type) (auto simp: all_pairs_def)

lemma executor_start_ok:
  assumes inv: "executor_inv config ex" and rest: "ex_pc ex = At_rest"
  shows "fst (executor_start c ex) \<noteq> Undefined \<and> executor_inv config (snd (executor_start c ex))"
proof (cases "ex_started ex")
  case True
  then show ?thesis using inv by (simp add: executor_start_def)
next
  case False
  define ex0 where "ex0 = ex\<lparr>ex_started := True\<rparr>"
  obtain ok1 ts where t: "spawn_threads c 0 (transport_pairs ex0) = (ok1, ts)" by fastforce
  obtain ok2 cs where s: "spawn_threads c (length (transport_pairs ex0)) (callback_pairs ex0) = (ok2, cs)"
    by fastforce
  define ex1 where "ex1 = ex0\<lparr>transport_pairs := ts\<rparr>"
  define ex2 where "ex2 = ex1\<lparr>callback_pairs := cs\<rparr>"
  have len: "length ts = length (transport_pairs ex)" "length cs = length (callback_pairs ex)"
    using spawn_length [of c 0 "transport_pairs ex0"]
      spawn_length [of c "length (transport_pairs ex0)" "callback_pairs ex0"] t s
    by (simp_all add: ex0_def)
  have ts: "ts = snd (spawn_threads c 0 (transport_pairs ex))"
    and cs: "cs = snd (spawn_threads c (length (transport_pairs ex)) (callback_pairs ex))"
    using t s by (simp_all add: ex0_def)
  have all_stopped: "exception_in_thread ex \<noteq> None \<Longrightarrow> \<forall>p \<in> set (all_pairs ex). ctx_stopped p"
    using inv unfolding executor_inv_def by blast
  have stopped: "(\<forall>p \<in> set ts. ctx_stopped p) \<and> (\<forall>p \<in> set cs. ctx_stopped p) \<and>
      (\<forall>p \<in> set (callback_pairs ex). ctx_stopped p)" if "exception_in_thread ex \<noteq> None"
  proof -
    have "\<forall>p \<in> set (transport_pairs ex). ctx_stopped p" "\<forall>p \<in> set (callback_pairs ex). ctx_stopped p"
      using all_stopped [OF that] by (simp_all add: all_pairs_def)
    then show ?thesis unfolding ts cs by (intro conjI spawn_flags)
  qed
  have empty: "ex_stopped ex \<Longrightarrow> transport_pairs ex = [] \<and> callback_pairs ex = []"
    using inv rest by (simp add: executor_inv_def all_pairs_def)
  have sizes: "\<not> ex_stopped ex \<Longrightarrow> length (transport_pairs ex) = unat (num_transport_threads config) \<and>
      length (callback_pairs ex) = unat (num_callback_threads config)"
    using inv by (simp add: executor_inv_def)
  have stop1: "exception_in_thread ex \<noteq> None \<Longrightarrow> \<forall>p \<in> set (ts @ callback_pairs ex). ctx_stopped p"
    using stopped by (simp add: ball_Un)
  have stop2: "exception_in_thread ex \<noteq> None \<Longrightarrow> \<forall>p \<in> set (ts @ cs). ctx_stopped p"
    using stopped by (simp add: ball_Un)
  have valid: "executor_config_valid config" using inv by (simp add: executor_inv_def)
  have inv1: "executor_inv config ex1"
    using valid rest len empty sizes stop1
    by (cases "ex_stopped ex") (simp_all add: executor_inv_def ex1_def ex0_def all_pairs_def)
  have inv2: "executor_inv config ex2"
    using valid rest len empty sizes stop2
    by (cases "ex_stopped ex") (simp_all add: executor_inv_def ex2_def ex1_def ex0_def all_pairs_def)
  have rolled: "executor_inv config ((async_stop_threads_gently e)\<lparr>ex_pc := Joining_after_failure\<rparr>)"
    if "executor_inv config e" "ex_pc e = At_rest" "ex_started e" "\<not> ex_stopped e" for e
    using that by (auto simp: executor_inv_def async_stop_threads_gently_def)
  have none: "ok1 \<and> ok2" if "ex_stopped ex"
    using inv rest that t s by (auto simp: executor_inv_def all_pairs_def ex0_def)
  have pcs: "ex_pc ex1 = At_rest" "ex_pc ex2 = At_rest" "ex_started ex1" "ex_started ex2"
    "ex_stopped ex1 = ex_stopped ex" "ex_stopped ex2 = ex_stopped ex"
    using rest by (simp_all add: ex1_def ex2_def ex0_def)
  have "executor_start c ex = (if ok1 then if ok2 then (Ok (), ex2)
      else (Throw (StdException ''thread''), (async_stop_threads_gently ex2)\<lparr>ex_pc := Joining_after_failure\<rparr>)
      else (Throw (StdException ''thread''), (async_stop_threads_gently ex1)\<lparr>ex_pc := Joining_after_failure\<rparr>))"
    using False t s by (simp add: executor_start_def start_threads_def ex0_def ex1_def ex2_def)
  then show ?thesis
    using inv1 inv2 rolled [of ex1] rolled [of ex2] pcs none by (cases ok1; cases ok2; cases "ex_stopped ex") simp_all
qed

lemma executor_joined_ok:
  assumes inv: "executor_inv config ex" and j: "join_threads ex = Some ex'" and pc: "ex_pc ex \<noteq> At_rest"
  shows "\<exists>ex2. executor_joined ex = (Ok (), ex2) \<and> executor_inv config ex2 \<and> ex_pc ex2 = At_rest \<and>
    ex_stopped ex2 = ex_stopped ex \<and> (\<forall>p \<in> set (all_pairs ex2). ctx_thread p = No_thread)"
proof -
  have ex': "ex' = map_pairs (\<lambda>p. p\<lparr>ctx_thread := No_thread\<rparr>) ex"
    using j by (simp add: join_threads_def split: if_splits)
  show ?thesis
  proof (cases "ex_pc ex")
    case At_rest
    then show ?thesis using pc by simp
  next
    case Joining_for_stop
    then have "executor_joined ex = (Ok (), ex'\<lparr>ex_pc := At_rest, transport_pairs := [], callback_pairs := []\<rparr>)"
      using j ex' by (auto simp: executor_joined_def clear_pairs_def)
    moreover have "ex_stopped ex" using inv Joining_for_stop by (simp add: executor_inv_def)
    ultimately show ?thesis using inv ex' by (simp add: executor_inv_def all_pairs_def map_pairs_def)
  next
    case Joining_after_failure
    then have e: "executor_joined ex = (Ok (), ex'\<lparr>ex_pc := At_rest\<rparr>)"
      using j ex' by (simp add: executor_joined_def)
    show ?thesis using inv ex' e Joining_after_failure by (auto simp: executor_inv_def)
  qed
qed

lemma run_in_thread_ok:
  assumes inv: "executor_inv config ex" and i: "i < length (pairs_of type ex)"
    and r: "thread_may_end (pairs_of type ex ! i) r"
  shows "fst (run_in_thread type i r ex) \<noteq> Undefined \<and> executor_inv config (snd (run_in_thread type i r ex))"
proof -
  have started: "ex_started ex"
    using inv r pairs_of_mem [OF i] by (cases r) (auto simp: executor_inv_def)
  have ended: "executor_inv config (set_pair type i ((pairs_of type e ! i)\<lparr>ctx_thread := Ended\<rparr>) e)"
    if inv: "executor_inv config e" and i: "i < length (pairs_of type e)" and s: "ex_started e" for e
  proof -
    let ?p = "(pairs_of type e ! i)\<lparr>ctx_thread := Ended\<rparr>"
    have "set (all_pairs (set_pair type i ?p e)) \<subseteq> insert ?p (set (all_pairs e))"
      using set_pair_simps(1) [OF i] .
    moreover have "pairs_of type e ! i \<in> set (all_pairs e)" using pairs_of_mem [OF i] .
    ultimately have "(ex_pc e \<noteq> At_rest \<longrightarrow> (\<forall>p \<in> set (all_pairs (set_pair type i ?p e)). \<not> ctx_guard p))"
      "exception_in_thread e \<noteq> None \<longrightarrow> (\<forall>p \<in> set (all_pairs (set_pair type i ?p e)). ctx_stopped p)"
      using inv by (auto simp: executor_inv_def)
    then show ?thesis using inv s by (simp add: executor_inv_def set_pair_simps)
  qed
  show ?thesis
  proof (cases r)
    case (Ok u)
    then show ?thesis using ended [OF inv i started] by (simp add: run_in_thread_def Let_def)
  next
    case Undefined
    then show ?thesis using r by simp
  next
    case (Throw e)
    define ex2 where "ex2 = (interrupt_threads (ex\<lparr>exception_in_thread := Some e\<rparr>))\<lparr>callbacks_called :=
      callbacks_called (interrupt_threads (ex\<lparr>exception_in_thread := Some e\<rparr>)) @
        map (\<lambda>cb. (cb, e)) (exception_callbacks (interrupt_threads (ex\<lparr>exception_in_thread := Some e\<rparr>)))\<rparr>"
    have "all_pairs ex2 = map (\<lambda>p. p\<lparr>ctx_stopped := True\<rparr>) (all_pairs ex)"
      "length (transport_pairs ex2) = length (transport_pairs ex)"
      "length (callback_pairs ex2) = length (callback_pairs ex)" "ex_started ex2 = ex_started ex"
      "ex_stopped ex2 = ex_stopped ex" "ex_pc ex2 = ex_pc ex"
      by (simp_all add: ex2_def interrupt_threads_def map_pairs_def all_pairs_def)
    then have "executor_inv config ex2" using inv by (simp add: executor_inv_def)
    moreover have "i < length (pairs_of type ex2)" "ex_started ex2"
      using i started by (cases type; simp add: ex2_def interrupt_threads_def map_pairs_def)+
    ultimately show ?thesis
      using Throw r ended [of ex2] by (simp add: run_in_thread_def Let_def ex2_def)
  qed
qed

lemma executor_exec_ok:
  assumes inv: "executor_inv config ex" and ok: "executor_allowed ev ex"
  shows "fst (executor_exec ev ex) \<noteq> Undefined \<and> executor_inv config (snd (executor_exec ev ex))"
proof (cases ev)
  case (Ev_start c)
  then show ?thesis using executor_start_ok [OF inv] ok by simp
next
  case Ev_stop
  have "executor_inv config ((async_stop_threads_gently (ex\<lparr>ex_stopped := True\<rparr>))\<lparr>ex_pc := Joining_for_stop\<rparr>)"
    if "\<not> ex_stopped ex"
    using inv that by (auto simp: executor_inv_def async_stop_threads_gently_def)
  then show ?thesis using Ev_stop inv by (simp add: executor_stop_def)
next
  case Ev_joined
  then obtain ex' where "join_threads ex = Some ex'" "ex_pc ex \<noteq> At_rest" using ok by auto
  from executor_joined_ok [OF inv this] show ?thesis unfolding Ev_joined by auto
next
  case (Ev_thread type i r)
  then show ?thesis using run_in_thread_ok [OF inv] ok by simp
next
  case (Ev_context type)
  have sizes: "0 < length (pairs_of type ex)"
    using inv ok Ev_context
    by (cases type) (simp_all add: executor_inv_def executor_config_valid_def unat_gt_0 word_neq_0_conv)
  from executor_context_Ok [OF sizes] obtain ex' where
    ex': "executor_context type ex = (Ok (unat (index_of type ex) mod length (pairs_of type ex)), ex')" by blast
  then have "ex' = (case type of TRANSPORT \<Rightarrow> ex\<lparr>transport_index := transport_index ex + 1\<rparr>
      | CALLBACK \<Rightarrow> ex\<lparr>callback_index := callback_index ex + 1\<rparr>)"
    by (cases type) (simp_all add: executor_context_def get_context_index_def)
  then have "executor_inv config ex'"
    using inv by (cases type) (simp_all add: executor_inv_def)
  then show ?thesis using ex' Ev_context by simp
next
  case (Ev_on_exception cb)
  then show ?thesis using inv by (simp add: on_exception_def executor_inv_def)
qed

interpretation executor_sys: invariant_system "executor_init config" executor_step "executor_inv config"
  for config
proof
  fix ex
  assume "executor_init config ex"
  then show "executor_inv config ex"
    by (auto simp: executor_init_def executor_inv_def mk_general_executor_def mk_pair_def all_pairs_def)
next
  fix ex ex'
  assume "executor_inv config ex" "executor_step ex ex'"
  then show "executor_inv config ex'" using executor_exec_ok by (auto simp: executor_step_def)
qed

section \<open>Properties\<close>

text \<open>
  The contexts of an executor are used in turn: after \<open>n\<close> requests for a context of one type
  (up to the wrap-around of the 64-bit counter), the \<open>k\<close>-th request got thread \<open>k\<close> modulo the
  configured number of threads, so every request is served by an existing thread and the loads of
  two threads differ by at most one.
\<close>

theorem contexts_used_in_turn:
  assumes "executor_config_valid config" and "n \<le> 2 ^ 64"
    and "N = length (pairs_of type (mk_general_executor config))"
  shows "\<exists>is ex. context_picks type n (mk_general_executor config) = (Ok is, ex) \<and>
    is = map (\<lambda>k. k mod N) [0..<n] \<and> set is \<subseteq> {..<N} \<and>
    (\<forall>i < N. count_list is i = n div N + (if i < n mod N then 1 else 0))"
proof -
  have N: "0 < N" using assms(1,3)
    by (cases type) (simp_all add: mk_general_executor_def executor_config_valid_def unat_gt_0 word_neq_0_conv)
  have "unat (index_of type (mk_general_executor config)) = 0"
    by (cases type) (simp_all add: mk_general_executor_def)
  from context_picks_Ok [OF _ this assms(2)] N assms(3) obtain ex where
    "context_picks type n (mk_general_executor config) = (Ok (map (\<lambda>k. k mod N) [0..<n]), ex)" by auto
  moreover have "set (map (\<lambda>k. k mod N) [0..<n]) \<subseteq> {..<N}" using N by auto
  ultimately show ?thesis using count_in_turn by blast
qed

theorem contexts_used_in_turn_witness:
  "\<exists>is ex. context_picks CALLBACK 5 (mk_general_executor \<lparr>num_transport_threads = 1, num_callback_threads = 2\<rparr>) =
     (Ok is, ex) \<and> is = map (\<lambda>k. k mod 2) [0..<5] \<and> set is \<subseteq> {..<2} \<and>
     (\<forall>i < 2. count_list is i = 5 div 2 + (if i < 5 mod 2 then 1 else 0))"
  by (rule contexts_used_in_turn [of "\<lparr>num_transport_threads = 1, num_callback_threads = 2\<rparr>" 5 2 CALLBACK])
    (simp_all add: executor_config_valid_def mk_general_executor_def)


lemma reach_executor_init:
  "executor_config_valid config \<Longrightarrow> reach (executor_init config) executor_step (mk_general_executor config)"
  by (rule reach_init) (simp add: executor_init_def)

lemma reach_executor_event:
  "reach (executor_init config) executor_step ex \<Longrightarrow> executor_allowed ev ex \<Longrightarrow>
    reach (executor_init config) executor_step (snd (executor_exec ev ex))"
  by (rule reach_step) (auto simp: executor_step_def)


text \<open>
  Progress of \<open>stop\<close>: while its caller waits at the joins, a running thread can end, and ending it
  leaves one running thread less.
\<close>

definition running_in :: "context_thread_pair list \<Rightarrow> nat" where
  "running_in ps = length (filter (\<lambda>p. ctx_thread p = Running) ps)"

lemma running_in_zero: "running_in ps = 0 \<longleftrightarrow> (\<forall>p \<in> set ps. ctx_thread p \<noteq> Running)"
  by (auto simp: running_in_def filter_empty_conv)

lemma running_in_update:
  "i < length ps \<Longrightarrow> ctx_thread (ps ! i) = Running \<Longrightarrow> ctx_thread q \<noteq> Running \<Longrightarrow>
    Suc (running_in (ps[i := q])) = running_in ps"
proof (induction ps arbitrary: i)
  case Nil
  then show ?case by simp
next
  case (Cons p ps)
  then show ?case by (cases i) (auto simp: running_in_def)
qed

definition running_threads :: "general_executor \<Rightarrow> nat" where
  "running_threads ex = running_in (transport_pairs ex) + running_in (callback_pairs ex)"

lemma running_threads_zero:
  "running_threads ex = 0 \<longleftrightarrow> (\<forall>p \<in> set (all_pairs ex). ctx_thread p \<noteq> Running)"
  by (auto simp: running_threads_def running_in_zero all_pairs_def)

lemma running_thread_exists:
  assumes "running_threads ex \<noteq> 0"
  shows "\<exists>type i. i < length (pairs_of type ex) \<and> ctx_thread (pairs_of type ex ! i) = Running"
proof -
  from assms obtain p where p: "p \<in> set (all_pairs ex)" "ctx_thread p = Running"
    by (auto simp: running_threads_zero)
  then consider "p \<in> set (pairs_of TRANSPORT ex)" | "p \<in> set (pairs_of CALLBACK ex)"
    by (auto simp: all_pairs_def)
  then show ?thesis using p(2) by cases (metis in_set_conv_nth)+
qed

lemma waiting_thread_ends:
  assumes inv: "executor_inv config ex" and pc: "ex_pc ex \<noteq> At_rest" and n: "running_threads ex = Suc n"
  shows "\<exists>ex'. executor_step ex ex' \<and> ex_pc ex' = ex_pc ex \<and> ex_stopped ex' = ex_stopped ex \<and>
    running_threads ex' = n"
proof -
  from running_thread_exists n obtain type i where
    i: "i < length (pairs_of type ex)" "ctx_thread (pairs_of type ex ! i) = Running" by force
  let ?ev = "Ev_thread type i (Ok ())"
  have "\<not> ctx_guard (pairs_of type ex ! i)"
    using inv pc pairs_of_mem [OF i(1)] by (simp add: executor_inv_def)
  then have "executor_allowed ?ev ex" using i by simp
  moreover have "snd (executor_exec ?ev ex) = set_pair type i ((pairs_of type ex ! i)\<lparr>ctx_thread := Ended\<rparr>) ex"
    by (simp add: run_in_thread_def Let_def)
  moreover have "running_threads (set_pair type i ((pairs_of type ex ! i)\<lparr>ctx_thread := Ended\<rparr>) ex) = n"
  proof (cases type)
    case TRANSPORT
    with i have "Suc (running_in ((transport_pairs ex)[i := (transport_pairs ex ! i)\<lparr>ctx_thread := Ended\<rparr>])) =
        running_in (transport_pairs ex)" by (intro running_in_update) simp_all
    then show ?thesis using n TRANSPORT by (simp add: running_threads_def)
  next
    case CALLBACK
    with i have "Suc (running_in ((callback_pairs ex)[i := (callback_pairs ex ! i)\<lparr>ctx_thread := Ended\<rparr>])) =
        running_in (callback_pairs ex)" by (intro running_in_update) simp_all
    then show ?thesis using n CALLBACK by (simp add: running_threads_def)
  qed
  ultimately show ?thesis unfolding executor_step_def by (metis set_pair_simps(5) set_pair_simps(6))
qed

lemma joins_complete:
  assumes "executor_inv config ex" and "ex_pc ex \<noteq> At_rest"
  shows "\<exists>ex'. executor_step\<^sup>*\<^sup>* ex ex' \<and> ex_pc ex' = At_rest \<and> ex_stopped ex' = ex_stopped ex \<and>
    (\<forall>p \<in> set (all_pairs ex'). ctx_thread p = No_thread)"
  using assms
proof (induction "running_threads ex" arbitrary: ex)
  case 0
  then have "join_threads ex = Some (map_pairs (\<lambda>p. p\<lparr>ctx_thread := No_thread\<rparr>) ex)"
    by (simp add: join_threads_def running_threads_zero flip: running_threads_zero)
  from executor_joined_ok [OF 0(2) this 0(3)] obtain ex' where
    ex': "executor_joined ex = (Ok (), ex')" "ex_pc ex' = At_rest" "ex_stopped ex' = ex_stopped ex"
      "\<forall>p \<in> set (all_pairs ex'). ctx_thread p = No_thread" by blast
  have "executor_allowed Ev_joined ex" using 0(3) \<open>join_threads ex = Some _\<close> by simp
  then have "executor_step ex ex'" unfolding executor_step_def using ex'(1)
    by (intro exI [of _ Ev_joined]) simp
  then show ?case using ex' by blast
next
  case (Suc n)
  from waiting_thread_ends [OF Suc(3,4) Suc(2) [symmetric]] obtain ex1 where
    ex1: "executor_step ex ex1" "ex_pc ex1 = ex_pc ex" "ex_stopped ex1 = ex_stopped ex" "running_threads ex1 = n"
    by blast
  have "executor_inv config ex1" using executor_sys.step_inv [OF Suc(3) ex1(1)] .
  from Suc(1) [OF ex1(4) [symmetric] this] ex1(2) Suc(4) obtain ex' where
    "executor_step\<^sup>*\<^sup>* ex1 ex'" "ex_pc ex' = At_rest" "ex_stopped ex' = ex_stopped ex1"
    "\<forall>p \<in> set (all_pairs ex'). ctx_thread p = No_thread" by auto
  then show ?case using ex1(1,3) by (metis converse_rtranclp_into_rtranclp)
qed



text \<open>
  A \<open>start\<close> that failed leaves an executor that looks alive: when the second thread cannot be
  created, \<open>start\<close> joins the first one and throws, and from then on \<open>is_running\<close> answers true
  although no thread exists.
\<close>

theorem failed_start_looks_running:
  "let (r, ex1) = executor_start (\<lambda>k. k < 1) (mk_general_executor default_executor_config);
       ex2 = snd (run_in_thread TRANSPORT 0 (Ok ()) ex1);
       ex3 = snd (executor_joined ex2)
   in r = Throw (StdException ''thread'') \<and> ex_pc ex3 = At_rest \<and> running_threads ex3 = 0 \<and> is_running ex3"
  by (simp add: mk_general_executor_def default_executor_config_def executor_start_def start_threads_def
      mk_pair_def async_stop_threads_gently_def map_pairs_def running_threads_def running_in_def
      run_in_thread_def executor_joined_def join_threads_def all_pairs_def is_running_def)

end
