(* ===== verification/Client_Builder.thy ===== *)
theory Client_Builder
  imports Client Executors
begin

text \<open>
  The builder of clients (\<open>src/msgpack_rpc/clients/impl/client_builder_impl.h\<close>) together with the
  executor it shares with the clients it makes. As for servers, \<open>finish\<close> is the run of the threads
  from the state in which \<open>stop\<close> of the executor waits at the joins to the state in which they have
  returned. The lemmas show what \<open>build\<close> returns and what it does to the executor.
\<close>

record 'sock client_builder =
  cb_config :: client_config
  cb_backends :: "'sock backend_list"

definition mk_client_builder :: "client_config \<Rightarrow> 'sock backend_list \<Rightarrow> 'sock client_builder" where
  "mk_client_builder config backends = \<lparr>cb_config = config, cb_backends = backends\<rparr>"

definition client_register_protocol where
  "client_register_protocol backend b =
     bind_out (backend_append backend (cb_backends b)) (\<lambda>bs. Ok (b\<lparr>cb_backends := bs\<rparr>))"

definition connect_to :: "uri \<Rightarrow> 'sock client_builder \<Rightarrow> 'sock client_builder" where
  "connect_to u b = b\<lparr>cb_config := client_add_uri u (cb_config b)\<rparr>"

text \<open>\<open>stop\<close> and the destructor of a client, with the executor.\<close>

type_synonym 'm client_world = "'m client \<times> general_executor"

definition client_stop_all :: "(general_executor \<Rightarrow> general_executor) \<Rightarrow> ('m client_world, unit) action" where
  "client_stop_all finish = (\<lambda>(s, ex).
     let (r, s') = client_stop s; first = client_started s \<and> \<not> client_stopped s
     in (r, (s', if first \<and> r = Ok () then finish (snd (executor_stop ex)) else ex)))"

definition client_destroy :: "(general_executor \<Rightarrow> general_executor) \<Rightarrow> ('m client_world, unit) action" where
  "client_destroy finish =
     try_act (client_stop_all finish) (\<lambda>e. if is_std_exception e then return_act () else throw_act e)"

text \<open>
  \<open>build\<close>: the client is constructed and started; when \<open>start\<close> throws, the client is destroyed on the
  way out. \<open>connecting\<close> is what the start of the connector ends with, after which the executor is
  started.
\<close>

definition client_build ::
    "(exn, unit) outcome \<Rightarrow> (nat \<Rightarrow> bool) \<Rightarrow> (general_executor \<Rightarrow> general_executor) \<Rightarrow> u32 \<Rightarrow>
     'sock client_builder \<Rightarrow> general_executor \<Rightarrow> (exn, 'm client) outcome \<times> general_executor" where
  "client_build connector_outcome can_create finish first_id b ex =
     (case mk_client (cb_config b) first_id of
        Throw e \<Rightarrow> (Throw e, ex)
      | Undefined \<Rightarrow> (Undefined, ex)
      | Ok s \<Rightarrow>
          (let (r, ex) = (if connector_outcome = Ok () then executor_start can_create ex else (Ok (), ex))
           in case client_start connector_outcome r s of
                (Ok _, s) \<Rightarrow> (Ok s, ex)
              | (Undefined, s) \<Rightarrow> (Undefined, ex)
              | (Throw e, s) \<Rightarrow>
                  (case client_destroy finish (s, ex) of
                     (Ok _, (s, ex)) \<Rightarrow> (Throw e, ex)
                   | (_, (s, ex)) \<Rightarrow> (Undefined, ex))))"

section \<open>What it returns\<close>

lemma mk_client_new:
  assumes "mk_client config i = Ok s"
  shows "client_started s = False" "client_stopped s = False" "connector_ptr s" "executor_ptr s"
    "client_init s"
  using assms by (auto simp: mk_client_def bind_out_Ok_iff client_init_def)

lemma executor_start_again:
  "ex_started ex \<Longrightarrow>
     executor_start c ex = (throw_rpc PRECONDITION_NOT_MET ''An executor must not be run multiple times.'', ex)"
  by (simp add: executor_start_def)

lemma client_started_running:
  assumes "mk_client config i = Ok s"
  obtains s' where "client_start (Ok ()) (Ok ()) s = (Ok (), s')" "client_started s'" "executor_running s'"
    "reach client_init client_step s'"
proof -
  note n = mk_client_new [OF assms]
  let ?s = "snd (client_start (Ok ()) (Ok ()) s)"
  have s: "client_start (Ok ()) (Ok ()) s = (Ok (), ?s)" "client_started ?s" "executor_running ?s"
    using n(1-4) by (simp_all add: client_start_def bind_act_def deref_def)
  have "client_step s ?s"
    unfolding client_step_def
    by (intro exI [of _ "CStart (Ok ()) (Ok ())"] exI [of _ "Ok ()"]) (use s(1) in simp)
  then have "reach client_init client_step ?s" by (rule reach_step [OF reach_init, of client_init, OF n(5)])
  with s show ?thesis by (rule that)
qed

text \<open>
  What \<open>build\<close> of a client does. When the configuration of the reconnection is refused, it throws and
  the executor is untouched. With an executor that was not started it gives a started client that
  accepts calls, and every thread of the executor runs. A second client from the same builder shares
  the executor: \<open>build\<close> throws \<open>PRECONDITION_NOT_MET\<close>, and destroying the new client stops the executor
  of the first one, whose calls are refused from then on.
\<close>

theorem client_build_outcome:
  assumes "\<forall>k. can_create k" and "\<forall>e. ex_stopped (finish e) = ex_stopped e"
  shows "(\<forall>e. mk_client (cb_config b) i = (Throw e :: (exn, 'm client) outcome) \<longrightarrow>
      client_build (Ok ()) can_create finish i b ex = (Throw e :: (exn, 'm client) outcome, ex)) \<and>
    (\<forall>s0. mk_client (cb_config b) i = (Ok s0 :: (exn, 'm client) outcome) \<and> \<not> ex_started ex \<longrightarrow>
      (\<exists>(s :: 'm client) ex'. client_build (Ok ()) can_create finish i b ex = (Ok s, ex') \<and>
        reach client_init client_step s \<and> client_started s \<and> executor_running s \<and>
        (\<forall>p \<in> set (all_pairs ex'). ctx_thread p = Running) \<and> ex_started ex' \<and>
        (last_exception ex = None \<and> \<not> ex_stopped ex \<longrightarrow> is_running ex'))) \<and>
    (\<forall>s0. mk_client (cb_config b) i = (Ok s0 :: (exn, 'm client) outcome) \<and> ex_started ex \<longrightarrow>
      (\<exists>ex'. client_build (Ok ()) can_create finish i b ex =
          (throw_rpc PRECONDITION_NOT_MET ''An executor must not be run multiple times.'' :: (exn, 'm client) outcome, ex') \<and>
        ex_stopped ex' \<and> \<not> is_running ex' \<and>
        (\<forall>(first :: 'm client) now ser.
           async_call now ser (first\<lparr>executor_running := is_running ex'\<rparr>) =
             (throw_rpc PRECONDITION_NOT_MET ''This client has been stopped.'', first\<lparr>executor_running := is_running ex'\<rparr>))))"
proof (intro conjI allI impI)
  fix e
  assume "mk_client (cb_config b) i = (Throw e :: (exn, 'm client) outcome)"
  then show "client_build (Ok ()) can_create finish i b ex = (Throw e :: (exn, 'm client) outcome, ex)"
    by (simp add: client_build_def)
next
  fix s0 :: "'m client"
  assume a: "mk_client (cb_config b) i = Ok s0 \<and> \<not> ex_started ex"
  then obtain s where s: "client_start (Ok ()) (Ok ()) s0 = (Ok (), s)" "client_started s" "executor_running s"
    "reach client_init client_step s" using client_started_running by blast
  have "client_build (Ok ()) can_create finish i b ex = (Ok s, snd (executor_start can_create ex))"
    using a s(1) executor_start_all [OF _ assms(1)] by (simp add: client_build_def)
  then show "\<exists>(s :: 'm client) ex'. client_build (Ok ()) can_create finish i b ex = (Ok s, ex') \<and>
        reach client_init client_step s \<and> client_started s \<and> executor_running s \<and>
        (\<forall>p \<in> set (all_pairs ex'). ctx_thread p = Running) \<and> ex_started ex' \<and>
        (last_exception ex = None \<and> \<not> ex_stopped ex \<longrightarrow> is_running ex')"
    using s(2-4) executor_start_all [OF _ assms(1)] a
    by (intro exI [of _ s] exI [of _ "snd (executor_start can_create ex)"])
      (simp add: all_pairs_def map_pairs_def ball_Un is_running_def last_exception_def)
next
  fix s0 :: "'m client"
  assume a: "mk_client (cb_config b) i = Ok s0 \<and> ex_started ex"
  then have n: "client_started s0 = False" "client_stopped s0 = False" "connector_ptr s0" "executor_ptr s0"
    using mk_client_new by blast+
  let ?e = "rpc_error PRECONDITION_NOT_MET ''An executor must not be run multiple times.''"
  let ?ex = "finish (snd (executor_stop ex))"
  obtain s where s: "client_start (Ok ()) (Throw ?e) s0 = (Throw ?e, s)" "client_started s" "\<not> client_stopped s"
      "connector_ptr s" "executor_ptr s"
    using n by (simp add: client_start_def bind_act_def deref_def)
  then obtain s' where "client_stop s = (Ok (), s')"
    by (simp add: client_stop_def bind_act_def deref_def Let_def)
  then have "client_destroy finish (s, ex) = (Ok (), (s', ?ex))"
    using s(2,3) by (simp add: client_destroy_def client_stop_all_def)
  then have "client_build (Ok ()) can_create finish i b ex = (Throw ?e :: (exn, 'm client) outcome, ?ex)"
    using a s(1) by (simp add: client_build_def executor_start_again)
  moreover have "ex_stopped ?ex" using assms(2) by (simp add: executor_stop_def async_stop_threads_gently_def)
  moreover from this have "\<not> is_running ?ex" by (simp add: is_running_def)
  ultimately show "\<exists>ex'. client_build (Ok ()) can_create finish i b ex =
          (throw_rpc PRECONDITION_NOT_MET ''An executor must not be run multiple times.'' :: (exn, 'm client) outcome, ex') \<and>
        ex_stopped ex' \<and> \<not> is_running ex' \<and>
        (\<forall>(first :: 'm client) now ser.
           async_call now ser (first\<lparr>executor_running := is_running ex'\<rparr>) =
             (throw_rpc PRECONDITION_NOT_MET ''This client has been stopped.'', first\<lparr>executor_running := is_running ex'\<rparr>))"
    by (intro exI [of _ ?ex]) (simp add: async_call_def check_executor_state_def bind_act_def)
qed

theorem client_build_outcome_witness:
  "\<exists>(s :: nat client) ex1 ex2.
     client_build (Ok ()) (\<lambda>_. True) id 0 (mk_client_builder (default_client_config 8192) Map.empty :: nat client_builder)
       (mk_general_executor default_executor_config) = (Ok s, ex1) \<and> is_running ex1 \<and>
     client_build (Ok ()) (\<lambda>_. True) id 0 (mk_client_builder (default_client_config 8192) Map.empty :: nat client_builder) ex1 =
       (throw_rpc PRECONDITION_NOT_MET ''An executor must not be run multiple times.'' :: (exn, nat client) outcome, ex2) \<and>
     \<not> is_running ex2"
proof -
  let ?b = "mk_client_builder (default_client_config 8192) Map.empty :: nat client_builder"
  let ?ex = "mk_general_executor default_executor_config"
  obtain s0 :: "nat client" where s0: "mk_client (cb_config ?b) 0 = Ok s0"
    by (simp add: mk_client_def mk_connector_def mk_reconnection_timer_def default_client_config_def
        default_reconnection_config_def mk_client_builder_def)
  have ex: "\<not> ex_started ?ex" "last_exception ?ex = None" "\<not> ex_stopped ?ex"
    by (simp_all add: mk_general_executor_def last_exception_def)
  have all: "\<forall>k. (\<lambda>_ :: nat. True) k" "\<forall>e. ex_stopped (id e) = ex_stopped e" by simp_all
  note built = client_build_outcome [where 'm = nat, OF all, of ?b 0]
  from built [of ?ex] s0 ex obtain s :: "nat client" and ex1 where
    1: "client_build (Ok ()) (\<lambda>_. True) id 0 ?b ?ex = (Ok s, ex1)" "is_running ex1" "ex_started ex1" by blast
  from built [of ex1] s0 1(3) obtain ex2 where
    "client_build (Ok ()) (\<lambda>_. True) id 0 ?b ex1 =
       (throw_rpc PRECONDITION_NOT_MET ''An executor must not be run multiple times.'' :: (exn, nat client) outcome, ex2)"
    "\<not> is_running ex2" by blast
  with 1 show ?thesis by blast
qed

end
