(* ===== verification/Connection.thy ===== *)
theory Connection
  imports Message_Roundtrip Transport_Base
begin

text \<open>
  A connection over a stream socket (\<open>src/msgpack_rpc/transport/connection.h\<close>).

  All handlers of a connection run in one thread, one after the other, so the model is a state and
  one function per handler. Operations of asio are not modelled: a handler is given the result with
  which the operation ended. Calls of the three callbacks are recorded in \<open>callbacks\<close>; a callback may
  throw. \<open>shutdown_outcome\<close> is what \<open>socket_.shutdown\<close> does, which throws when the socket is not
  connected any more.
\<close>

section \<open>State\<close>

datatype asio_error = OperationAborted | Eof | ConnectionReset | BrokenPipe | OtherError string

datatype conn_callback = OnReceived parsed_message | OnSent | OnClosed status

record connection =
  task :: task_state
  parser :: message_parser
  has_callbacks :: bool
  read_posted :: bool
  reading :: bool
  writes :: "bytes list"
  socket_open :: bool
  shutdown_outcome :: "(exn, unit) outcome"
  callbacks :: "conn_callback list"

definition mk_connection :: "nat \<Rightarrow> connection" where
  "mk_connection buffer_size =
     \<lparr>task = INIT, parser = mk_parser buffer_size, has_callbacks = False, read_posted = False, reading = False,
      writes = [], socket_open = True, shutdown_outcome = Ok (), callbacks = []\<rparr>"

text \<open>A call of a callback: an empty \<open>std::function\<close> throws \<open>std::bad_function_call\<close>.\<close>

definition call_back :: "(conn_callback \<Rightarrow> (exn, unit) outcome) \<Rightarrow> conn_callback \<Rightarrow> (connection, unit) action" where
  "call_back user cb c =
     (if has_callbacks c then (user cb, c\<lparr>callbacks := callbacks c @ [cb]\<rparr>)
      else (Throw (StdException ''bad_function_call''), c))"

section \<open>Functions\<close>

definition conn_start :: "(connection, unit) action" where
  "conn_start c =
     (case handle_start_request (task c) of
        Ok t \<Rightarrow> (Ok (), c\<lparr>task := handle_processing_started t, has_callbacks := True, read_posted := True\<rparr>)
      | Throw e \<Rightarrow> (Throw e, c)
      | Undefined \<Rightarrow> (Undefined, c))"

definition async_read_next :: "connection \<Rightarrow> connection" where
  "async_read_next c = c\<lparr>parser := snd (prepare_buffer (parser c)), reading := True\<rparr>"

definition close_in_thread :: "(conn_callback \<Rightarrow> (exn, unit) outcome) \<Rightarrow> status \<Rightarrow> (connection, unit) action" where
  "close_in_thread user st c =
     (let (stop, t) = handle_stop_requested (task c); c = c\<lparr>task := t\<rparr>
      in if \<not> stop then (Ok (), c)
         else bind_act (lift_out (shutdown_outcome c))
           (\<lambda>_ c. call_back user (OnClosed st) (c\<lparr>socket_open := False\<rparr>)) c)"

text \<open>
  The loop of \<open>process_read_bytes\<close>. It ends when more bytes are needed (\<open>True\<close>), or after the
  connection was closed because of an invalid message (\<open>False\<close>); \<open>None\<close> is a loop that does not end.
\<close>

partial_function (option) parse_loop ::
    "(conn_callback \<Rightarrow> (exn, unit) outcome) \<Rightarrow> (bytes \<Rightarrow> unpack_result) \<Rightarrow> mp_conv \<Rightarrow> connection \<Rightarrow>
     ((exn, bool) outcome \<times> connection) option" where
  "parse_loop user next cv c =
     (case try_parse next cv (parser c) of
        (Ok None, p) \<Rightarrow> Some (Ok True, c\<lparr>parser := p\<rparr>)
      | (Ok (Some m), p) \<Rightarrow>
          (case call_back user (OnReceived m) (c\<lparr>parser := p\<rparr>) of
             (Ok _, c) \<Rightarrow> parse_loop user next cv c
           | (Throw e, c) \<Rightarrow> Some (Throw e, c)
           | (Undefined, c) \<Rightarrow> Some (Undefined, c))
      | (Throw e, p) \<Rightarrow>
          Some (case rpc_status_of e of
             Some st \<Rightarrow> bind_act (close_in_thread user st) (\<lambda>_. return_act False) (c\<lparr>parser := p\<rparr>)
           | None \<Rightarrow> (Throw e, c\<lparr>parser := p\<rparr>))
      | (Undefined, p) \<Rightarrow> Some (Undefined, c\<lparr>parser := p\<rparr>))"

declare parse_loop.simps [code]

definition closed_by_peer :: "asio_error \<Rightarrow> bool" where
  "closed_by_peer err \<longleftrightarrow> err = Eof \<or> err = ConnectionReset \<or> err = BrokenPipe"

fun error_message :: "asio_error \<Rightarrow> string" where
  "error_message (OtherError s) = s"
| "error_message _ = ''''"

definition handle_error :: "(conn_callback \<Rightarrow> (exn, unit) outcome) \<Rightarrow> string \<Rightarrow> asio_error \<Rightarrow> (connection, unit) action" where
  "handle_error user what_failed err c =
     (if err = OperationAborted then (Ok (), c)
      else if closed_by_peer err
      then call_back user (OnClosed success_status) (c\<lparr>task := handle_processing_stopped (task c)\<rparr>)
      else (throw_rpc UNEXPECTED_ERROR (what_failed @ error_message err), c))"

definition process_read_bytes ::
    "(conn_callback \<Rightarrow> (exn, unit) outcome) \<Rightarrow> (bytes \<Rightarrow> unpack_result) \<Rightarrow> mp_conv \<Rightarrow>
     asio_error + bytes \<Rightarrow> connection \<Rightarrow> ((exn, unit) outcome \<times> connection) option" where
  "process_read_bytes user next cv r c =
     (let c = c\<lparr>reading := False\<rparr>
      in case r of
           Inl err \<Rightarrow> Some (handle_error user ''Error occurred when receiving data: '' err c)
         | Inr data \<Rightarrow>
             (case parser_consumed data (parser c) of
                Ok p \<Rightarrow>
                  (case parse_loop user next cv (c\<lparr>parser := p\<rparr>) of
                     None \<Rightarrow> None
                   | Some (Ok True, c) \<Rightarrow>
                       if \<not> is_processing (task c) then Some (Ok (), c) else Some (Ok (), async_read_next c)
                   | Some (Ok False, c) \<Rightarrow> Some (Ok (), c)
                   | Some (Throw e, c) \<Rightarrow> Some (Throw e, c)
                   | Some (Undefined, c) \<Rightarrow> Some (Undefined, c))
              | Throw e \<Rightarrow> Some (Throw e, c)
              | Undefined \<Rightarrow> Some (Undefined, c)))"

definition conn_async_send :: "bytes \<Rightarrow> connection \<Rightarrow> connection" where
  "conn_async_send message c =
     (if \<not> is_processing (task c) then c else c\<lparr>writes := writes c @ [message]\<rparr>)"

definition on_sent :: "(conn_callback \<Rightarrow> (exn, unit) outcome) \<Rightarrow> asio_error option \<Rightarrow> (connection, unit) action" where
  "on_sent user r c =
     (let c = c\<lparr>writes := tl (writes c)\<rparr>
      in case r of
           Some err \<Rightarrow> handle_error user ''Error occurred when sending data: '' err c
         | None \<Rightarrow> call_back user OnSent c)"

section \<open>Messages in a stream of bytes\<close>

lemma wire_nonempty:
  assumes "codec_ok pk next" and "can_send out"
  shows "wire pk out \<noteq> []"
proof
  assume w: "wire pk out = []"
  obtain out' where out': "can_send out'" "outgoing_elements out' \<noteq> outgoing_elements out"
  proof (cases "outgoing_elements out = [MPosInt 1, MPosInt 0, MNil, MNil]")
    case True
    show ?thesis by (rule that [of "OutResult 1 MNil"]) (simp_all add: can_send_def True)
  next
    case False
    show ?thesis
    proof (rule that [of "OutResult 0 MNil"])
      show "can_send (OutResult 0 MNil)" by (simp add: can_send_def)
      show "outgoing_elements (OutResult 0 MNil) \<noteq> outgoing_elements out" using False by auto
    qed
  qed
  have "next (wire pk out') = Unpacked (MArray (outgoing_elements out)) (wire pk out')"
    using next_wire [OF assms, of "wire pk out'"] w by simp
  moreover have "next (wire pk out') = Unpacked (MArray (outgoing_elements out')) []"
    using next_wire [OF assms(1) out'(1), of "[]"] by simp
  ultimately show False using out'(2) by simp
qed

definition partial_of :: "mp_packer \<Rightarrow> outgoing list \<Rightarrow> bytes \<Rightarrow> bool" where
  "partial_of pk outs p \<longleftrightarrow>
     (case outs of [] \<Rightarrow> p = [] | out # _ \<Rightarrow> (\<exists>b. b \<noteq> [] \<and> wire pk out = p @ b))"

definition stream :: "mp_packer \<Rightarrow> outgoing list \<Rightarrow> bytes" where
  "stream pk outs = concat (map (wire pk) outs)"

lemma stream_simps [simp]:
  "stream pk [] = []" "stream pk (out # outs) = wire pk out @ stream pk outs"
  by (simp_all add: stream_def)

lemma stream_prefix:
  "stream pk outs = t @ r \<Longrightarrow>
     \<exists>k p. k \<le> length outs \<and> t = stream pk (take k outs) @ p \<and> partial_of pk (drop k outs) p"
proof (induction outs arbitrary: t)
  case Nil
  then show ?case by (simp add: partial_of_def)
next
  case (Cons out outs)
  from Cons.prems have "wire pk out @ stream pk outs = t @ r" by simp
  then show ?case
  proof (cases rule: split_prefix)
    case (inside c)
    then show ?thesis by (intro exI [of _ 0] exI [of _ t]) (auto simp: partial_of_def)
  next
    case (after c)
    from Cons.IH [OF after(2)] obtain k p where
      "k \<le> length outs" "c = stream pk (take k outs) @ p" "partial_of pk (drop k outs) p" by blast
    then show ?thesis using after(1) by (intro exI [of _ "Suc k"] exI [of _ p]) simp
  qed
qed

lemma try_parse_partial:
  assumes "codec_ok pk next" and "\<And>out. out \<in> set outs \<Longrightarrow> can_send out" and "partial_of pk outs (pending q)"
  shows "try_parse next cv q = (Ok None, q)"
proof (cases outs)
  case Nil
  have out: "can_send (OutResult 0 MNil)" by (simp add: can_send_def)
  have "wire pk (OutResult 0 MNil) = pending q @ wire pk (OutResult 0 MNil)"
    using assms(3) by (simp add: Nil partial_of_def)
  then show ?thesis using try_parse_prefix [OF assms(1) out] wire_nonempty [OF assms(1) out] by blast
next
  case (Cons out outs')
  then obtain b where "b \<noteq> []" "wire pk out = pending q @ b"
    using assms(3) by (auto simp: partial_of_def)
  moreover have "can_send out" using assms(2) Cons by simp
  ultimately show ?thesis using try_parse_prefix [OF assms(1)] by blast
qed

text \<open>What the loop does with whole messages and a part of the next one.\<close>

lemma parse_loop_stream:
  assumes codec: "codec_ok pk next" and conv: "conv_ok cv"
    and user: "\<forall>m. user (OnReceived m) = Ok ()"
  shows "\<lbrakk>has_callbacks c; \<forall>out \<in> set outs \<union> set rest. can_send out;
      pending (parser c) = stream pk outs @ p; partial_of pk rest p\<rbrakk> \<Longrightarrow>
    parse_loop user next cv c =
      Some (Ok True, c\<lparr>parser := (parser c)\<lparr>pending := p\<rparr>,
        callbacks := callbacks c @ map (OnReceived \<circ> sent_message) outs\<rparr>)"
proof (induction outs arbitrary: c)
  case Nil
  then have "try_parse next cv (parser c) = (Ok None, parser c)"
    by (intro try_parse_partial [OF codec, of rest]) auto
  moreover have "(parser c)\<lparr>pending := p\<rparr> = parser c" using Nil by simp
  ultimately show ?case by (simp add: parse_loop.simps)
next
  case (Cons out outs)
  let ?p = "(parser c)\<lparr>pending := stream pk outs @ p\<rparr>"
  let ?c = "c\<lparr>parser := ?p, callbacks := callbacks c @ [OnReceived (sent_message out)]\<rparr>"
  have "try_parse next cv (parser c) = (Ok (Some (sent_message out)), ?p)"
    using try_parse_wire [OF codec conv, of out] Cons.prems(2,3) by simp
  then have "parse_loop user next cv c = parse_loop user next cv ?c"
    using Cons.prems(1) user by (subst parse_loop.simps) (simp add: call_back_def)
  also have "\<dots> = Some (Ok True, ?c\<lparr>parser := (parser ?c)\<lparr>pending := p\<rparr>,
        callbacks := callbacks ?c @ map (OnReceived \<circ> sent_message) outs\<rparr>)"
    by (rule Cons.IH) (use Cons.prems in auto)
  finally show ?case by simp
qed

text \<open>Chunks read from the socket one after the other.\<close>

fun feed_chunks where
  "feed_chunks user next cv [] c = Some (Ok (), c)"
| "feed_chunks user next cv (d # ds) c =
     (case process_read_bytes user next cv (Inr d) c of
        Some (Ok _, c) \<Rightarrow> feed_chunks user next cv ds c
      | r \<Rightarrow> r)"

definition ready :: "connection \<Rightarrow> bool" where
  "ready c \<longleftrightarrow> is_processing (task c) \<and> has_callbacks c \<and> read_buffer_size (parser c) \<le> reserved (parser c)"

lemma process_chunk:
  assumes codec: "codec_ok pk next" and conv: "conv_ok cv"
    and user: "\<forall>m. user (OnReceived m) = Ok ()"
    and sendable: "\<forall>out \<in> set rest. can_send out"
    and c: "ready c" "length d \<le> read_buffer_size (parser c)"
    and split: "pending (parser c) @ d = stream pk (take k rest) @ p" "partial_of pk (drop k rest) p"
  shows "\<exists>c'. process_read_bytes user next cv (Inr d) c = Some (Ok (), c') \<and> ready c' \<and> pending (parser c') = p \<and>
    read_buffer_size (parser c') = read_buffer_size (parser c) \<and> task c' = task c \<and> reading c' \<and>
    callbacks c' = callbacks c @ map (OnReceived \<circ> sent_message) (take k rest)"
proof -
  define q where "q = (parser c)\<lparr>pending := pending (parser c) @ d, reserved := reserved (parser c) - length d\<rparr>"
  let ?c1 = "c\<lparr>reading := False, parser := q\<rparr>"
  have consumed: "parser_consumed d (parser c) = Ok q"
    using c by (simp add: parser_consumed_def ready_def q_def)
  have "\<forall>out \<in> set (take k rest) \<union> set (drop k rest). can_send out"
    using sendable by (auto dest: in_set_takeD in_set_dropD)
  then have loop: "parse_loop user next cv ?c1 =
      Some (Ok True, ?c1\<lparr>parser := (parser ?c1)\<lparr>pending := p\<rparr>,
        callbacks := callbacks ?c1 @ map (OnReceived \<circ> sent_message) (take k rest)\<rparr>)"
    by (intro parse_loop_stream [OF codec conv user, where rest = "drop k rest"])
      (use c split in \<open>simp_all add: ready_def q_def\<close>)
  let ?c2 = "?c1\<lparr>parser := q\<lparr>pending := p\<rparr>, callbacks := callbacks c @ map (OnReceived \<circ> sent_message) (take k rest)\<rparr>"
  have "process_read_bytes user next cv (Inr d) c = Some (Ok (), async_read_next ?c2)"
    using loop c by (simp add: process_read_bytes_def Let_def consumed ready_def)
  then show ?thesis using c
    by (intro exI [of _ "async_read_next ?c2"]) (simp add: async_read_next_def ready_def prepare_buffer_def q_def)
qed

lemma feed_chunks_prefix:
  assumes codec: "codec_ok pk next" and conv: "conv_ok cv"
    and user: "\<forall>m. user (OnReceived m) = Ok ()"
  shows "\<lbrakk>\<forall>out \<in> set rest. can_send out; ready c; reading c;
      \<forall>d \<in> set ds. length d \<le> read_buffer_size (parser c);
      partial_of pk rest (pending (parser c)); stream pk rest = pending (parser c) @ concat ds @ r\<rbrakk> \<Longrightarrow>
    \<exists>c' k p. feed_chunks user next cv ds c = Some (Ok (), c') \<and> ready c' \<and> reading c' \<and> k \<le> length rest \<and>
      pending (parser c) @ concat ds = stream pk (take k rest) @ p \<and> pending (parser c') = p \<and>
      partial_of pk (drop k rest) p \<and>
      callbacks c' = callbacks c @ map (OnReceived \<circ> sent_message) (take k rest)"
proof (induction ds arbitrary: c rest)
  case Nil
  show ?case by (intro exI [of _ c] exI [of _ 0] exI [of _ "pending (parser c)"]) (use Nil in simp_all)
next
  case (Cons d ds)
  from Cons.prems(6) have "stream pk rest = (pending (parser c) @ d) @ concat ds @ r" by simp
  from stream_prefix [OF this] obtain j p where
    j: "j \<le> length rest" "pending (parser c) @ d = stream pk (take j rest) @ p" "partial_of pk (drop j rest) p"
    by blast
  have len: "length d \<le> read_buffer_size (parser c)" using Cons.prems(4) by simp
  from process_chunk [OF codec conv user Cons.prems(1,2) len j(2,3)] obtain c1 where
    c1: "process_read_bytes user next cv (Inr d) c = Some (Ok (), c1)" "ready c1" "pending (parser c1) = p"
      "read_buffer_size (parser c1) = read_buffer_size (parser c)" "reading c1"
      "callbacks c1 = callbacks c @ map (OnReceived \<circ> sent_message) (take j rest)"
    by blast
  have rest: "stream pk rest = stream pk (take j rest) @ stream pk (drop j rest)"
    unfolding stream_def by (metis append_take_drop_id concat_append map_append)
  have "stream pk (take j rest) @ stream pk (drop j rest) = (pending (parser c) @ d) @ concat ds @ r"
    using Cons.prems(6) rest by simp
  also have "\<dots> = stream pk (take j rest) @ pending (parser c1) @ concat ds @ r"
    unfolding j(2) c1(3) by simp
  finally have stream: "stream pk (drop j rest) = pending (parser c1) @ concat ds @ r" by simp
  have sendable: "\<forall>out \<in> set (drop j rest). can_send out"
    using Cons.prems(1) by (blast dest: in_set_dropD)
  have lens: "\<forall>e \<in> set ds. length e \<le> read_buffer_size (parser c1)"
    using Cons.prems(4) c1(4) by simp
  obtain c' k p' where
    c': "feed_chunks user next cv ds c1 = Some (Ok (), c')" "ready c'" "reading c'" "k \<le> length (drop j rest)"
      "pending (parser c1) @ concat ds = stream pk (take k (drop j rest)) @ p'" "pending (parser c') = p'"
      "partial_of pk (drop k (drop j rest)) p'"
      "callbacks c' = callbacks c1 @ map (OnReceived \<circ> sent_message) (take k (drop j rest))"
    using Cons.IH [OF sendable c1(2,5) lens j(3) [folded c1(3)] stream] by blast
  have take: "take (j + k) rest = take j rest @ take k (drop j rest)" by (simp add: take_add)
  have "pending (parser c) @ concat (d # ds) = stream pk (take j rest) @ pending (parser c1) @ concat ds"
    using j(2) c1(3) by simp
  also have "\<dots> = stream pk (take (j + k) rest) @ p'"
    using c'(5) by (simp add: take stream_def)
  finally have "pending (parser c) @ concat (d # ds) = stream pk (take (j + k) rest) @ p'" .
  then show ?case
    using c1(1,6) c' j(1)
    by (intro exI [of _ c'] exI [of _ "j + k"] exI [of _ p']) (simp add: take add.commute)
qed

text \<open>One message in any chunks, on a connection that keeps no part of an earlier one.\<close>

definition idle_reader :: "connection \<Rightarrow> bool" where
  "idle_reader c \<longleftrightarrow> ready c \<and> reading c \<and> pending (parser c) = []"

lemma feed_message:
  assumes codec: "codec_ok pk next" and conv: "conv_ok cv"
    and user: "\<forall>m. user (OnReceived m) = Ok ()"
    and out: "can_send out" and c: "idle_reader c"
    and len: "\<forall>d \<in> set ds. length d \<le> read_buffer_size (parser c)"
    and cat: "concat ds = wire pk out"
  shows "\<exists>c'. feed_chunks user next cv ds c = Some (Ok (), c') \<and> idle_reader c' \<and>
    callbacks c' = callbacks c @ [OnReceived (sent_message out)]"
proof -
  have all: "\<forall>out \<in> set [out]. can_send out" using out by simp
  have part: "partial_of pk [out] (pending (parser c))"
    using wire_nonempty [OF codec out] c by (simp add: partial_of_def idle_reader_def)
  have s: "stream pk [out] = pending (parser c) @ concat ds @ []"
    using c cat by (simp add: idle_reader_def)
  from feed_chunks_prefix [OF codec conv user all _ _ len part s] c obtain c' k p where
    c': "feed_chunks user next cv ds c = Some (Ok (), c')" "ready c'" "reading c'" "k \<le> 1"
      "concat ds = stream pk (take k [out]) @ p" "pending (parser c') = p" "partial_of pk (drop k [out]) p"
      "callbacks c' = callbacks c @ map (OnReceived \<circ> sent_message) (take k [out])"
    by (auto simp: idle_reader_def)
  have "k = 1"
  proof (rule ccontr)
    assume "k \<noteq> 1"
    then have "k = 0" using c'(4) by simp
    then show False using c'(5,7) cat by (simp add: partial_of_def)
  qed
  then have "p = []" "callbacks c' = callbacks c @ [OnReceived (sent_message out)]"
    using c'(7,8) by (simp_all add: partial_of_def)
  then show ?thesis using c'(1,2,3,6) by (auto simp: idle_reader_def)
qed

lemma idle_reader_start: "idle_reader (async_read_next (snd (conn_start (mk_connection n))))"
  by (simp add: idle_reader_def ready_def async_read_next_def conn_start_def mk_connection_def handle_start_request_def
      handle_processing_started_def is_processing_def prepare_buffer_def mk_parser_def)

text \<open>
  C6. Framing does not depend on how the bytes arrive. A started connection that reads any part of
  the bytes of a sequence of messages, cut into any chunks that fit its buffer, calls \<open>on_received\<close>
  with exactly the messages whose bytes are complete, in order and once each, keeps the bytes of the
  incomplete one, goes on reading, and the loop of the handler ends each time.
\<close>

theorem framing_independent_of_chunks:
  assumes "codec_ok pk next" and "conv_ok cv" and "\<forall>m. user (OnReceived m) = Ok ()"
    and "\<forall>out \<in> set outs. can_send out"
    and "\<forall>d \<in> set ds. length d \<le> n" and "stream pk outs = concat ds @ missing"
  shows "\<exists>c' k p. feed_chunks user next cv ds (async_read_next (snd (conn_start (mk_connection n)))) = Some (Ok (), c') \<and>
    concat ds = stream pk (take k outs) @ p \<and> pending (parser c') = p \<and>
    (if k < length outs then \<exists>b. b \<noteq> [] \<and> wire pk (outs ! k) = p @ b else p = []) \<and>
    callbacks c' = map (OnReceived \<circ> sent_message) (take k outs) \<and> reading c' \<and> task c' = PROCESSING"
proof -
  let ?c = "async_read_next (snd (conn_start (mk_connection n)))"
  have c: "ready ?c" "reading ?c" "pending (parser ?c) = []" "read_buffer_size (parser ?c) = n" "callbacks ?c = []"
    by (simp_all add: ready_def async_read_next_def conn_start_def mk_connection_def handle_start_request_def
        handle_processing_started_def is_processing_def prepare_buffer_def mk_parser_def)
  have part: "partial_of pk outs (pending (parser ?c))"
    using wire_nonempty [OF assms(1)] assms(4) c(3) by (cases outs) (auto simp: partial_of_def)
  have "\<exists>c' k p. feed_chunks user next cv ds ?c = Some (Ok (), c') \<and> ready c' \<and> reading c' \<and> k \<le> length outs \<and>
      pending (parser ?c) @ concat ds = stream pk (take k outs) @ p \<and> pending (parser c') = p \<and>
      partial_of pk (drop k outs) p \<and>
      callbacks c' = callbacks ?c @ map (OnReceived \<circ> sent_message) (take k outs)"
    by (rule feed_chunks_prefix [OF assms(1,2)]) (use assms c part in simp_all)
  then obtain c' k p where
    c': "feed_chunks user next cv ds ?c = Some (Ok (), c')" "ready c'" "reading c'" "k \<le> length outs"
      "concat ds = stream pk (take k outs) @ p" "pending (parser c') = p" "partial_of pk (drop k outs) p"
      "callbacks c' = map (OnReceived \<circ> sent_message) (take k outs)"
    using c(3,5) by auto
  have last: "if k < length outs then \<exists>b. b \<noteq> [] \<and> wire pk (outs ! k) = p @ b else p = []"
    using c'(4,7) by (auto simp: partial_of_def Cons_nth_drop_Suc [symmetric])
  have "task c' = PROCESSING" using c'(2) by (simp add: ready_def is_processing_def)
  with last c'(1,3,5,6,8) show ?thesis by blast
qed

theorem framing_independent_of_chunks_witness:
  "\<exists>ds c'. concat ds = wire ref_packer (OutResult 1 MNil) \<and> (\<forall>d \<in> set ds. length d = 1) \<and>
     feed_chunks (\<lambda>_. Ok ()) ref_next ref_conv ds (async_read_next (snd (conn_start (mk_connection 1)))) = Some (Ok (), c') \<and>
     callbacks c' = [OnReceived (sent_message (OutResult 1 MNil))]"
proof -
  let ?out = "OutResult 1 MNil"
  let ?w = "wire ref_packer ?out"
  let ?ds = "map (\<lambda>x. [x]) ?w"
  have single: "concat (map (\<lambda>x. [x]) xs) = xs" for xs :: bytes by (induction xs) simp_all
  have cat: "concat ?ds = ?w" by (rule single)
  have s: "stream ref_packer [?out] = concat ?ds @ []" by (simp add: cat)
  have out: "\<forall>out \<in> set [?out]. can_send out" by (simp add: can_send_def)
  have len: "\<forall>d \<in> set ?ds. length d \<le> 1" by simp
  have user: "\<forall>m. (\<lambda>_. Ok ()) (OnReceived m) = Ok ()" by simp
  from framing_independent_of_chunks [OF codec_ok_ref conv_ok_ref user out len s] obtain c' k p where
    c': "feed_chunks (\<lambda>_. Ok ()) ref_next ref_conv ?ds (async_read_next (snd (conn_start (mk_connection 1)))) = Some (Ok (), c')"
      "concat ?ds = stream ref_packer (take k [?out]) @ p"
      "if k < length [?out] then \<exists>b. b \<noteq> [] \<and> wire ref_packer ([?out] ! k) = p @ b else p = []"
      "callbacks c' = map (OnReceived \<circ> sent_message) (take k [?out])"
    by blast
  have "k \<noteq> 0"
  proof
    assume "k = 0"
    then have "p = ?w" using c'(2) cat by simp
    then show False using c'(3) \<open>k = 0\<close> by simp
  qed
  then have "callbacks c' = [OnReceived (sent_message ?out)]" using c'(4) by (cases k) simp_all
  moreover have "\<forall>d \<in> set ?ds. length d = 1" by simp
  ultimately show ?thesis using c'(1) cat by blast
qed

section \<open>The end of a connection\<close>

datatype conn_input =
    StartConn
  | RunPostedRead
  | ReadEnded "asio_error + bytes"
  | SendMessage bytes
  | WriteEnded "asio_error option"
  | CloseConn status

definition conn_exec ::
    "(conn_callback \<Rightarrow> (exn, unit) outcome) \<Rightarrow> (bytes \<Rightarrow> unpack_result) \<Rightarrow> mp_conv \<Rightarrow> conn_input \<Rightarrow>
     connection \<Rightarrow> ((exn, unit) outcome \<times> connection) option" where
  "conn_exec user next cv i c =
     (case i of
        StartConn \<Rightarrow> Some (conn_start c)
      | RunPostedRead \<Rightarrow> Some (Ok (), async_read_next (c\<lparr>read_posted := False\<rparr>))
      | ReadEnded r \<Rightarrow> process_read_bytes user next cv r c
      | SendMessage m \<Rightarrow> Some (Ok (), conn_async_send m c)
      | WriteEnded r \<Rightarrow> Some (on_sent user r c)
      | CloseConn st \<Rightarrow> Some (close_in_thread user st c))"

text \<open>
  Inputs in order: handlers of pending operations only; once the connection is stopped these end
  with \<open>OperationAborted\<close>; a connection is closed only after it was started.
\<close>

fun orderly :: "conn_input \<Rightarrow> connection \<Rightarrow> bool" where
  "orderly (ReadEnded r) c = (reading c \<and> (task c = STOPPED \<longrightarrow> r = Inl OperationAborted))"
| "orderly (WriteEnded r) c = (writes c \<noteq> [] \<and> (task c = STOPPED \<longrightarrow> r = Some OperationAborted))"
| "orderly (CloseConn st) c = has_callbacks c"
| "orderly RunPostedRead c = read_posted c"
| "orderly _ c = True"

fun is_closed_cb :: "conn_callback \<Rightarrow> bool" where
  "is_closed_cb (OnClosed st) = True"
| "is_closed_cb _ = False"

definition closed_count :: "connection \<Rightarrow> nat" where
  "closed_count c = length (filter is_closed_cb (callbacks c))"

definition closed_inv :: "connection \<Rightarrow> bool" where
  "closed_inv c \<longleftrightarrow>
     (task c \<noteq> STOPPED \<longrightarrow> closed_count c = 0) \<and> closed_count c \<le> 1 \<and>
     (task c = STOPPED \<and> shutdown_outcome c = Ok () \<longrightarrow> closed_count c = 1) \<and>
     (has_callbacks c \<longleftrightarrow> task c \<noteq> INIT) \<and> (reading c \<longrightarrow> has_callbacks c) \<and> (writes c \<noteq> [] \<longrightarrow> has_callbacks c) \<and>
     (read_posted c \<longrightarrow> has_callbacks c)"

lemma closed_count_simps [simp]:
  "closed_count (c\<lparr>task := t\<rparr>) = closed_count c" "closed_count (c\<lparr>parser := p\<rparr>) = closed_count c"
  "closed_count (c\<lparr>reading := b\<rparr>) = closed_count c" "closed_count (c\<lparr>writes := w\<rparr>) = closed_count c"
  "closed_count (c\<lparr>socket_open := b\<rparr>) = closed_count c" "closed_count (c\<lparr>read_posted := b\<rparr>) = closed_count c"
  "closed_count (c\<lparr>has_callbacks := b\<rparr>) = closed_count c"
  by (simp_all add: closed_count_def)

lemma close_in_thread_inv:
  "closed_inv c \<Longrightarrow> has_callbacks c \<Longrightarrow> closed_inv (snd (close_in_thread user st c))"
  by (cases "shutdown_outcome c")
    (auto simp: close_in_thread_def handle_stop_requested_def Let_def call_back_def closed_inv_def bind_act_def closed_count_def)

lemma handle_error_inv:
  "closed_inv c \<Longrightarrow> has_callbacks c \<Longrightarrow> (task c = STOPPED \<longrightarrow> err = OperationAborted) \<Longrightarrow>
     closed_inv (snd (handle_error user t err c))"
  by (auto simp: handle_error_def call_back_def closed_inv_def handle_processing_stopped_def closed_count_def)

lemma parse_loop_inv:
  assumes "parse_loop user next cv c = Some (r, c')" and "closed_inv c" and "has_callbacks c"
  shows "closed_inv c'"
proof -
  have "closed_inv c \<and> has_callbacks c \<longrightarrow> closed_inv (snd x)"
    if "parse_loop user next cv c = Some x" for x
  proof (rule parse_loop.raw_induct [where P = "\<lambda>user next cv c x. closed_inv c \<and> has_callbacks c \<longrightarrow> closed_inv (snd x)",
        OF _ that])
    fix loop user "next" cv c x
    assume 1: "\<And>user next cv c x. loop user next cv c = Some x \<Longrightarrow>
        closed_inv c \<and> has_callbacks c \<longrightarrow> closed_inv (snd x)"
      "(case try_parse next cv (parser c) of
        (Ok None, p) \<Rightarrow> Some (Ok True, c\<lparr>parser := p\<rparr>)
      | (Ok (Some m), p) \<Rightarrow>
          (case call_back user (OnReceived m) (c\<lparr>parser := p\<rparr>) of
             (Ok _, c) \<Rightarrow> loop user next cv c
           | (Throw e, c) \<Rightarrow> Some (Throw e, c)
           | (Undefined, c) \<Rightarrow> Some (Undefined, c))
      | (Throw e, p) \<Rightarrow>
          Some (case rpc_status_of e of
             Some st \<Rightarrow> bind_act (close_in_thread user st) (\<lambda>_. return_act False) (c\<lparr>parser := p\<rparr>)
           | None \<Rightarrow> (Throw e, c\<lparr>parser := p\<rparr>))
      | (Undefined, p) \<Rightarrow> Some (Undefined, c\<lparr>parser := p\<rparr>)) = Some x"
    show "closed_inv c \<and> has_callbacks c \<longrightarrow> closed_inv (snd x)"
    proof
      assume c: "closed_inv c \<and> has_callbacks c"
      then have p: "closed_inv (c\<lparr>parser := p\<rparr>)" "has_callbacks (c\<lparr>parser := p\<rparr>)" for p
        by (auto simp: closed_inv_def)
      have cb: "closed_inv (snd (call_back user (OnReceived m) (c\<lparr>parser := p\<rparr>)))"
          "has_callbacks (snd (call_back user (OnReceived m) (c\<lparr>parser := p\<rparr>)))" for m p
        using c by (auto simp: call_back_def closed_inv_def closed_count_def)
      obtain r p where t: "try_parse next cv (parser c) = (r, p)" by (cases "try_parse next cv (parser c)")
      show "closed_inv (snd x)"
      proof (cases r)
        case (Ok mo)
        show ?thesis
        proof (cases mo)
          case None
          then show ?thesis using 1(2) t Ok p by auto
        next
          case (Some m)
          obtain r2 c2 where c2: "call_back user (OnReceived m) (c\<lparr>parser := p\<rparr>) = (r2, c2)"
            by (cases "call_back user (OnReceived m) (c\<lparr>parser := p\<rparr>)")
          then have "closed_inv c2" "has_callbacks c2" using cb [of m p] by simp_all
          then show ?thesis using 1 t Ok Some c2 by (cases r2) auto
        qed
      next
        case (Throw e)
        then show ?thesis using 1(2) t p close_in_thread_inv [of "c\<lparr>parser := p\<rparr>" user]
          by (auto simp: bind_act_def split: option.splits outcome.splits prod.splits)
            (metis snd_conv)+
      next
        case Undefined
        then show ?thesis using 1(2) t p by auto
      qed
    qed
  qed
  from this [OF assms(1)] assms(2,3) show ?thesis by simp
qed

lemma async_read_next_inv: "closed_inv c \<Longrightarrow> has_callbacks c \<Longrightarrow> closed_inv (async_read_next c)"
  by (simp add: async_read_next_def closed_inv_def closed_count_def)

lemma process_read_bytes_inv:
  assumes "closed_inv c" "has_callbacks c" "task c = STOPPED \<longrightarrow> r = Inl OperationAborted"
    and p: "process_read_bytes user next cv r c = Some (o', c')"
  shows "closed_inv c'"
proof -
  have c0: "closed_inv (c\<lparr>reading := False\<rparr>)" "closed_inv (c\<lparr>reading := False, parser := q\<rparr>)" for q
    using assms(1) by (auto simp: closed_inv_def)
  show ?thesis
  proof (cases r)
    case (Inl err)
    then show ?thesis
      using p handle_error_inv [OF c0(1), of err user "''Error occurred when receiving data: ''"] assms(2,3)
      by (simp add: process_read_bytes_def)
  next
    case (Inr data)
    show ?thesis
    proof (cases "parser_consumed data (parser c)")
      case (Ok q)
      let ?c = "c\<lparr>reading := False, parser := q\<rparr>"
      obtain r2 c2 where l: "parse_loop user next cv ?c = Some (r2, c2)"
        using p Inr Ok by (cases "parse_loop user next cv ?c") (auto simp: process_read_bytes_def)
      have i: "closed_inv c2" using parse_loop_inv [OF l c0(2)] assms(2) by simp
      have "c' = c2 \<or> is_processing (task c2) \<and> c' = async_read_next c2"
        using p Inr Ok l by (auto simp: process_read_bytes_def split: outcome.splits bool.splits if_splits)
      moreover have "is_processing (task c2) \<Longrightarrow> has_callbacks c2"
        using i by (simp add: closed_inv_def is_processing_def)
      ultimately show ?thesis using i async_read_next_inv by blast
    next
      case (Throw e)
      then show ?thesis by (simp add: parser_consumed_def split: if_splits)
    next
      case Undefined
      then show ?thesis using p Inr c0(1) by (simp add: process_read_bytes_def)
    qed
  qed
qed

definition conn_init :: "connection \<Rightarrow> bool" where
  "conn_init c \<longleftrightarrow> (\<exists>n s. c = (mk_connection n)\<lparr>shutdown_outcome := s\<rparr>)"

definition conn_step where
  "conn_step user next cv c c' \<longleftrightarrow> (\<exists>i r. orderly i c \<and> conn_exec user next cv i c = Some (r, c'))"

lemma on_sent_inv:
  assumes "closed_inv c" "has_callbacks c" "task c = STOPPED \<longrightarrow> r = Some OperationAborted"
  shows "closed_inv (snd (on_sent user r c))"
proof -
  have c0: "closed_inv (c\<lparr>writes := tl (writes c)\<rparr>)" using assms(1,2) by (simp add: closed_inv_def)
  show ?thesis
  proof (cases r)
    case None
    then show ?thesis using c0 assms(2) by (simp add: on_sent_def call_back_def closed_inv_def closed_count_def)
  next
    case (Some err)
    then show ?thesis using handle_error_inv [OF c0] assms(2,3) by (simp add: on_sent_def)
  qed
qed

lemma conn_exec_inv:
  assumes "closed_inv c" "orderly i c" "conn_exec user next cv i c = Some (r, c')"
  shows "closed_inv c'"
proof (cases i)
  case StartConn
  then show ?thesis using assms
    by (auto simp: conn_exec_def conn_start_def handle_start_request_def handle_processing_started_def
        closed_inv_def split: if_splits)
next
  case RunPostedRead
  then have "closed_inv (c\<lparr>read_posted := False\<rparr>)" "has_callbacks (c\<lparr>read_posted := False\<rparr>)"
    using assms by (auto simp: closed_inv_def)
  from async_read_next_inv [OF this] show ?thesis using assms(3) RunPostedRead by (simp add: conn_exec_def)
next
  case (ReadEnded x)
  then have "has_callbacks c" "task c = STOPPED \<longrightarrow> x = Inl OperationAborted"
      "process_read_bytes user next cv x c = Some (r, c')"
    using assms by (auto simp: closed_inv_def conn_exec_def)
  then show ?thesis by (rule process_read_bytes_inv [OF assms(1)])
next
  case (SendMessage m)
  then show ?thesis using assms
    by (auto simp: conn_exec_def conn_async_send_def closed_inv_def is_processing_def split: if_splits)
next
  case (WriteEnded x)
  then have "has_callbacks c" "task c = STOPPED \<longrightarrow> x = Some OperationAborted" "c' = snd (on_sent user x c)"
    using assms by (auto simp: closed_inv_def conn_exec_def)
  then show ?thesis using on_sent_inv [OF assms(1), of x user] by simp
next
  case (CloseConn st)
  then show ?thesis using assms close_in_thread_inv [of c user st] by (simp add: conn_exec_def)
qed

interpretation conn_sys: invariant_system conn_init "conn_step user next cv" closed_inv for user "next" cv
proof
  fix c
  assume "conn_init c"
  then show "closed_inv c" by (auto simp: conn_init_def mk_connection_def closed_inv_def closed_count_def)
next
  fix c c'
  assume "closed_inv c" "conn_step user next cv c c'"
  then show "closed_inv c'" using conn_exec_inv by (fastforce simp: conn_step_def)
qed





end
