(* ===== verification/Acceptor.thy ===== *)
theory Acceptor
  imports Connection
begin

text \<open>
  Acceptors, their factories and the list of open connections
  (\<open>src/msgpack_rpc/transport/acceptor.h\<close>, \<open>connection_list.h\<close>, \<open>tcp/tcp_acceptor_factory.h\<close>,
  \<open>unix_socket/unix_socket_acceptor_factory.h\<close>).

  Connections are numbered; the number stands for the address of the object while it lives. The handlers of an acceptor run one after
  another, in the thread of its context; what asio reports (an accepted socket, an error) is an
  event. A connection is destroyed when its last owner lets it go, which is another event, and its
  destructor removes it from the list. The lemmas show that the list holds exactly the connections
  that are alive, and which connections \<open>stop\<close> closes.
\<close>

section \<open>The list of connections\<close>

text \<open>
  An entry is a weak pointer under the address. \<open>try_emplace\<close> keeps an entry that is there.
\<close>

definition list_append :: "nat \<Rightarrow> nat list \<Rightarrow> nat list" where
  "list_append c l = (if c \<in> set l then l else l @ [c])"

definition list_remove :: "nat \<Rightarrow> nat list \<Rightarrow> nat list" where
  "list_remove c l = filter (\<lambda>d. d \<noteq> c) l"

text \<open>
  \<open>async_close_all\<close> holds the mutex of the list while it owns each connection for a moment. When it
  is the last owner at the end of the round, the destructor of the connection calls \<open>remove\<close>, which
  locks the mutex its own thread holds: undefined.
\<close>

fun async_close_all :: "(nat \<Rightarrow> bool) \<Rightarrow> (nat \<Rightarrow> bool) \<Rightarrow> nat list \<Rightarrow> (exn, nat list) outcome" where
  "async_close_all alive last_owner [] = Ok []"
| "async_close_all alive last_owner (c # l) =
     (if alive c then
        (if last_owner c then Undefined
         else bind_out (async_close_all alive last_owner l) (\<lambda>cs. Ok (c # cs)))
      else async_close_all alive last_owner l)"

lemma async_close_all_Ok:
  "\<forall>c \<in> set l. alive c \<longrightarrow> \<not> last_owner c \<Longrightarrow> async_close_all alive last_owner l = Ok (filter alive l)"
  by (induction l) simp_all

section \<open>Acceptors\<close>

text \<open>The handlers posted to the context of the acceptor run in the order they were posted.\<close>

datatype posted_handler = Post_accept_next | Post_stop

record acceptor =
  ac_task :: task_state
  ac_has_callback :: bool
  ac_unix :: bool
  ac_posted :: "posted_handler list"
  accepting :: bool
  acceptor_open :: bool
  ac_executor_alive :: bool
  connection_list :: "nat list"
  live_connections :: "nat list"
  close_requests :: "nat list"
  handed_over :: "nat list"
  socket_file :: bool

text \<open>
  The constructor binds and listens; asio makes the file of a Unix socket.
\<close>

definition mk_acceptor :: "(exn, unit) outcome \<Rightarrow> bool \<Rightarrow> (exn, acceptor) outcome" where
  "mk_acceptor listen_outcome is_unix =
     bind_out listen_outcome (\<lambda>_.
       Ok \<lparr>ac_task = INIT, ac_has_callback = False, ac_unix = is_unix, ac_posted = [],
          accepting = False, acceptor_open = True, ac_executor_alive = True, connection_list = [],
          live_connections = [], close_requests = [], handed_over = [], socket_file = is_unix\<rparr>)"

definition acceptor_start :: "(acceptor, unit) action" where
  "acceptor_start a =
     (case handle_start_request (ac_task a) of
        Ok t \<Rightarrow> (Ok (), a\<lparr>ac_task := handle_processing_started t, ac_has_callback := True,
          ac_posted := ac_posted a @ [Post_accept_next]\<rparr>)
      | Throw e \<Rightarrow> (Throw e, a)
      | Undefined \<Rightarrow> (Undefined, a))"

definition acceptor_stop :: "acceptor \<Rightarrow> acceptor" where
  "acceptor_stop a = a\<lparr>ac_posted := ac_posted a @ [Post_stop]\<rparr>"

definition async_accept_next :: "(acceptor, unit) action" where
  "async_accept_next a =
     (if ac_executor_alive a then (Ok (), a\<lparr>accepting := True\<rparr>)
      else (throw_rpc PRECONDITION_NOT_MET ''Executor is not set.'', a))"

datatype accept_result = Accepted nat "(exn, unit) outcome" | Accept_error asio_error

text \<open>
  \<open>on_accept\<close>: the constructor of the connection asks the socket for its endpoints and may throw
  (the peer may be gone again). \<open>user\<close> is what the callback does with the connection.
\<close>

definition on_accept :: "(nat \<Rightarrow> (exn, unit) outcome) \<Rightarrow> accept_result \<Rightarrow> (acceptor, unit) action" where
  "on_accept user r a =
     (let a = a\<lparr>accepting := False\<rparr> in
      case r of
        Accept_error err \<Rightarrow>
          if err = OperationAborted then (Ok (), a)
          else (throw_rpc UNEXPECTED_ERROR
                  (''Error occurred when accepting a connection: '' @ error_message err), a)
      | Accepted c constructed \<Rightarrow>
          bind_act (lift_out constructed) (\<lambda>_ a.
            let a = a\<lparr>live_connections := live_connections a @ [c],
                      connection_list := list_append c (connection_list a)\<rparr> in
            if \<not> ac_has_callback a then (Throw (StdException ''bad_function_call''), a)
            else bind_act (\<lambda>a. (user c, a\<lparr>handed_over := handed_over a @ [c]\<rparr>)) (\<lambda>_ a.
                   if \<not> is_processing (ac_task a) then (Ok (), a) else async_accept_next a) a) a)"

definition stop_in_thread :: "(nat \<Rightarrow> bool) \<Rightarrow> (acceptor, unit) action" where
  "stop_in_thread last_owner a =
     (let (stop, t) = handle_stop_requested (ac_task a); a = a\<lparr>ac_task := t\<rparr> in
      if \<not> stop then (Ok (), a)
      else (let a = a\<lparr>acceptor_open := False\<rparr> in
        bind_act (lift_out (async_close_all (\<lambda>c. c \<in> set (live_connections a)) last_owner (connection_list a)))
          (\<lambda>closed a.
            let a = a\<lparr>close_requests := close_requests a @ closed\<rparr> in
            (Ok (), if ac_unix a then a\<lparr>socket_file := False\<rparr> else a)) a))"

text \<open>The destructor of a connection.\<close>

definition connection_destroyed :: "nat \<Rightarrow> acceptor \<Rightarrow> acceptor" where
  "connection_destroyed c a =
     a\<lparr>live_connections := filter (\<lambda>d. d \<noteq> c) (live_connections a),
       connection_list := list_remove c (connection_list a)\<rparr>"

section \<open>Factories\<close>

text \<open>
  \<open>listen ep\<close> is what binding an acceptor to the endpoint does.
\<close>

fun create_acceptors :: "('ep \<Rightarrow> (exn, unit) outcome) \<Rightarrow> bool \<Rightarrow> 'ep list \<Rightarrow> (exn, acceptor list) outcome" where
  "create_acceptors listen is_unix [] = Ok []"
| "create_acceptors listen is_unix (ep # eps) =
     bind_out (mk_acceptor (listen ep) is_unix) (\<lambda>a.
     bind_out (create_acceptors listen is_unix eps) (\<lambda>as. Ok (a # as)))"

definition tcp_acceptor_resolve :: "('ep, 'sock) net \<Rightarrow> string \<Rightarrow> uri \<Rightarrow> (exn, 'ep list) outcome" where
  "tcp_acceptor_resolve net sch u =
     (if scheme u \<noteq> sch then
        throw_rpc INVALID_ARGUMENT
          (''Scheme is different with the resolver: expected='' @ sch @ '', actual='' @ scheme u)
      else
        (let service = show_nat (case port_number u of Some p \<Rightarrow> unat p | None \<Rightarrow> 0)
         in case resolve_host net (host_or_path u) service of
              Inr err \<Rightarrow> throw_rpc HOST_UNRESOLVED (''Failed to resolve '' @ format_uri u @ '': '' @ err)
            | Inl results \<Rightarrow> Ok results))"

definition tcp_create_acceptors ::
    "('ep, 'sock) net \<Rightarrow> ('ep \<Rightarrow> (exn, unit) outcome) \<Rightarrow> uri \<Rightarrow> (exn, acceptor list) outcome" where
  "tcp_create_acceptors net listen u =
     bind_out (tcp_acceptor_resolve net ''tcp'' u) (create_acceptors listen False)"

definition unix_create_acceptors ::
    "('ep, 'sock) net \<Rightarrow> ('ep \<Rightarrow> (exn, unit) outcome) \<Rightarrow> uri \<Rightarrow> (exn, acceptor list) outcome" where
  "unix_create_acceptors net listen u =
     bind_out (unix_endpoint net (host_or_path u)) (\<lambda>local_address. create_acceptors listen True [local_address])"

lemma mk_acceptor_Ok_iff: "mk_acceptor r is_unix = Ok a \<longleftrightarrow> r = Ok () \<and> mk_acceptor (Ok ()) is_unix = Ok a"
  by (cases r) (simp_all add: mk_acceptor_def)

lemma create_acceptors_fresh:
  "create_acceptors listen is_unix eps = Ok as \<Longrightarrow>
    length as = length eps \<and> (\<forall>a \<in> set as. mk_acceptor (Ok ()) is_unix = Ok a)"
proof (induction eps arbitrary: as)
  case Nil
  then show ?case by simp
next
  case (Cons ep eps)
  then obtain a as' where "mk_acceptor (listen ep) is_unix = Ok a"
    "create_acceptors listen is_unix eps = Ok as'" "as = a # as'" by (auto simp: bind_out_Ok_iff)
  moreover from this(1) have "mk_acceptor (Ok ()) is_unix = Ok a" using mk_acceptor_Ok_iff by blast
  ultimately show ?case using Cons.IH by simp
qed

section \<open>What can happen to an acceptor\<close>

datatype acceptor_event =
    AStart
  | AStop
  | ARun_accept_next
  | AOn_accept accept_result
  | ARun_stop "nat \<Rightarrow> bool"
  | ADestroyed nat

fun acceptor_exec :: "(nat \<Rightarrow> (exn, unit) outcome) \<Rightarrow> acceptor_event \<Rightarrow> (acceptor, unit) action" where
  "acceptor_exec user AStart a = acceptor_start a"
| "acceptor_exec user AStop a = (Ok (), acceptor_stop a)"
| "acceptor_exec user ARun_accept_next a = async_accept_next (a\<lparr>ac_posted := tl (ac_posted a)\<rparr>)"
| "acceptor_exec user (AOn_accept r) a = on_accept user r a"
| "acceptor_exec user (ARun_stop last_owner) a = stop_in_thread last_owner (a\<lparr>ac_posted := tl (ac_posted a)\<rparr>)"
| "acceptor_exec user (ADestroyed c) a = (Ok (), connection_destroyed c a)"

text \<open>
  A new connection gets a number of its own. The mutex of the list is not locked twice
  when somebody else still owns the connections that are being closed.
\<close>

fun acceptor_allowed :: "acceptor_event \<Rightarrow> acceptor \<Rightarrow> bool" where
  "acceptor_allowed AStart a = True"
| "acceptor_allowed AStop a = True"
| "acceptor_allowed ARun_accept_next a = (\<exists>hs. ac_posted a = Post_accept_next # hs)"
| "acceptor_allowed (AOn_accept (Accepted c r)) a =
     (accepting a \<and> c \<notin> set (live_connections a) \<and> c \<notin> set (handed_over a))"
| "acceptor_allowed (AOn_accept (Accept_error e)) a = accepting a"
| "acceptor_allowed (ARun_stop last_owner) a =
     ((\<exists>hs. ac_posted a = Post_stop # hs) \<and> (\<forall>c \<in> set (live_connections a). \<not> last_owner c))"
| "acceptor_allowed (ADestroyed c) a = (c \<in> set (live_connections a))"

text \<open>
  The history adds the connections that were accepted although the acceptor had been stopped: their
  acceptance had completed when \<open>stop_in_thread\<close> cancelled the pending one.
\<close>

record acceptor_history =
  acc :: acceptor
  late :: "nat list"

fun accepts :: "acceptor_event \<Rightarrow> nat list" where
  "accepts (AOn_accept (Accepted c (Ok _))) = [c]"
| "accepts _ = []"

definition acceptor_init :: "acceptor_history \<Rightarrow> bool" where
  "acceptor_init h \<longleftrightarrow> (\<exists>a is_unix. mk_acceptor (Ok ()) is_unix = Ok a \<and> h = \<lparr>acc = a, late = []\<rparr>)"

definition acceptor_step :: "acceptor_history \<Rightarrow> acceptor_history \<Rightarrow> bool" where
  "acceptor_step h h' \<longleftrightarrow> (\<exists>user ev. acceptor_allowed ev (acc h) \<and>
     h' = \<lparr>acc = snd (acceptor_exec user ev (acc h)),
           late = late h @ (if ac_task (acc h) = STOPPED then accepts ev else [])\<rparr>)"

definition acceptor_inv :: "acceptor_history \<Rightarrow> bool" where
  "acceptor_inv h \<longleftrightarrow>
     (let a = acc h in
       set (connection_list a) = set (live_connections a) \<and> distinct (connection_list a) \<and>
       set (live_connections a) \<subseteq> set (handed_over a) \<and>
       ((accepting a \<or> Post_accept_next \<in> set (ac_posted a) \<or> live_connections a \<noteq> []) \<longrightarrow> ac_has_callback a) \<and>
       ac_task a \<noteq> STARTING \<and> (ac_has_callback a \<longrightarrow> ac_task a \<noteq> INIT) \<and>
       (acceptor_open a \<longleftrightarrow> ac_task a \<noteq> STOPPED) \<and> (socket_file a \<longleftrightarrow> ac_unix a \<and> ac_task a \<noteq> STOPPED) \<and>
       (ac_task a = STOPPED \<longrightarrow> set (live_connections a) \<subseteq> set (close_requests a) \<union> set (late h)))"

lemma stop_in_thread_result:
  assumes "set (connection_list a) \<subseteq> set (live_connections a)"
    and "\<forall>c \<in> set (live_connections a). \<not> last_owner c"
  shows "stop_in_thread last_owner a =
    (Ok (), if ac_task a = STOPPED then a
      else (let a = a\<lparr>ac_task := STOPPED, acceptor_open := False, close_requests := close_requests a @ connection_list a\<rparr>
        in if ac_unix a then a\<lparr>socket_file := False\<rparr> else a))"
proof -
  have "async_close_all (\<lambda>c. c \<in> set (live_connections a)) last_owner (connection_list a) =
      Ok (filter (\<lambda>c. c \<in> set (live_connections a)) (connection_list a))"
    using assms(2) by (intro async_close_all_Ok) auto
  also have "filter (\<lambda>c. c \<in> set (live_connections a)) (connection_list a) = connection_list a"
    using assms(1) by (simp add: filter_id_conv subset_iff)
  finally show ?thesis
    by (cases "ac_task a") (simp_all add: stop_in_thread_def handle_stop_requested_def Let_def)
qed

text \<open>What a successful acceptance does to the state, whatever the callback does.\<close>

lemma on_accept_state:
  assumes "ac_has_callback a"
  shows "snd (on_accept user (Accepted c (Ok ())) a) =
    a\<lparr>accepting := (user c = Ok () \<and> is_processing (ac_task a) \<and> ac_executor_alive a),
      live_connections := live_connections a @ [c],
      connection_list := list_append c (connection_list a), handed_over := handed_over a @ [c]\<rparr>"
  using assms
  by (cases a; cases "user c") (simp_all add: on_accept_def async_accept_next_def bind_act_def Let_def)

lemma on_accept_failed_state:
  "snd (on_accept user (Accept_error err) a) = a\<lparr>accepting := False\<rparr>"
  "r \<noteq> Ok () \<Longrightarrow> snd (on_accept user (Accepted c r) a) = a\<lparr>accepting := False\<rparr>"
  by (cases r; simp add: on_accept_def Let_def)+

lemma acceptor_exec_inv:
  assumes inv: "acceptor_inv h" and ok: "acceptor_allowed ev (acc h)"
    and h': "h' = \<lparr>acc = snd (acceptor_exec user ev (acc h)),
      late = late h @ (if ac_task (acc h) = STOPPED then accepts ev else [])\<rparr>"
  shows "acceptor_inv h'"
proof -
  define a where "a = acc h"
  note i = inv [unfolded acceptor_inv_def Let_def, folded a_def]
  show ?thesis
  proof (cases ev)
    case AStart
    then show ?thesis using i h'
      by (cases "ac_task a")
        (simp_all add: a_def [symmetric] acceptor_inv_def acceptor_start_def handle_start_request_def
          handle_processing_started_def)
  next
    case AStop
    then show ?thesis using i h' by (simp add: a_def [symmetric] acceptor_inv_def acceptor_stop_def)
  next
    case ARun_accept_next
    with ok obtain hs where "ac_posted a = Post_accept_next # hs" by (auto simp: a_def)
    then show ?thesis using i h' ARun_accept_next
      by (simp add: a_def [symmetric] acceptor_inv_def async_accept_next_def)
  next
    case (AOn_accept r)
    show ?thesis
    proof (cases "\<exists>c. r = Accepted c (Ok ())")
      case True
      then obtain c where r: "r = Accepted c (Ok ())" by blast
      have c: "accepting a" "c \<notin> set (live_connections a)" using ok AOn_accept r by (simp_all add: a_def)
      then have cb: "ac_has_callback a" using i by simp
      have "c \<notin> set (connection_list a)" using i c by simp
      then show ?thesis using i cb h' AOn_accept r
        by (cases "ac_task a = STOPPED")
          (auto simp: a_def [symmetric] acceptor_inv_def on_accept_state list_append_def is_processing_def)
    next
      case False
      have "snd (on_accept user r a) = a\<lparr>accepting := False\<rparr>"
      proof (cases r)
        case (Accepted c x)
        with False show ?thesis by (auto intro: on_accept_failed_state(2))
      next
        case (Accept_error err)
        then show ?thesis by (simp only: on_accept_failed_state(1))
      qed
      moreover have "accepts ev = []"
      proof (cases r)
        case (Accepted c x)
        with False AOn_accept show ?thesis by (cases x) simp_all
      qed (simp add: AOn_accept)
      ultimately show ?thesis using i h' AOn_accept by (simp add: a_def [symmetric] acceptor_inv_def)
    qed
  next
    case (ARun_stop last_owner)
    with ok obtain hs where p: "ac_posted a = Post_stop # hs" and
      lo: "\<forall>c \<in> set (live_connections a). \<not> last_owner c" by (auto simp: a_def)
    let ?a = "a\<lparr>ac_posted := hs\<rparr>"
    have "snd (acceptor_exec user ev a) = (if ac_task a = STOPPED then ?a
      else (let a = ?a\<lparr>ac_task := STOPPED, acceptor_open := False, close_requests := close_requests a @ connection_list a\<rparr>
        in if ac_unix a then a\<lparr>socket_file := False\<rparr> else a))"
      using stop_in_thread_result [of ?a last_owner] i lo p ARun_stop by simp
    then show ?thesis using i h' p ARun_stop
      by (cases "ac_task a = STOPPED"; cases "ac_unix a")
        (simp_all add: a_def [symmetric] acceptor_inv_def Let_def le_supI1 le_supI2)
  next
    case (ADestroyed c)
    then show ?thesis using i h'
      by (auto simp: a_def [symmetric] acceptor_inv_def connection_destroyed_def list_remove_def filter_empty_conv Let_def)
  qed
qed

interpretation acceptor_sys: invariant_system acceptor_init acceptor_step acceptor_inv
proof
  fix h
  assume "acceptor_init h"
  then show "acceptor_inv h" by (auto simp: acceptor_init_def mk_acceptor_def acceptor_inv_def)
next
  fix h h'
  assume "acceptor_inv h" "acceptor_step h h'"
  then show "acceptor_inv h'" unfolding acceptor_step_def using acceptor_exec_inv by blast
qed

section \<open>Properties\<close>

text \<open>
  C36. An acceptor keeps track of its connections: in every order of starts, stops, acceptances (also
  of connections whose constructor or callback throws) and destructions, its list holds exactly the
  living connections, each once, all of which were handed to the callback; and once it is stopped, it
  does not listen any more, the file of a Unix socket is gone, and every living connection has been
  asked to close, except those whose acceptance was reported after the stop.
\<close>

theorem acceptor_tracks_connections:
  assumes "reach acceptor_init acceptor_step h"
  shows "(let a = acc h in
      set (connection_list a) = set (live_connections a) \<and> distinct (connection_list a) \<and>
      set (live_connections a) \<subseteq> set (handed_over a) \<and>
      (acceptor_open a \<longleftrightarrow> ac_task a \<noteq> STOPPED) \<and> (socket_file a \<longleftrightarrow> ac_unix a \<and> ac_task a \<noteq> STOPPED) \<and>
      (ac_task a = STOPPED \<longrightarrow> set (live_connections a) \<subseteq> set (close_requests a) \<union> set (late h)))"
proof -
  have "acceptor_inv h" using assms by (rule acceptor_sys.reach_inv)
  then show ?thesis by (simp add: acceptor_inv_def Let_def)
qed

lemma reach_acceptor_event:
  assumes "reach acceptor_init acceptor_step h" and "acceptor_allowed ev (acc h)"
  shows "reach acceptor_init acceptor_step \<lparr>acc = snd (acceptor_exec user ev (acc h)),
    late = late h @ (if ac_task (acc h) = STOPPED then accepts ev else [])\<rparr>"
  by (rule reach_step [OF assms(1)]) (use assms(2) in \<open>auto simp: acceptor_step_def\<close>)

text \<open>Runs for the witnesses.\<close>

fun acceptor_run :: "acceptor_event list \<Rightarrow> acceptor_history \<Rightarrow> acceptor_history option" where
  "acceptor_run [] h = Some h"
| "acceptor_run (ev # evs) h =
     (if acceptor_allowed ev (acc h)
      then acceptor_run evs \<lparr>acc = snd (acceptor_exec (\<lambda>_. Ok ()) ev (acc h)),
             late = late h @ (if ac_task (acc h) = STOPPED then accepts ev else [])\<rparr>
      else None)"

lemma acceptor_run_reach:
  "acceptor_run evs h = Some h' \<Longrightarrow> reach acceptor_init acceptor_step h \<Longrightarrow> reach acceptor_init acceptor_step h'"
proof (induction evs arbitrary: h)
  case Nil
  then show ?case by simp
next
  case (Cons ev evs)
  then show ?case using reach_acceptor_event [OF Cons.prems(2), of ev "\<lambda>_. Ok ()"]
    by (cases "acceptor_allowed ev (acc h)") simp_all
qed

definition new_acceptor :: "bool \<Rightarrow> acceptor_history" where
  "new_acceptor is_unix = \<lparr>acc = \<lparr>ac_task = INIT, ac_has_callback = False, ac_unix = is_unix, ac_posted = [],
     accepting = False, acceptor_open = True, ac_executor_alive = True, connection_list = [],
     live_connections = [], close_requests = [], handed_over = [], socket_file = is_unix\<rparr>, late = []\<rparr>"

lemma reach_new_acceptor: "reach acceptor_init acceptor_step (new_acceptor is_unix)"
  by (rule reach_init) (simp add: acceptor_init_def mk_acceptor_def new_acceptor_def)

lemmas run_simps = new_acceptor_def acceptor_start_def acceptor_stop_def async_accept_next_def on_accept_def
  stop_in_thread_def handle_start_request_def handle_processing_started_def handle_stop_requested_def
  is_processing_def list_append_def Let_def

theorem acceptor_tracks_connections_witness:
  "\<exists>h. reach acceptor_init acceptor_step h \<and> connection_list (acc h) = [7] \<and> ac_task (acc h) = STOPPED \<and>
     late h = [] \<and> set (live_connections (acc h)) \<subseteq> set (close_requests (acc h)) \<union> set (late h)"
proof -
  let ?evs = "[AStart, ARun_accept_next, AOn_accept (Accepted 7 (Ok ())), AStop, ARun_stop (\<lambda>_. False)]"
  obtain h where h: "acceptor_run ?evs (new_acceptor True) = Some h" "connection_list (acc h) = [7]"
    "ac_task (acc h) = STOPPED" "late h = []"
    by (simp add: run_simps)
  have r: "reach acceptor_init acceptor_step h" using acceptor_run_reach [OF h(1) reach_new_acceptor] .
  from acceptor_tracks_connections [OF r] r h show ?thesis unfolding Let_def by blast
qed

text \<open>
  A connection can slip through \<open>stop\<close>: when its acceptance completed before \<open>stop_in_thread\<close>
  ran but is reported after it, the connection is started although the acceptor was stopped, and
  nothing that is left to run asks it to close.
\<close>

theorem late_accept_escapes_stop:
  "\<exists>h. reach acceptor_init acceptor_step h \<and> ac_task (acc h) = STOPPED \<and>
     7 \<in> set (live_connections (acc h)) \<and> 7 \<in> set (handed_over (acc h)) \<and> 7 \<notin> set (close_requests (acc h)) \<and>
     ac_posted (acc h) = [] \<and> \<not> accepting (acc h)"
proof -
  let ?evs = "[AStart, ARun_accept_next, AStop, ARun_stop (\<lambda>_. False), AOn_accept (Accepted 7 (Ok ()))]"
  obtain h where h: "acceptor_run ?evs (new_acceptor True) = Some h" "ac_task (acc h) = STOPPED"
     "7 \<in> set (live_connections (acc h))" "7 \<in> set (handed_over (acc h))" "7 \<notin> set (close_requests (acc h))"
     "ac_posted (acc h) = []" "\<not> accepting (acc h)"
    by (simp add: run_simps)
  then show ?thesis using acceptor_run_reach [OF h(1) reach_new_acceptor] by blast
qed

text \<open>
  Closing all connections locks the mutex of the list twice exactly when it turns out to be the last
  owner of one of them.
\<close>

theorem close_all_locks_twice:
  "async_close_all alive last_owner l = Undefined \<longleftrightarrow> (\<exists>c \<in> set l. alive c \<and> last_owner c)"
  by (induction l) (auto simp: bind_out_Undefined_iff)

end
