(* ===== verification/Server.thy ===== *)
theory Server
  imports Acceptor Executors Methods
begin

text \<open>
  The server and its builder (\<open>src/msgpack_rpc/servers/impl/server_impl.h\<close>,
  \<open>server_builder_impl.h\<close>, \<open>i_server_builder_impl.cpp\<close>).

  A builder and the servers it made share one executor, which is a part of the state of every
  operation here. \<open>stop\<close> of the executor blocks until its threads have ended: \<open>finish\<close> is the run
  of the threads from the state in which \<open>stop\<close> waits at the joins to the state in which the joins
  have returned (theory \<open>Executors\<close> shows that there is one). The signal handler is asio's; of it,
  only that the callback registered for exceptions stops the wait for a signal is used.
\<close>

section \<open>The server\<close>

record ('s, 'm) server =
  acceptors :: "acceptor list"
  processor_ptr :: "('s, 'm) method_processor option"
  executor_set :: bool
  srv_started :: bool
  srv_stopped :: bool
  dropped_acceptors :: "acceptor list"

type_synonym ('s, 'm) server_world = "('s, 'm) server \<times> general_executor"

definition mk_server :: "acceptor list \<Rightarrow> ('s, 'm) method_processor option \<Rightarrow> ('s, 'm) server" where
  "mk_server as p = \<lparr>acceptors = as, processor_ptr = p, executor_set = True, srv_started = False,
     srv_stopped = False, dropped_acceptors = []\<rparr>"

fun start_acceptors :: "acceptor list \<Rightarrow> (exn, unit) outcome \<times> acceptor list" where
  "start_acceptors [] = (Ok (), [])"
| "start_acceptors (a # as) =
     (case acceptor_start a of
        (Ok _, a') \<Rightarrow> (let (r, as') = start_acceptors as in (r, a' # as'))
      | (Throw e, a') \<Rightarrow> (Throw e, a' # as)
      | (Undefined, a') \<Rightarrow> (Undefined, a' # as))"

text \<open>Callback \<open>0\<close> is the one that stops the signal handler.\<close>

definition server_start :: "(nat \<Rightarrow> bool) \<Rightarrow> (('s, 'm) server_world, unit) action" where
  "server_start can_create = (\<lambda>(s, ex).
     if srv_started s then (throw_rpc PRECONDITION_NOT_MET ''This server has already been started.'', (s, ex))
     else
       (let (r, as) = start_acceptors (acceptors s); s = s\<lparr>srv_started := True, acceptors := as\<rparr>
        in case r of
             Ok _ \<Rightarrow>
               if \<not> executor_set s then (Undefined, (s, ex))
               else (let (r1, ex) = on_exception 0 ex; (r2, ex) = executor_start can_create ex in (r2, (s, ex)))
           | Throw e \<Rightarrow> (Throw e, (s, ex))
           | Undefined \<Rightarrow> (Undefined, (s, ex))))"

definition server_stop :: "(general_executor \<Rightarrow> general_executor) \<Rightarrow> (('s, 'm) server_world, unit) action" where
  "server_stop finish = (\<lambda>(s, ex).
     if \<not> srv_started s then (Ok (), (s, ex))
     else if srv_stopped s then (Ok (), (s, ex))
     else
       (let s = s\<lparr>srv_stopped := True\<rparr>;
            s = s\<lparr>dropped_acceptors := dropped_acceptors s @ map acceptor_stop (acceptors s), acceptors := []\<rparr>;
            s = s\<lparr>processor_ptr := None\<rparr>
        in if \<not> executor_set s then (Undefined, (s, ex))
           else (Ok (), (s\<lparr>executor_set := False\<rparr>, finish (snd (executor_stop ex))))))"

text \<open>\<open>run_until_signal\<close> from the point where the wait for a signal returned.\<close>

definition run_until_signal :: "(general_executor \<Rightarrow> general_executor) \<Rightarrow> (('s, 'm) server_world, unit) action" where
  "run_until_signal finish = (\<lambda>(s, ex).
     if \<not> executor_set s then (Undefined, (s, ex))
     else
       (let e = last_exception ex in
        bind_act (server_stop finish) (\<lambda>_.
          case e of None \<Rightarrow> return_act () | Some x \<Rightarrow> throw_act x) (s, ex)))"

definition local_endpoint_uris :: "(acceptor \<Rightarrow> uri) \<Rightarrow> ('s, 'm) server \<Rightarrow> uri list" where
  "local_endpoint_uris local_uri s = map local_uri (acceptors s)"

text \<open>The destructor ignores what \<open>stop\<close> throws.\<close>

definition server_destroy :: "(general_executor \<Rightarrow> general_executor) \<Rightarrow> (('s, 'm) server_world, unit) action" where
  "server_destroy finish =
     try_act (server_stop finish) (\<lambda>e. if is_std_exception e then return_act () else throw_act e)"

section \<open>The builder\<close>

text \<open>
  \<open>factories sch\<close> is what \<open>create_acceptor_factory\<close> of the backend registered for the scheme makes.
\<close>

record ('s, 'm, 'sock) server_builder =
  bd_backends :: "'sock backend_list"
  bd_uris :: "uri list"
  bd_processor :: "('s, 'm) method_processor option"

type_synonym factory = "(exn, uri \<Rightarrow> (exn, acceptor list) outcome) outcome"

definition mk_server_builder :: "'sock backend_list \<Rightarrow> uri list \<Rightarrow> ('s, 'm, 'sock) server_builder" where
  "mk_server_builder backends uris =
     \<lparr>bd_backends = backends, bd_uris = uris, bd_processor = Some create_method_processor\<rparr>"

definition register_protocol where
  "register_protocol backend b =
     bind_out (backend_append backend (bd_backends b)) (\<lambda>bs. Ok (b\<lparr>bd_backends := bs\<rparr>))"

definition listen_to :: "uri \<Rightarrow> ('s, 'm, 'sock) server_builder \<Rightarrow> ('s, 'm, 'sock) server_builder" where
  "listen_to u b = b\<lparr>bd_uris := bd_uris b @ [u]\<rparr>"

definition builder_add_method where
  "builder_add_method method b =
     (case bd_processor b of
        None \<Rightarrow> Undefined
      | Some p \<Rightarrow> bind_out (processor_append method p) (\<lambda>p. Ok (b\<lparr>bd_processor := Some p\<rparr>)))"

fun collect_acceptors ::
    "'sock backend_list \<Rightarrow> (string \<Rightarrow> factory) \<Rightarrow> uri list \<Rightarrow> (exn, acceptor list) outcome" where
  "collect_acceptors backends factories [] = Ok []"
| "collect_acceptors backends factories (u # us) =
     bind_out (backend_find backends (scheme u)) (\<lambda>backend.
     bind_out (factories (b_scheme backend)) (\<lambda>create.
     bind_out (create u) (\<lambda>added.
     bind_out (collect_acceptors backends factories us) (\<lambda>as. Ok (added @ as)))))"

text \<open>
  \<open>build\<close>: when \<open>start\<close> throws, the server that was made is destroyed on the way out.
\<close>

definition build ::
    "(string \<Rightarrow> factory) \<Rightarrow> (nat \<Rightarrow> bool) \<Rightarrow> (general_executor \<Rightarrow> general_executor) \<Rightarrow>
     ('s, 'm, 'sock) server_builder \<times> general_executor \<Rightarrow>
     (exn, ('s, 'm) server) outcome \<times> ('s, 'm, 'sock) server_builder \<times> general_executor" where
  "build factories can_create finish = (\<lambda>(b, ex).
     if bd_uris b = [] then (throw_rpc PRECONDITION_NOT_MET ''No URI to listen to was given.'', b, ex)
     else
       (case collect_acceptors (bd_backends b) factories (bd_uris b) of
          Throw e \<Rightarrow> (Throw e, b, ex)
        | Undefined \<Rightarrow> (Undefined, b, ex)
        | Ok as \<Rightarrow>
            if as = [] then (throw_rpc PRECONDITION_NOT_MET ''All URI set to listen to was unusable.'', b, ex)
            else
              (let s = mk_server as (bd_processor b); b = b\<lparr>bd_processor := None\<rparr> in
               case server_start can_create (s, ex) of
                 (Ok _, (s, ex)) \<Rightarrow> (Ok s, b, ex)
               | (Undefined, (s, ex)) \<Rightarrow> (Undefined, b, ex)
               | (Throw e, w) \<Rightarrow>
                   (case server_destroy finish w of
                      (Ok _, (s, ex)) \<Rightarrow> (Throw e, b, ex)
                    | (_, (s, ex)) \<Rightarrow> (Undefined, b, ex)))))"

section \<open>Starting\<close>

lemma acceptor_start_new: "mk_acceptor (Ok ()) is_unix = Ok a \<Longrightarrow>
    acceptor_start a = (Ok (), a\<lparr>ac_task := PROCESSING, ac_has_callback := True, ac_posted := [Post_accept_next]\<rparr>)"
  by (auto simp: mk_acceptor_def acceptor_start_def handle_start_request_def handle_processing_started_def)

definition new_acceptors :: "acceptor list \<Rightarrow> bool" where
  "new_acceptors as \<longleftrightarrow> (\<forall>a \<in> set as. ac_task a = INIT)"

lemma start_acceptors_new:
  "new_acceptors as \<Longrightarrow> \<exists>as'. start_acceptors as = (Ok (), as') \<and> length as' = length as \<and>
    (\<forall>a \<in> set as'. ac_task a = PROCESSING \<and> ac_has_callback a \<and> Post_accept_next \<in> set (ac_posted a))"
proof (induction as)
  case Nil
  then show ?case by simp
next
  case (Cons a as)
  then have "ac_task a = INIT" by (simp add: new_acceptors_def)
  then have a: "acceptor_start a = (Ok (), a\<lparr>ac_task := PROCESSING, ac_has_callback := True,
      ac_posted := ac_posted a @ [Post_accept_next]\<rparr>)"
    by (simp add: acceptor_start_def handle_start_request_def handle_processing_started_def)
  from Cons obtain as' where as': "start_acceptors as = (Ok (), as')" "length as' = length as"
    "\<forall>a \<in> set as'. ac_task a = PROCESSING \<and> ac_has_callback a \<and> Post_accept_next \<in> set (ac_posted a)"
    by (auto simp: new_acceptors_def)
  then show ?case by (simp add: a)
qed

section \<open>Building\<close>

text \<open>
  The factories of the default backends (\<open>tcp_backend.cpp\<close>, \<open>unix_socket_backend.cpp\<close>).
\<close>

definition default_factory ::
    "('ep, 'sock) net \<Rightarrow> ('ep \<Rightarrow> (exn, unit) outcome) \<Rightarrow> bool \<Rightarrow> string \<Rightarrow> factory" where
  "default_factory net listen executor_alive sch =
     bind_out (backend_executor executor_alive) (\<lambda>_.
       Ok (if sch = TCP_SCHEME then tcp_create_acceptors net listen else unix_create_acceptors net listen))"

lemma mk_acceptor_INIT: "mk_acceptor (Ok ()) is_unix = Ok a \<Longrightarrow> ac_task a = INIT"
  by (auto simp: mk_acceptor_def)

lemma create_acceptors_new: "create_acceptors listen is_unix eps = Ok as \<Longrightarrow> new_acceptors as"
  unfolding new_acceptors_def using create_acceptors_fresh mk_acceptor_INIT by blast

lemma default_factory_new:
  assumes "default_factory net listen alive sch = Ok create" and "create u = Ok as"
  shows "new_acceptors as"
proof -
  have "create = (if sch = TCP_SCHEME then tcp_create_acceptors net listen else unix_create_acceptors net listen)"
    using assms(1) unfolding default_factory_def bind_out_Ok_iff outcome.inject by blast
  then have c: "(if sch = TCP_SCHEME then tcp_create_acceptors net listen u else unix_create_acceptors net listen u) = Ok as"
    using assms(2) by (cases "sch = TCP_SCHEME") simp_all
  show ?thesis
  proof (cases "sch = TCP_SCHEME")
    case True
    with c obtain eps where "create_acceptors listen False eps = Ok as"
      by (cases "tcp_acceptor_resolve net ''tcp'' u") (simp_all add: tcp_create_acceptors_def)
    then show ?thesis by (rule create_acceptors_new)
  next
    case False
    with c obtain ep where "create_acceptors listen True [ep] = Ok as"
      by (cases "unix_endpoint net (host_or_path u)") (simp_all add: unix_create_acceptors_def del: create_acceptors.simps)
    then show ?thesis by (rule create_acceptors_new)
  qed
qed

lemma collect_acceptors_new:
  "collect_acceptors backends (default_factory net listen alive) us = Ok as \<Longrightarrow> new_acceptors as"
proof (induction us arbitrary: as)
  case Nil
  then show ?case by (simp add: new_acceptors_def)
next
  case (Cons u us)
  obtain backend where b: "backend_find backends (scheme u) = Ok backend"
    using Cons.prems by (cases "backend_find backends (scheme u)") simp_all
  obtain create where f: "default_factory net listen alive (b_scheme backend) = Ok create"
    using Cons.prems b by (cases "default_factory net listen alive (b_scheme backend)") simp_all
  obtain added where d: "create u = Ok added" using Cons.prems b f by (cases "create u") simp_all
  obtain as' where r: "collect_acceptors backends (default_factory net listen alive) us = Ok as'"
    using Cons.prems b f d by (cases "collect_acceptors backends (default_factory net listen alive) us") simp_all
  have "as = added @ as'" using Cons.prems b f d r by simp
  note c = f d r this
  have "new_acceptors added" using default_factory_new [OF c(1,2)] .
  moreover have "new_acceptors as'" using Cons.IH [OF c(3)] .
  ultimately show ?case using c(4) by (auto simp: new_acceptors_def)
qed

lemma server_start_new:
  assumes "new_acceptors as" and "\<not> ex_started ex" and "\<forall>k. c k"
  shows "\<exists>as'. server_start c (mk_server as p, ex) =
      (Ok (), ((mk_server as' p)\<lparr>srv_started := True\<rparr>,
        (map_pairs (\<lambda>p. p\<lparr>ctx_thread := Running\<rparr>) ex)
          \<lparr>exception_callbacks := exception_callbacks ex @ [0], ex_started := True\<rparr>)) \<and>
    length as' = length as \<and>
    (\<forall>a \<in> set as'. ac_task a = PROCESSING \<and> ac_has_callback a \<and> Post_accept_next \<in> set (ac_posted a))"
proof -
  from start_acceptors_new [OF assms(1)] obtain as' where as': "start_acceptors as = (Ok (), as')"
    "length as' = length as"
    "\<forall>a \<in> set as'. ac_task a = PROCESSING \<and> ac_has_callback a \<and> Post_accept_next \<in> set (ac_posted a)" by blast
  have "\<not> ex_started (snd (on_exception 0 ex))" using assms(2) by (simp add: on_exception_def)
  from executor_start_all [OF this assms(3)] as' show ?thesis
    by (intro exI [of _ as']) (simp add: server_start_def mk_server_def on_exception_def map_pairs_def)
qed

lemma server_start_again:
  assumes "new_acceptors as" and "ex_started ex"
  shows "\<exists>as'. server_start c (mk_server as p, ex) =
      (throw_rpc PRECONDITION_NOT_MET ''An executor must not be run multiple times.'',
       ((mk_server as' p)\<lparr>srv_started := True\<rparr>, ex\<lparr>exception_callbacks := exception_callbacks ex @ [0]\<rparr>))"
proof -
  from start_acceptors_new [OF assms(1)] obtain as' where "start_acceptors as = (Ok (), as')" by blast
  then show ?thesis using assms(2)
    by (intro exI [of _ as']) (simp add: server_start_def mk_server_def on_exception_def executor_start_def)
qed


definition example_builder :: "(nat, outgoing, string) server_builder" where
  "example_builder = mk_server_builder example_backends [tcp_uri ''a'']"

lemma example_collect:
  "\<exists>as. collect_acceptors (bd_backends example_builder) (default_factory example_net (\<lambda>_. Ok ()) True)
      (bd_uris example_builder) = Ok as \<and> length as = 1"
  by (simp add: example_builder_def mk_server_builder_def example_backends_def tcp_uri_def backend_find_def
      TCP_SCHEME_def UNIX_SOCKET_SCHEME_def tcp_backend_def default_factory_def backend_executor_def
      tcp_create_acceptors_def tcp_acceptor_resolve_def example_net_def mk_acceptor_def)


text \<open>
  Building a second time destroys the first server: the executor is shared and already started,
  so the start of the second server throws, and its destructor stops the executor under the first
  one; the methods of the builder had been moved away before.
\<close>

theorem second_build_stops_executor:
  assumes "ex_started ex" and "collect_acceptors (bd_backends b) (default_factory net listen alive) (bd_uris b) = Ok as"
    and "as \<noteq> []" and "\<forall>e. ex_stopped (finish e) = ex_stopped e"
  shows "\<exists>ex'. build (default_factory net listen alive) can_create finish (b, ex) =
      (throw_rpc PRECONDITION_NOT_MET ''An executor must not be run multiple times.'', b\<lparr>bd_processor := None\<rparr>, ex') \<and>
    ex_stopped ex' \<and> \<not> is_running ex'"
proof -
  have ne: "bd_uris b \<noteq> []" using assms(2,3) by auto
  have "new_acceptors as" using collect_acceptors_new [OF assms(2)] .
  from server_start_again [OF this assms(1), of can_create "bd_processor b"] obtain as' where s:
    "server_start can_create (mk_server as (bd_processor b), ex) =
      (throw_rpc PRECONDITION_NOT_MET ''An executor must not be run multiple times.'',
       ((mk_server as' (bd_processor b))\<lparr>srv_started := True\<rparr>,
        ex\<lparr>exception_callbacks := exception_callbacks ex @ [0]\<rparr>))" by blast
  let ?e = "finish (snd (executor_stop (ex\<lparr>exception_callbacks := exception_callbacks ex @ [0]\<rparr>)))"
  have "ex_stopped ?e" using assms(4)
    by (simp add: executor_stop_def async_stop_threads_gently_def)
  then have "\<not> is_running ?e" "ex_stopped ?e" by (simp_all add: is_running_def)
  then show ?thesis using ne assms(2,3) s
    by (simp add: build_def server_destroy_def server_stop_def mk_server_def)
qed

theorem second_build_stops_executor_witness:
  "\<exists>s b1 ex1 ex2. build (default_factory example_net (\<lambda>_. Ok ()) True) (\<lambda>_. True) id
       (example_builder, mk_general_executor default_executor_config) = (Ok s, b1, ex1) \<and> is_running ex1 \<and>
     build (default_factory example_net (\<lambda>_. Ok ()) True) (\<lambda>_. True) id (b1, ex1) =
       (throw_rpc PRECONDITION_NOT_MET ''An executor must not be run multiple times.'', b1, ex2) \<and> \<not> is_running ex2"
proof -
  obtain as where as: "collect_acceptors (bd_backends example_builder) (default_factory example_net (\<lambda>_. Ok ()) True)
      (bd_uris example_builder) = Ok as" "length as = 1" using example_collect by blast
  then have ne: "as \<noteq> []" "bd_uris example_builder \<noteq> []" by auto
  let ?ex = "mk_general_executor default_executor_config"
  let ?b1 = "example_builder\<lparr>bd_processor := None\<rparr>"
  have new: "new_acceptors as" using collect_acceptors_new [OF as(1)] .
  have "\<not> ex_started ?ex" by (simp add: mk_general_executor_def)
  from server_start_new [OF new this, of "\<lambda>_. True" "bd_processor example_builder"] obtain as' where s1:
    "server_start (\<lambda>_. True) (mk_server as (bd_processor example_builder), ?ex) =
      (Ok (), ((mk_server as' (bd_processor example_builder))\<lparr>srv_started := True\<rparr>,
        (map_pairs (\<lambda>p. p\<lparr>ctx_thread := Running\<rparr>) ?ex)
          \<lparr>exception_callbacks := exception_callbacks ?ex @ [0], ex_started := True\<rparr>))" by auto
  define ex1 where "ex1 = (map_pairs (\<lambda>p. p\<lparr>ctx_thread := Running\<rparr>) ?ex)
          \<lparr>exception_callbacks := exception_callbacks ?ex @ [0], ex_started := True\<rparr>"
  have r1: "build (default_factory example_net (\<lambda>_. Ok ()) True) (\<lambda>_. True) id (example_builder, ?ex) =
      (Ok ((mk_server as' (bd_processor example_builder))\<lparr>srv_started := True\<rparr>), ?b1, ex1)"
    using s1 as(1) ne by (simp add: build_def ex1_def)
  have run: "is_running ex1" "ex_started ex1"
    by (simp_all add: ex1_def is_running_def map_pairs_def mk_general_executor_def)
  have "collect_acceptors (bd_backends ?b1) (default_factory example_net (\<lambda>_. Ok ()) True) (bd_uris ?b1) = Ok as"
    using as(1) by simp
  from second_build_stops_executor [OF run(2) this ne(1), of id "\<lambda>_. True"] r1 run(1) show ?thesis by auto
qed

section \<open>The life of a server\<close>

datatype server_event =
    Sv_stop "general_executor \<Rightarrow> general_executor"
  | Sv_wait_ended "general_executor \<Rightarrow> general_executor"
  | Sv_thread operation_type nat "(exn, unit) outcome"
  | Sv_acceptor nat "nat \<Rightarrow> (exn, unit) outcome" acceptor_event

text \<open>
  The user stops the server or its wait for a signal ends, a thread ends, or a handler of an acceptor
  runs.
\<close>

fun server_exec :: "server_event \<Rightarrow> (('s, 'm) server_world, unit) action" where
  "server_exec (Sv_stop finish) w = server_stop finish w"
| "server_exec (Sv_wait_ended finish) w = run_until_signal finish w"
| "server_exec (Sv_thread type i r) (s, ex) = (let (x, ex) = run_in_thread type i r ex in (x, (s, ex)))"
| "server_exec (Sv_acceptor k user ev) (s, ex) =
     (if k < length (acceptors s)
      then (let (x, a) = acceptor_exec user ev (acceptors s ! k) in (x, (s\<lparr>acceptors := (acceptors s)[k := a]\<rparr>, ex)))
      else (Ok (), (s, ex)))"

definition server_init :: "('s, 'm) server_world \<Rightarrow> bool" where
  "server_init w \<longleftrightarrow> (\<exists>as p ex c. new_acceptors as \<and> \<not> ex_started ex \<and> (\<forall>k. c k) \<and>
     server_start c (mk_server as p, ex) = (Ok (), w))"

definition server_step :: "('s, 'm) server_world \<Rightarrow> ('s, 'm) server_world \<Rightarrow> bool" where
  "server_step w w' \<longleftrightarrow> (\<exists>ev. w' = snd (server_exec ev w))"

definition server_inv :: "('s, 'm) server_world \<Rightarrow> bool" where
  "server_inv w \<longleftrightarrow>
     (let s = fst w in
       srv_started s \<and> (executor_set s \<longleftrightarrow> \<not> srv_stopped s) \<and>
       (srv_stopped s \<longrightarrow> acceptors s = [] \<and> processor_ptr s = None) \<and>
       (\<forall>a \<in> set (dropped_acceptors s). \<exists>hs. ac_posted a = hs @ [Post_stop]))"

lemma server_stop_inv: "server_inv w \<Longrightarrow> server_inv (snd (server_stop finish w))"
  by (cases w) (auto simp: server_stop_def server_inv_def acceptor_stop_def Let_def)

lemma server_stop_Ok: "server_inv w \<Longrightarrow> fst (server_stop finish w) = Ok ()"
  by (cases w) (auto simp: server_stop_def server_inv_def)

lemma run_until_signal_eq:
  assumes "server_inv (s, ex)" and "\<not> srv_stopped s"
  shows "run_until_signal finish (s, ex) =
    (case last_exception ex of None \<Rightarrow> Ok () | Some e \<Rightarrow> Throw e, snd (server_stop finish (s, ex)))"
proof -
  obtain w where "server_stop finish (s, ex) = (Ok (), w)"
    using server_stop_Ok [OF assms(1), of finish] by (cases "server_stop finish (s, ex)") auto
  moreover have "executor_set s" using assms by (simp add: server_inv_def)
  ultimately show ?thesis
    by (cases "last_exception ex") (simp_all add: run_until_signal_def)
qed

interpretation server_sys: invariant_system server_init server_step server_inv
proof
  fix w :: "('s, 'm) server_world"
  assume "server_init w"
  then obtain as p ex c where i: "new_acceptors as" "\<not> ex_started ex" "\<forall>k. c k"
    "server_start c (mk_server as p, ex) = (Ok (), w)" by (auto simp: server_init_def)
  from server_start_new [OF i(1-3), of p] i(4) obtain as' ex' where
    "w = ((mk_server as' p)\<lparr>srv_started := True\<rparr>, ex')" by auto
  then show "server_inv w" by (simp add: server_inv_def mk_server_def)
next
  fix w w' :: "('s, 'm) server_world"
  assume inv: "server_inv w" and "server_step w w'"
  then obtain ev where w': "w' = snd (server_exec ev w)" by (auto simp: server_step_def)
  obtain s ex where w: "w = (s, ex)" by fastforce
  show "server_inv w'"
  proof (cases ev)
    case (Sv_stop finish)
    then show ?thesis using w' server_stop_inv [OF inv] by simp
  next
    case (Sv_wait_ended finish)
    show ?thesis
    proof (cases "srv_stopped s")
      case True
      then have "\<not> executor_set s" using inv w by (simp add: server_inv_def)
      then show ?thesis using inv w w' Sv_wait_ended by (simp add: run_until_signal_def)
    next
      case False
      then show ?thesis using w' w Sv_wait_ended run_until_signal_eq [of s ex finish] inv server_stop_inv [OF inv, of finish]
        by simp
    qed
  next
    case (Sv_thread type i r)
    then show ?thesis using inv w w' by (simp add: server_inv_def split: prod.splits)
  next
    case (Sv_acceptor k user ev')
    then show ?thesis using inv w w' by (auto simp: server_inv_def split: prod.splits)
  qed
qed


lemma reach_server_started:
  assumes "new_acceptors as" and "\<not> ex_started ex"
  shows "\<exists>as'. length as' = length as \<and> reach server_init server_step ((mk_server as' p)\<lparr>srv_started := True\<rparr>,
    (map_pairs (\<lambda>p. p\<lparr>ctx_thread := Running\<rparr>) ex)\<lparr>exception_callbacks := exception_callbacks ex @ [0], ex_started := True\<rparr>)"
proof -
  from server_start_new [OF assms, of "\<lambda>_. True" p] obtain as' where
    s: "server_start (\<lambda>_. True) (mk_server as p, ex) =
      (Ok (), ((mk_server as' p)\<lparr>srv_started := True\<rparr>, (map_pairs (\<lambda>p. p\<lparr>ctx_thread := Running\<rparr>) ex)
          \<lparr>exception_callbacks := exception_callbacks ex @ [0], ex_started := True\<rparr>))" "length as' = length as" by auto
  have "server_init ((mk_server as' p)\<lparr>srv_started := True\<rparr>, (map_pairs (\<lambda>p. p\<lparr>ctx_thread := Running\<rparr>) ex)
          \<lparr>exception_callbacks := exception_callbacks ex @ [0], ex_started := True\<rparr>)"
    unfolding server_init_def
    by (intro exI [of _ as] exI [of _ p] exI [of _ ex] exI [of _ "\<lambda>_. True"] conjI assms allI TrueI s(1))
  then show ?thesis using s(2) by (blast intro: reach_init)
qed




end
