(* ===== verification/Server_Connection.thy ===== *)
theory Server_Connection
  imports Methods "HOL-Library.Multiset"
begin

text \<open>
  The server's side of a connection (\<open>src/msgpack_rpc/servers/server_connection.h\<close>). Received
  requests and notifications are posted to the callback threads of the executor, which run them in
  any order and at the same time; responses go through a queue under a mutex, one in flight at a
  time.

  A handler is the sequence of its atomic parts: running the method (\<open>run_request\<close>), pushing the
  response under the lock, and \<open>send_next_if_exists\<close>, whose body up to \<open>lock.unlock()\<close> is one step.
  \<open>computed\<close> holds the responses of handlers that have not pushed them yet, \<open>owed\<close> the number of
  handlers that have yet to call \<open>send_next_if_exists\<close>. \<open>out_box\<close> records the calls of \<open>async_send\<close>.
\<close>

section \<open>State\<close>

datatype server_task = TRequest parsed_request | TNotification parsed_notification

record ('s, 'm) server_connection =
  posted :: "server_task list"
  computed :: "'m list"
  message_queue :: "'m list"
  sc_is_sending :: bool
  owed :: nat
  out_box :: "'m list"
  connected :: bool
  closing :: bool
  app :: 's

definition mk_server_connection :: "'s \<Rightarrow> ('s, 'm) server_connection" where
  "mk_server_connection a =
     \<lparr>posted = [], computed = [], message_queue = [], sc_is_sending = False, owed = 0, out_box = [],
      connected = True, closing = False, app = a\<rparr>"

section \<open>Functions\<close>

definition on_invalid_message :: "('s, 'm) server_connection \<Rightarrow> ('s, 'm) server_connection" where
  "on_invalid_message s = (if connected s then s\<lparr>closing := True\<rparr> else s)"

definition on_received :: "parsed_message \<Rightarrow> ('s, 'm) server_connection \<Rightarrow> ('s, 'm) server_connection" where
  "on_received message s =
     (case message of
        PRequest r \<Rightarrow> s\<lparr>posted := posted s @ [TRequest r]\<rparr>
      | PNotification n \<Rightarrow> s\<lparr>posted := posted s @ [TNotification n]\<rparr>
      | PResponse r \<Rightarrow> on_invalid_message s)"

definition run_request where
  "run_request ser processor request s =
     (let (r, a) = processor_call ser processor request (app s)
      in case r of
           Ok response \<Rightarrow> (Ok (), s\<lparr>app := a, computed := computed s @ [response]\<rparr>)
         | Throw e \<Rightarrow> (Throw e, s\<lparr>app := a\<rparr>)
         | Undefined \<Rightarrow> (Undefined, s\<lparr>app := a\<rparr>))"

definition push_response :: "nat \<Rightarrow> ('s, 'm) server_connection \<Rightarrow> ('s, 'm) server_connection" where
  "push_response j s =
     s\<lparr>message_queue := message_queue s @ [computed s ! j],
       computed := take j (computed s) @ drop (Suc j) (computed s), owed := Suc (owed s)\<rparr>"

definition send_next_if_exists :: "('s, 'm) server_connection \<Rightarrow> ('s, 'm) server_connection" where
  "send_next_if_exists s =
     (if sc_is_sending s then s
      else (case message_queue s of
              [] \<Rightarrow> s
            | next_message # q \<Rightarrow>
                (let s = s\<lparr>message_queue := q, sc_is_sending := True\<rparr>
                 in if connected s then s\<lparr>out_box := out_box s @ [next_message]\<rparr> else s)))"

text \<open>The call of \<open>send_next_if_exists\<close> a handler owes.\<close>

definition owed_send :: "('s, 'm) server_connection \<Rightarrow> ('s, 'm) server_connection" where
  "owed_send s = send_next_if_exists (s\<lparr>owed := owed s - 1\<rparr>)"

text \<open>\<open>on_request\<close> as one thread runs it, and its parts as steps.\<close>

definition on_request where
  "on_request ser processor request s =
     bind_act (run_request ser processor request) (\<lambda>_ s.
       (Ok (), send_next_if_exists
          (s\<lparr>message_queue := message_queue s @ [last (computed s)], computed := butlast (computed s)\<rparr>))) s"

definition on_notification where
  "on_notification processor notification s =
     (let (r, a) = processor_notify processor notification (app s) in (r, s\<lparr>app := a\<rparr>))"

text \<open>\<open>on_sent\<close>: the flag is cleared, then \<open>send_next_if_exists\<close> is called.\<close>

definition on_sent_clear :: "('s, 'm) server_connection \<Rightarrow> ('s, 'm) server_connection" where
  "on_sent_clear s = s\<lparr>sc_is_sending := False, owed := Suc (owed s)\<rparr>"

lemma on_request_steps:
  "on_request ser processor request s =
     (case run_request ser processor request s of
        (Ok u, s1) \<Rightarrow> (Ok (), owed_send (push_response (length (computed s1) - 1) s1))
      | (Throw e, s1) \<Rightarrow> (Throw e, s1)
      | (Undefined, s1) \<Rightarrow> (Undefined, s1))"
proof -
  have "owed_send (push_response (length (computed s)) (s\<lparr>app := a, computed := computed s @ [x]\<rparr>)) =
      send_next_if_exists (s\<lparr>app := a, message_queue := message_queue s @ [x]\<rparr>)" for x a
    by (cases s) (simp add: owed_send_def push_response_def)
  then show ?thesis
    by (auto simp: on_request_def run_request_def bind_act_def Let_def split: outcome.splits prod.splits)
qed

text \<open>A request that meets an idle connection: the answer is handed to the connection at once.\<close>

lemma on_request_idle:
  assumes m: "methods mp (req_method request) = Some (functional_method ser is_void nm num as_tuple fn)"
    and spec: "call_spec is_void num as_tuple fn request (app s) = (Ok out, a)" "ser out = Ok msg"
    and idle: "\<not> sc_is_sending s" "message_queue s = []" "connected s"
  shows "\<exists>s'. on_request ser mp request s = (Ok (), s') \<and>
    out_box s' = out_box s @ [msg] \<and> app s' = a \<and> message_queue s' = [] \<and> sc_is_sending s'"
  using processor_call_answer [OF m spec] idle
  by (simp add: on_request_def run_request_def bind_act_def send_next_if_exists_def Let_def)

section \<open>Steps\<close>

text \<open>
  A history adds what was computed and pushed so far, in order, what was taken off the queue when
  the connection was gone, and the number of completed writes. The connection is held by a weak
  pointer; it is gone when nothing else refers to it, in particular no pending write, so \<open>on_sent\<close>
  is not called after that.
\<close>

record ('s, 'm) sc_history =
  sconn :: "('s, 'm) server_connection"
  answers :: "'m list"
  pushed :: "'m list"
  lost :: "'m list"
  written :: nat

text \<open>What the server does by itself, and the receipt of a message.\<close>

inductive sc_local for ser and processor where
  run_req: "k < length (posted s) \<Longrightarrow> posted s ! k = TRequest r \<Longrightarrow>
     run_request ser processor r (s\<lparr>posted := take k (posted s) @ drop (Suc k) (posted s)\<rparr>) = (x, s') \<Longrightarrow>
     sconn h = s \<Longrightarrow>
     sc_local ser processor h (h\<lparr>sconn := s', answers := answers h @ drop (length (computed s)) (computed s')\<rparr>)"
| run_not: "k < length (posted s) \<Longrightarrow> posted s ! k = TNotification n \<Longrightarrow>
     on_notification processor n (s\<lparr>posted := take k (posted s) @ drop (Suc k) (posted s)\<rparr>) = (x, s') \<Longrightarrow>
     sconn h = s \<Longrightarrow> sc_local ser processor h (h\<lparr>sconn := s'\<rparr>)"
| push: "j < length (computed s) \<Longrightarrow> sconn h = s \<Longrightarrow>
     sc_local ser processor h (h\<lparr>sconn := push_response j s, pushed := pushed h @ [computed s ! j]\<rparr>)"
| send: "0 < owed s \<Longrightarrow> sconn h = s \<Longrightarrow> sc_local ser processor h (h\<lparr>sconn := owed_send s,
       lost := lost h @ (if connected s then []
         else take (length (message_queue s) - length (message_queue (owed_send s))) (message_queue s))\<rparr>)"
| sent: "sc_is_sending s \<Longrightarrow> connected s \<Longrightarrow> sconn h = s \<Longrightarrow>
     sc_local ser processor h (h\<lparr>sconn := on_sent_clear s, written := Suc (written h)\<rparr>)"
| disconnect: "sc_local ser processor h (h\<lparr>sconn := (sconn h)\<lparr>connected := False\<rparr>\<rparr>)"

inductive sc_step for ser and processor where
  receive: "sc_step ser processor h (h\<lparr>sconn := on_received m (sconn h)\<rparr>)"
| local: "sc_local ser processor h h' \<Longrightarrow> sc_step ser processor h h'"

definition sc_init :: "('s, 'm) sc_history \<Rightarrow> bool" where
  "sc_init h \<longleftrightarrow> (\<exists>a. h = \<lparr>sconn = mk_server_connection a, answers = [], pushed = [], lost = [], written = 0\<rparr>)"

definition sc_inv :: "('s, 'm) sc_history \<Rightarrow> bool" where
  "sc_inv h \<longleftrightarrow>
     (let s = sconn h in
       (connected s \<longrightarrow> lost h = []) \<and> (lost h \<noteq> [] \<longrightarrow> sc_is_sending s) \<and> length (lost h) \<le> 1 \<and>
       pushed h = out_box s @ lost h @ message_queue s \<and>
       mset (answers h) = mset (pushed h) + mset (computed s) \<and>
       length (out_box s) + length (lost h) = written h + of_bool (sc_is_sending s) \<and>
       (message_queue s \<noteq> [] \<and> \<not> sc_is_sending s \<longrightarrow> 0 < owed s))"

lemma mset_remove_nth: "j < length xs \<Longrightarrow> mset xs = {#xs ! j#} + mset (take j xs @ drop (Suc j) xs)"
  by (metis add_mset_add_single id_take_nth_drop mset.simps(2) mset_append union_commute union_mset_add_mset_right)

text \<open>What running a method leaves alone.\<close>

lemma run_request_frame:
  assumes "run_request ser processor r s = (x, s')"
  shows "(\<exists>cs. computed s' = computed s @ cs) \<and> connected s' = connected s \<and> out_box s' = out_box s \<and>
    message_queue s' = message_queue s \<and> sc_is_sending s' = sc_is_sending s \<and> owed s' = owed s"
proof -
  obtain y a where y: "processor_call ser processor r (app s) = (y, a)" by (cases "processor_call ser processor r (app s)")
  show ?thesis
  proof (cases y)
    case (Ok m)
    then have "s' = s\<lparr>app := a, computed := computed s @ [m]\<rparr>" using assms y by (simp add: run_request_def)
    then show ?thesis by simp
  next
    case (Throw e)
    then have "s' = s\<lparr>app := a\<rparr>" using assms y by (simp add: run_request_def)
    then show ?thesis by simp
  next
    case Undefined
    then have "s' = s\<lparr>app := a\<rparr>" using assms y by (simp add: run_request_def)
    then show ?thesis by simp
  qed
qed

lemma on_notification_frame:
  assumes "on_notification processor n s = (x, s')"
  shows "computed s' = computed s \<and> connected s' = connected s \<and> out_box s' = out_box s \<and>
    message_queue s' = message_queue s \<and> sc_is_sending s' = sc_is_sending s \<and> owed s' = owed s"
proof -
  obtain y a where "processor_notify processor n (app s) = (y, a)" by (cases "processor_notify processor n (app s)")
  then have "s' = s\<lparr>app := a\<rparr>" using assms by (simp add: on_notification_def)
  then show ?thesis by simp
qed

lemma on_received_frame:
  "computed (on_received m s) = computed s \<and> connected (on_received m s) = connected s \<and>
   out_box (on_received m s) = out_box s \<and> message_queue (on_received m s) = message_queue s \<and>
   sc_is_sending (on_received m s) = sc_is_sending s \<and> owed (on_received m s) = owed s"
  by (cases m) (simp_all add: on_received_def on_invalid_message_def)

lemma on_received_inv: "sc_inv h \<Longrightarrow> sc_inv (h\<lparr>sconn := on_received m (sconn h)\<rparr>)"
  using on_received_frame [of m "sconn h"] by (simp add: sc_inv_def Let_def)

lemma sc_local_inv: "sc_local ser processor h h' \<Longrightarrow> sc_inv h \<Longrightarrow> sc_inv h'"
proof (induction rule: sc_local.induct)
  case (run_req k s r x s' h)
  from run_request_frame [OF run_req(3)] obtain cs where
    "computed s' = computed s @ cs" "connected s' = connected s" "out_box s' = out_box s"
    "message_queue s' = message_queue s" "sc_is_sending s' = sc_is_sending s" "owed s' = owed s"
    by auto
  then show ?case using run_req(4,5) by (simp add: sc_inv_def Let_def)
next
  case (run_not k s n x s' h)
  from on_notification_frame [OF run_not(3)]
  show ?case using run_not(4,5) by (simp add: sc_inv_def Let_def)
next
  case (push j s h)
  then show ?case using mset_remove_nth [of j "computed s"]
    by (simp add: sc_inv_def push_response_def Let_def)
next
  case (send s h)
  show ?case
  proof (cases "sc_is_sending s \<or> message_queue s = []")
    case True
    then have "owed_send s = s\<lparr>owed := owed s - 1\<rparr>"
      by (auto simp: owed_send_def send_next_if_exists_def)
    then show ?thesis using send True by (cases "connected s") (auto simp: sc_inv_def Let_def)
  next
    case False
    then obtain m q where q: "message_queue s = m # q" by (cases "message_queue s") simp_all
    show ?thesis using send False
      by (cases "connected s") (auto simp: sc_inv_def owed_send_def send_next_if_exists_def Let_def q)
  qed
next
  case (sent s h)
  then show ?case by (auto simp add: sc_inv_def on_sent_clear_def Let_def)
next
  case (disconnect h)
  then show ?case by (simp add: sc_inv_def Let_def)
qed

lemma sc_step_inv: "sc_step ser processor h h' \<Longrightarrow> sc_inv h \<Longrightarrow> sc_inv h'"
  by (cases rule: sc_step.cases) (auto intro: on_received_inv sc_local_inv)

text \<open>Where tasks, answers and messages come from.\<close>

lemma processor_answer:
  assumes "run_request ser processor r s = (x, s')"
  shows "computed s' = computed s \<or>
    (\<exists>out a a'. computed s' = computed s @ [out] \<and> processor_call ser processor r a = (Ok out, a'))"
proof -
  obtain y a where "processor_call ser processor r (app s) = (y, a)" by (cases "processor_call ser processor r (app s)")
  then show ?thesis using assms by (cases y) (auto simp: run_request_def)
qed

lemma run_request_rest:
  assumes "run_request ser processor r s = (x, s')"
  shows "posted s' = posted s"
proof -
  obtain y a where "processor_call ser processor r (app s) = (y, a)" by (cases "processor_call ser processor r (app s)")
  then show ?thesis using assms by (cases y) (auto simp: run_request_def)
qed

lemma sc_local_origin:
  assumes "sc_local ser processor h h'"
  obtains (same) "answers h' = answers h" "\<exists>sent. out_box (sconn h') = out_box (sconn h) @ sent"
        "set (posted (sconn h')) \<subseteq> set (posted (sconn h))"
        "mset (posted (sconn h')) \<subseteq># mset (posted (sconn h))"
    | (ran) r out a a' where "answers h' = answers h @ [out]" "out_box (sconn h') = out_box (sconn h)"
        "mset (posted (sconn h)) = {#TRequest r#} + mset (posted (sconn h'))"
        "processor_call ser processor r a = (Ok out, a')"
  using assms
proof cases
  case (run_req k s r x s')
  let ?s = "s\<lparr>posted := take k (posted s) @ drop (Suc k) (posted s)\<rparr>"
  have p: "mset (posted s) = {#TRequest r#} + mset (posted s')"
    using run_request_rest [OF run_req(4)] mset_remove_nth [OF run_req(2)] run_req(3) by simp
  have o: "out_box s' = out_box s" using run_request_frame [OF run_req(4)] by simp
  from processor_answer [OF run_req(4)] show ?thesis
  proof (elim disjE exE conjE)
    assume "computed s' = computed ?s"
    moreover have "set (posted s') \<subseteq> set (posted s)" using arg_cong [OF p, of set_mset] by auto
    ultimately show ?thesis using run_req(1,5) o p by (intro same) (simp_all add: o)
  next
    fix out a a'
    assume "computed s' = computed ?s @ [out]" "processor_call ser processor r a = (Ok out, a')"
    then show ?thesis using run_req(1,5) o p by (intro ran [of out r a a']) simp_all
  qed
next
  case (run_not k s n x s')
  obtain y a where "processor_notify processor n (app s) = (y, a)" by (cases "processor_notify processor n (app s)")
  then have s': "out_box s' = out_box s" "posted s' = take k (posted s) @ drop (Suc k) (posted s)"
    using run_not(4) by (auto simp: on_notification_def)
  have "mset (posted s) = {#posted s ! k#} + mset (posted s')" using mset_remove_nth [OF run_not(2)] s'(2) by simp
  then show ?thesis using run_not(1,5) s' by (intro same) (auto dest: in_set_takeD in_set_dropD)
next
  case (push j s)
  then show ?thesis by (intro same) (simp_all add: push_response_def)
next
  case (send s)
  have "posted (owed_send s) = posted s" "\<exists>sent. out_box (owed_send s) = out_box s @ sent"
    by (auto simp: owed_send_def send_next_if_exists_def Let_def split: list.splits)
  then show ?thesis using send by (intro same) simp_all
next
  case (sent s)
  then show ?thesis by (intro same) (simp_all add: on_sent_clear_def)
next
  case disconnect
  then show ?thesis by (intro same) simp_all
qed

interpretation sc_sys: invariant_system sc_init "sc_step ser processor" sc_inv for ser processor
proof
  fix h :: "('s, 'm) sc_history"
  assume "sc_init h"
  then show "sc_inv h" by (auto simp: sc_init_def sc_inv_def mk_server_connection_def Let_def)
qed (rule sc_step_inv)

text \<open>
  C11. No response is repeated or stuck, and none is lost while the connection lives, however the
  callback threads interleave: the responses the methods have computed are, as a multiset, those
  handed to the connection, those queued, those still in a handler, and at most one that was taken
  off the queue after the connection was gone; the connection gets them in the order they were
  queued, one at a time (the next only after the write of the one before completed); and when the
  queue is not empty and nothing is in flight, some handler has yet to send.
\<close>

theorem responses_sent_exactly_once:
  assumes "reach sc_init (sc_step ser processor) h"
  shows "mset (answers h) =
      mset (out_box (sconn h)) + mset (lost h) + mset (message_queue (sconn h)) + mset (computed (sconn h)) \<and>
    pushed h = out_box (sconn h) @ lost h @ message_queue (sconn h) \<and>
    length (lost h) \<le> 1 \<and> (connected (sconn h) \<longrightarrow> lost h = []) \<and>
    length (out_box (sconn h)) + length (lost h) = written h + of_bool (sc_is_sending (sconn h)) \<and>
    (message_queue (sconn h) \<noteq> [] \<and> \<not> sc_is_sending (sconn h) \<longrightarrow> 0 < owed (sconn h))"
proof -
  have "sc_inv h" using assms by (rule sc_sys.reach_inv)
  then show ?thesis by (simp add: sc_inv_def Let_def)
qed

theorem responses_sent_exactly_once_witness:
  "\<exists>h. reach sc_init (sc_step Ok (add_processor Ok)) h \<and> answers h = [OutResult 5 (MPosInt 3)] \<and>
     mset (out_box (sconn h)) + mset (lost h) + mset (message_queue (sconn h)) + mset (computed (sconn h)) = {#OutResult 5 (MPosInt 3)#}"
proof -
  let ?req = "add_request [MPosInt 1, MPosInt 2]"
  let ?h0 = "\<lparr>sconn = mk_server_connection 0, answers = [], pushed = [], lost = [], written = 0\<rparr> :: (nat, outgoing) sc_history"
  let ?h1 = "?h0\<lparr>sconn := on_received (PRequest ?req) (sconn ?h0)\<rparr>"
  have r0: "reach sc_init (sc_step Ok (add_processor Ok)) ?h0"
    by (intro reach_init) (auto simp: sc_init_def)
  have r1: "reach sc_init (sc_step Ok (add_processor Ok)) ?h1"
    by (rule reach_step [OF r0 sc_step.receive])
  let ?s = "sconn ?h1"
  have p: "0 < length (posted ?s)" "posted ?s ! 0 = TRequest ?req" by (simp_all add: on_received_def mk_server_connection_def)
  obtain x s' where r: "run_request Ok (add_processor Ok) ?req (?s\<lparr>posted := take 0 (posted ?s) @ drop (Suc 0) (posted ?s)\<rparr>) = (x, s')"
      "computed s' = [OutResult 5 (MPosInt 3)]"
    by (simp add: run_request_def add_call on_received_def mk_server_connection_def)
  have "reach sc_init (sc_step Ok (add_processor Ok))
      (?h1\<lparr>sconn := s', answers := answers ?h1 @ drop (length (computed ?s)) (computed s')\<rparr>)"
    by (rule reach_step [OF r1], rule sc_step.local, rule sc_local.run_req [where k = 0 and s = ?s and r = ?req and x = x and s' = s' and h = ?h1,
        OF p(1) p(2) r(1) refl])
  moreover have "answers ?h1 @ drop (length (computed ?s)) (computed s') = [OutResult 5 (MPosInt 3)]"
    by (simp add: r(2) on_received_def mk_server_connection_def)
  ultimately have h: "reach sc_init (sc_step Ok (add_processor Ok)) (?h1\<lparr>sconn := s', answers := [OutResult 5 (MPosInt 3)]\<rparr>)"
    by simp
  show ?thesis using responses_sent_exactly_once [OF h] h
    by (intro exI [of _ "?h1\<lparr>sconn := s', answers := [OutResult 5 (MPosInt 3)]\<rparr>"]) simp
qed

end
