(* ===== verification/Config_Toml.thy ===== *)
theory Config_Toml
  imports Config
begin

text \<open>
  The parser of configurations in TOML files (\<open>src/msgpack_rpc/config/toml\<close>) and the class that keeps
  what it read (\<open>config_parser.cpp\<close>).

  The TOML library is a parameter: a node is a string, an array, a table (its entries in the order
  of the iteration) or another scalar of a type of the library, with its line. \<open>toml_conv\<close> holds
  \<open>value<T>()\<close>, \<open>None\<close> when the node cannot be converted, and the cast of a double (its bits) to
  nanoseconds, which is undefined when the value does not fit.
\<close>

section \<open>Nodes\<close>

datatype 't toml_node = TNode (toml_line: nat) (toml_val: "'t toml_value")
and 't toml_value =
    TStr string
  | TArr "'t toml_node list"
  | TTab "(string \<times> 't toml_node) list"
  | TScalar 't

fun as_table :: "'t toml_node \<Rightarrow> (string \<times> 't toml_node) list option" where
  "as_table (TNode l (TTab es)) = Some es"
| "as_table _ = None"

fun as_array :: "'t toml_node \<Rightarrow> 't toml_node list option" where
  "as_array (TNode l (TArr xs)) = Some xs"
| "as_array _ = None"

fun as_string :: "'t toml_node \<Rightarrow> string option" where
  "as_string (TNode l (TStr s)) = Some s"
| "as_string _ = None"

record 't toml_conv =
  value_size :: "'t toml_node \<Rightarrow> u64 option"
  value_double :: "'t toml_node \<Rightarrow> u64 option"
  value_string :: "'t toml_node \<Rightarrow> string option"
  to_ns :: "u64 \<Rightarrow> int option"

section \<open>Errors\<close>

definition source_path :: "string option \<Rightarrow> string" where
  "source_path path = (case path of Some p \<Rightarrow> p | None \<Rightarrow> ''(unknown file)'')"

definition throw_error :: "string option \<Rightarrow> 't toml_node \<Rightarrow> string \<Rightarrow> (exn, 'a) outcome" where
  "throw_error path node key =
     throw_rpc INVALID_ARGUMENT
       (''Invalid value for '' @ key @ ''. (at '' @ source_path path @ '':'' @ show_nat (toml_line node) @ '')'')"

definition throw_error_message :: "string option \<Rightarrow> 't toml_node \<Rightarrow> string \<Rightarrow> string \<Rightarrow> (exn, 'a) outcome" where
  "throw_error_message path node key msg =
     throw_rpc INVALID_ARGUMENT
       (''Invalid value for '' @ key @ '': '' @ msg @ '' (at '' @ source_path path @ '':'' @ show_nat (toml_line node) @ '')'')"

text \<open>The handler \<open>catch (const std::exception& e)\<close> of the macros.\<close>

definition rethrow_std where
  "rethrow_std path node key r =
     catch_out r (\<lambda>e. if is_std_exception e then throw_error_message path node key (what e) else Throw e)"

text \<open>\<open>MSGPACK_RPC_PARSE_TOML_VALUE\<close>\<close>

definition parse_toml_value where
  "parse_toml_value path node key conv setter c =
     (case conv node of
        None \<Rightarrow> throw_error path node key
      | Some v \<Rightarrow> rethrow_std path node key (setter v c))"

text \<open>\<open>MSGPACK_RPC_PARSE_TOML_VALUE_DURATION\<close>\<close>

definition parse_toml_value_duration where
  "parse_toml_value_duration path cv node key setter c =
     (case value_double cv node of
        None \<Rightarrow> throw_error path node key
      | Some d \<Rightarrow>
          rethrow_std path node key (case to_ns cv d of None \<Rightarrow> Undefined | Some v \<Rightarrow> setter v c))"

text \<open>The loop over the entries of a table or the elements of an array.\<close>

fun for_each :: "('x \<Rightarrow> 'c \<Rightarrow> ('e, 'c) outcome) \<Rightarrow> 'x list \<Rightarrow> 'c \<Rightarrow> ('e, 'c) outcome" where
  "for_each f [] c = Ok c"
| "for_each f (x # xs) c = bind_out (f x c) (for_each f xs)"

section \<open>Tables of clients and servers\<close>

definition parse_toml_message_parser where
  "parse_toml_message_parser path cv =
     for_each (\<lambda>(key, value) c.
       if key = ''read_buffer_size''
       then parse_toml_value path value key (value_size cv) set_read_buffer_size c
       else Ok c)"

definition parse_toml_executor where
  "parse_toml_executor path cv =
     for_each (\<lambda>(key, value) c.
       if key = ''num_transport_threads''
       then parse_toml_value path value key (value_size cv) set_num_transport_threads c
       else if key = ''num_callback_threads''
       then parse_toml_value path value key (value_size cv) set_num_callback_threads c
       else Ok c)"

definition parse_toml_reconnection where
  "parse_toml_reconnection path cv =
     for_each (\<lambda>(key, value) c.
       if key = ''initial_waiting_time_sec''
       then parse_toml_value_duration path cv value key set_initial_waiting_time c
       else if key = ''max_waiting_time_sec''
       then parse_toml_value_duration path cv value key set_max_waiting_time c
       else if key = ''max_jitter_waiting_time_sec''
       then parse_toml_value_duration path cv value key set_max_jitter_waiting_time c
       else Ok c)"

definition parse_toml_uris where
  "parse_toml_uris path value add c =
     (case as_array value of
        None \<Rightarrow> throw_error path value ''uris''
      | Some elems \<Rightarrow>
          for_each (\<lambda>elem c.
            case as_string elem of
              None \<Rightarrow> throw_error path elem ''uris''
            | Some s \<Rightarrow> rethrow_std path elem ''uris'' (add s c)) elems c)"

text \<open>A child table, parsed into the part of the configuration that \<open>get\<close> reads and \<open>put\<close> writes.\<close>

definition parse_toml_child where
  "parse_toml_child path value key parse get put c =
     (case as_table value of
        None \<Rightarrow> throw_error path value key
      | Some child \<Rightarrow> bind_out (parse child (get c)) (\<lambda>p. Ok (put p c)))"

definition parse_toml_client where
  "parse_toml_client path cv =
     for_each (\<lambda>(key, value) c.
       if key = ''uris'' then parse_toml_uris path value client_add_uri_text c
       else if key = ''call_timeout_sec''
       then parse_toml_value_duration path cv value key set_call_timeout c
       else if key = ''message_parser''
       then parse_toml_child path value key (parse_toml_message_parser path cv) client_message_parser
         (\<lambda>p c. c\<lparr>client_message_parser := p\<rparr>) c
       else if key = ''executor''
       then parse_toml_child path value key (parse_toml_executor path cv) client_executor
         (\<lambda>p c. c\<lparr>client_executor := p\<rparr>) c
       else if key = ''reconnection''
       then parse_toml_child path value key (parse_toml_reconnection path cv) reconnection
         (\<lambda>p c. c\<lparr>reconnection := p\<rparr>) c
       else Ok c)"

definition parse_toml_server where
  "parse_toml_server path cv =
     for_each (\<lambda>(key, value) c.
       if key = ''uris'' then parse_toml_uris path value server_add_uri_text c
       else if key = ''message_parser''
       then parse_toml_child path value key (parse_toml_message_parser path cv) server_message_parser
         (\<lambda>p c. c\<lparr>server_message_parser := p\<rparr>) c
       else if key = ''executor''
       then parse_toml_child path value key (parse_toml_executor path cv) server_executor
         (\<lambda>p c. c\<lparr>server_executor := p\<rparr>) c
       else Ok c)"

section \<open>Tables of logging\<close>

definition parse_log_level where
  "parse_log_level path node key s =
     (if s = ''trace'' then Ok TRACE
      else if s = ''debug'' then Ok DEBUG
      else if s = ''info'' then Ok INFO
      else if s = ''warn'' then Ok WARN
      else if s = ''error'' then Ok ERROR
      else if s = ''critical'' then Ok CRITICAL
      else throw_error path node key)"

definition parse_toml_logging where
  "parse_toml_logging path cv =
     for_each (\<lambda>(key, value) c.
       if key = ''file_path'' then parse_toml_value path value key (value_string cv) set_file_path c
       else if key = ''max_file_size'' then parse_toml_value path value key (value_size cv) set_max_file_size c
       else if key = ''max_files'' then parse_toml_value path value key (value_size cv) set_max_files c
       else if key = ''output_log_level''
       then (case value_string cv value of
           None \<Rightarrow> throw_error path value ''output_log_level''
         | Some s \<Rightarrow>
             bind_out (parse_log_level path value ''output_log_level'' s) (\<lambda>l.
               set_output_log_level (level_value l) c))
       else Ok c)"

section \<open>The root table\<close>

text \<open>
  The maps are shared with the caller and filled while parsing, so what was read before an error
  stays in them: an action on their state.
\<close>

record config_parser =
  logging_configs :: "string \<rightharpoonup> logging_config"
  client_configs :: "string \<rightharpoonup> client_config"
  server_configs :: "string \<rightharpoonup> server_config"

definition empty_parser :: config_parser where
  "empty_parser = \<lparr>logging_configs = Map.empty, client_configs = Map.empty, server_configs = Map.empty\<rparr>"

definition try_emplace :: "string \<Rightarrow> 'c \<Rightarrow> (string \<rightharpoonup> 'c) \<Rightarrow> (string \<rightharpoonup> 'c)" where
  "try_emplace k v m = (case m k of None \<Rightarrow> m(k \<mapsto> v) | Some _ \<Rightarrow> m)"

fun parse_configs ::
    "string option \<Rightarrow> string \<Rightarrow> ((string \<times> 't toml_node) list \<Rightarrow> (exn, 'c) outcome) \<Rightarrow>
     (string \<times> 't toml_node) list \<Rightarrow> (string \<rightharpoonup> 'c) \<Rightarrow> (exn, unit) outcome \<times> (string \<rightharpoonup> 'c)" where
  "parse_configs path nm parse [] m = (Ok (), m)"
| "parse_configs path nm parse ((key, value) # es) m =
     (case as_table value of
        None \<Rightarrow>
          (throw_error_message path value nm ([CHR 0x22] @ nm @ [CHR 0x22] @ '' must be a table of tables.''), m)
      | Some t \<Rightarrow>
          (case parse t of
             Ok c \<Rightarrow> parse_configs path nm parse es (try_emplace key c m)
           | Throw e \<Rightarrow> (Throw e, m)
           | Undefined \<Rightarrow> (Undefined, m)))"

definition parse_logging_configs where
  "parse_logging_configs path cv = parse_configs path ''logging'' (\<lambda>t. parse_toml_logging path cv t default_logging_config)"

definition parse_client_configs where
  "parse_client_configs reserve_size path cv =
     parse_configs path ''client'' (\<lambda>t. parse_toml_client path cv t (default_client_config reserve_size))"

definition parse_server_configs where
  "parse_server_configs reserve_size path cv =
     parse_configs path ''server'' (\<lambda>t. parse_toml_server path cv t (default_server_config reserve_size))"

text \<open>A section of the root table; \<open>tables\<close> parses the tables in it.\<close>

definition parse_section where
  "parse_section path nm tables root m =
     (case map_of root nm of
        None \<Rightarrow> (Ok (), m)
      | Some node \<Rightarrow>
          (case as_table node of
             None \<Rightarrow>
               (throw_error_message path node nm ([CHR 0x22] @ nm @ [CHR 0x22] @ '' must be a table of tables.''), m)
           | Some t \<Rightarrow> tables t m))"

definition parse_logging_section :: "_ \<Rightarrow> _ \<Rightarrow> _ \<Rightarrow> (config_parser, unit) action" where
  "parse_logging_section path cv root p =
     (let (r, m) = parse_section path ''logging'' (parse_logging_configs path cv) root (logging_configs p)
      in (r, p\<lparr>logging_configs := m\<rparr>))"

definition parse_client_section :: "_ \<Rightarrow> _ \<Rightarrow> _ \<Rightarrow> _ \<Rightarrow> (config_parser, unit) action" where
  "parse_client_section reserve_size path cv root p =
     (let (r, m) = parse_section path ''client'' (parse_client_configs reserve_size path cv) root (client_configs p)
      in (r, p\<lparr>client_configs := m\<rparr>))"

definition parse_server_section :: "_ \<Rightarrow> _ \<Rightarrow> _ \<Rightarrow> _ \<Rightarrow> (config_parser, unit) action" where
  "parse_server_section reserve_size path cv root p =
     (let (r, m) = parse_section path ''server'' (parse_server_configs reserve_size path cv) root (server_configs p)
      in (r, p\<lparr>server_configs := m\<rparr>))"

definition parse_toml_root :: "_ \<Rightarrow> _ \<Rightarrow> _ \<Rightarrow> _ \<Rightarrow> (config_parser, unit) action" where
  "parse_toml_root reserve_size path cv root =
     bind_act (parse_logging_section path cv root) (\<lambda>_.
     bind_act (parse_client_section reserve_size path cv root) (\<lambda>_.
     parse_server_section reserve_size path cv root))"

text \<open>
  \<open>parse_toml(file_path, ...)\<close>: \<open>toml_file\<close> is what \<open>toml::parse_file\<close> does, the root table with the path
  recorded in its nodes, or the description and the line of a \<open>toml::parse_error\<close>.
\<close>

definition parse_toml :: "_ \<Rightarrow> _ \<Rightarrow> _ \<Rightarrow> (_ + string \<times> nat) \<Rightarrow> (config_parser, unit) action" where
  "parse_toml reserve_size cv file_path toml_file =
     (case toml_file of
        Inr (description, line) \<Rightarrow>
          throw_act (rpc_error INVALID_ARGUMENT
            (''Failed to parse '' @ file_path @ '': '' @ description @ '' (at '' @ file_path @ '':'' @ show_nat line @ '')''))
      | Inl (path, root) \<Rightarrow>
          try_act (parse_toml_root reserve_size path cv root)
            (\<lambda>e. case rpc_status_of e of
               Some st \<Rightarrow> throw_act (rpc_error INVALID_ARGUMENT
                 (''Failed to parse '' @ file_path @ '': '' @ message_of st))
             | None \<Rightarrow> throw_act e))"

definition get_logging_config :: "config_parser \<Rightarrow> string \<Rightarrow> (exn, logging_config) outcome" where
  "get_logging_config p nm =
     (case logging_configs p nm of
        Some c \<Rightarrow> Ok c
      | None \<Rightarrow> throw_rpc INVALID_ARGUMENT (''Configuration of logging not found: '' @ nm @ ''.''))"

definition get_client_config :: "config_parser \<Rightarrow> string \<Rightarrow> (exn, client_config) outcome" where
  "get_client_config p nm =
     (case client_configs p nm of
        Some c \<Rightarrow> Ok c
      | None \<Rightarrow> throw_rpc INVALID_ARGUMENT (''Configuration of client not found: '' @ nm @ ''.''))"

definition get_server_config :: "config_parser \<Rightarrow> string \<Rightarrow> (exn, server_config) outcome" where
  "get_server_config p nm =
     (case server_configs p nm of
        Some c \<Rightarrow> Ok c
      | None \<Rightarrow> throw_rpc INVALID_ARGUMENT (''Configuration of server not found: '' @ nm @ ''.''))"

section \<open>What parsing ensures\<close>

text \<open>A parser of a part: it keeps the part valid, and whatever it throws is \<open>INVALID_ARGUMENT\<close>.\<close>

definition good_outcome :: "('c \<Rightarrow> bool) \<Rightarrow> (exn, 'c) outcome \<Rightarrow> bool" where
  "good_outcome P r \<longleftrightarrow>
     (case r of Ok c \<Rightarrow> P c | Throw e \<Rightarrow> code_of_exn e = Some INVALID_ARGUMENT | Undefined \<Rightarrow> True)"

lemma good_outcome_simps [simp]:
  "good_outcome P (Ok c) = P c" "good_outcome P (throw_error path node key)"
  "good_outcome P (throw_error_message path node key msg)"
  by (simp_all add: good_outcome_def throw_error_def throw_error_message_def)

lemma good_if: "good_outcome P a \<Longrightarrow> good_outcome P b \<Longrightarrow> good_outcome P (if t then a else b)"
  by simp

lemma good_bind:
  "good_outcome P r \<Longrightarrow> (\<And>x. P x \<Longrightarrow> good_outcome Q (f x)) \<Longrightarrow> good_outcome Q (bind_out r f)"
  by (cases r) (simp_all add: good_outcome_def)

lemma good_for_each:
  "(\<And>x c. x \<in> set xs \<Longrightarrow> P c \<Longrightarrow> good_outcome P (f x c)) \<Longrightarrow> P c \<Longrightarrow> good_outcome P (for_each f xs c)"
  by (induction xs arbitrary: c) (auto intro!: good_bind)

text \<open>Nothing the code calls here throws a value that is not a \<open>std::exception\<close>.\<close>

definition only_std :: "(exn, 'a) outcome \<Rightarrow> bool" where
  "only_std r \<longleftrightarrow> (\<forall>e. r = Throw e \<longrightarrow> is_std_exception e)"

lemma only_std_Undefined [simp]: "only_std Undefined"
  by (simp add: only_std_def)

lemma good_rethrow:
  "only_std r \<Longrightarrow> (\<And>c. r = Ok c \<Longrightarrow> P c) \<Longrightarrow> good_outcome P (rethrow_std path node key r)"
  by (cases r) (auto simp: rethrow_std_def only_std_def good_outcome_def throw_error_message_def)

lemma good_parse_value:
  assumes "P c" and "\<And>v c'. setter v c = Ok c' \<Longrightarrow> P c'" and "\<And>v. only_std (setter v c)"
  shows "good_outcome P (parse_toml_value path node key conv setter c)"
  using assms by (auto simp: parse_toml_value_def split: option.splits intro!: good_rethrow)

lemma good_parse_duration:
  assumes "P c" and "\<And>v c'. setter v c = Ok c' \<Longrightarrow> P c'" and "\<And>v. only_std (setter v c)"
  shows "good_outcome P (parse_toml_value_duration path cv node key setter c)"
  using assms by (auto simp: parse_toml_value_duration_def split: option.splits intro!: good_rethrow)

lemma only_std_setters [simp]:
  "only_std (set_read_buffer_size n c1)" "only_std (set_num_transport_threads n c2)"
  "only_std (set_num_callback_threads n c2)" "only_std (set_initial_waiting_time t c3)"
  "only_std (set_max_waiting_time t c3)" "only_std (set_max_jitter_waiting_time t c3)"
  "only_std (set_file_path s c4)" "only_std (set_max_file_size n c4)" "only_std (set_max_files n c4)"
  "only_std (set_call_timeout t c5)"
  by (simp_all add: only_std_def set_read_buffer_size_def set_num_transport_threads_def
      set_num_callback_threads_def set_initial_waiting_time_def set_max_waiting_time_def
      set_max_jitter_waiting_time_def set_file_path_def set_max_file_size_def set_max_files_def
      set_call_timeout_def)

lemma parse_uri_error: "parse_uri s = Throw e \<Longrightarrow> \<exists>x. e = RpcException x"
  by (auto simp: parse_uri_def uri_of_match_def split: option.splits if_splits)

lemma only_std_uris [simp]: "only_std (client_add_uri_text s c)" "only_std (server_add_uri_text s d)"
  by (auto simp: only_std_def client_add_uri_text_def server_add_uri_text_def bind_out_Throw_iff dest: parse_uri_error)


lemma good_message_parser:
  "parser_config_valid c \<Longrightarrow> good_outcome parser_config_valid (parse_toml_message_parser path cv es c)"
  unfolding parse_toml_message_parser_def
  by (rule good_for_each) (auto intro!: good_parse_value intro: setter_valid)

lemma good_executor:
  "executor_config_valid c \<Longrightarrow>
     good_outcome executor_config_valid (parse_toml_executor path cv (es :: (string \<times> 't toml_node) list) c)"
  unfolding parse_toml_executor_def
proof (rule good_for_each)
  fix x :: "string \<times> 't toml_node" and c
  assume c: "executor_config_valid c"
  obtain key nd where x: "x = (key, nd)" by (cases x)
  have "good_outcome executor_config_valid (parse_toml_value path nd key (value_size cv) set_num_transport_threads c)"
    by (rule good_parse_value) (use c setters_valid(2) in blast, use c setters_valid(2) in blast, simp)
  moreover have "good_outcome executor_config_valid (parse_toml_value path nd key (value_size cv) set_num_callback_threads c)"
    by (rule good_parse_value) (use c setters_valid(3) in blast, use c setters_valid(3) in blast, simp)
  ultimately show "good_outcome executor_config_valid ((\<lambda>(key, value) c.
       if key = ''num_transport_threads''
       then parse_toml_value path value key (value_size cv) set_num_transport_threads c
       else if key = ''num_callback_threads''
       then parse_toml_value path value key (value_size cv) set_num_callback_threads c
       else Ok c) x c)"
    unfolding x prod.case using c by (intro good_if) simp_all
qed

lemma good_reconnection:
  "reconnection_config_valid c \<Longrightarrow>
     good_outcome reconnection_config_valid (parse_toml_reconnection path cv (es :: (string \<times> 't toml_node) list) c)"
  unfolding parse_toml_reconnection_def
proof (rule good_for_each)
  fix x :: "string \<times> 't toml_node" and c
  assume c: "reconnection_config_valid c"
  obtain key nd where x: "x = (key, nd)" by (cases x)
  have "good_outcome reconnection_config_valid (parse_toml_value_duration path cv nd key set_initial_waiting_time c)"
    by (rule good_parse_duration) (use c setters_valid(4) in blast, use c setters_valid(4) in blast, simp)
  moreover have "good_outcome reconnection_config_valid (parse_toml_value_duration path cv nd key set_max_waiting_time c)"
    by (rule good_parse_duration) (use c setters_valid(5) in blast, use c setters_valid(5) in blast, simp)
  moreover have "good_outcome reconnection_config_valid (parse_toml_value_duration path cv nd key set_max_jitter_waiting_time c)"
    by (rule good_parse_duration) (use c setters_valid(6) in blast, use c setters_valid(6) in blast, simp)
  ultimately show "good_outcome reconnection_config_valid ((\<lambda>(key, value) c.
       if key = ''initial_waiting_time_sec''
       then parse_toml_value_duration path cv value key set_initial_waiting_time c
       else if key = ''max_waiting_time_sec''
       then parse_toml_value_duration path cv value key set_max_waiting_time c
       else if key = ''max_jitter_waiting_time_sec''
       then parse_toml_value_duration path cv value key set_max_jitter_waiting_time c
       else Ok c) x c)"
    unfolding x prod.case using c by (intro good_if) simp_all
qed

lemma good_uris:
  assumes "P c" and "\<And>s c c'. P c \<Longrightarrow> add s c = Ok c' \<Longrightarrow> P c'" and "\<And>s c. only_std (add s c)"
  shows "good_outcome P (parse_toml_uris path value add c)"
proof (cases "as_array value")
  case None
  then show ?thesis by (simp add: parse_toml_uris_def)
next
  case (Some elems)
  have "good_outcome P (for_each (\<lambda>elem c. case as_string elem of
              None \<Rightarrow> throw_error path elem ''uris''
            | Some s \<Rightarrow> rethrow_std path elem ''uris'' (add s c)) elems c)"
  proof (rule good_for_each)
    fix elem d
    assume d: "P d"
    have "good_outcome P (rethrow_std path elem ''uris'' (add s d))" for s
      by (rule good_rethrow [OF assms(3) assms(2) [OF d]])
    then show "good_outcome P (case as_string elem of
              None \<Rightarrow> throw_error path elem ''uris''
            | Some s \<Rightarrow> rethrow_std path elem ''uris'' (add s d))"
      by (cases "as_string elem") simp_all
  qed (rule assms(1))
  then show ?thesis by (simp add: parse_toml_uris_def Some)
qed

lemma good_child:
  assumes "Q (get c)" and "\<And>es p. Q p \<Longrightarrow> good_outcome Q (parse es p)" and "\<And>p. Q p \<Longrightarrow> P (put p c)"
  shows "good_outcome P (parse_toml_child path value key parse get put c)"
  using assms by (auto simp: parse_toml_child_def split: option.splits intro!: good_bind [where P = Q])

lemma good_client:
  "client_config_valid c \<Longrightarrow> good_outcome client_config_valid (parse_toml_client path cv (es :: (string \<times> 't toml_node) list) c)"
  unfolding parse_toml_client_def
proof (rule good_for_each)
  fix x :: "string \<times> 't toml_node" and c
  assume c: "client_config_valid c"
  obtain key nd where x: "x = (key, nd)" by (cases x)
  have "good_outcome client_config_valid (parse_toml_uris path nd client_add_uri_text c)"
    by (rule good_uris) (use c in \<open>auto intro: setter_valid\<close>)
  moreover have "good_outcome client_config_valid (parse_toml_value_duration path cv nd key set_call_timeout c)"
    by (rule good_parse_duration) (use c in \<open>auto intro: setter_valid\<close>)
  moreover have "good_outcome client_config_valid
      (parse_toml_child path nd key (parse_toml_message_parser path cv) client_message_parser
         (\<lambda>p c. c\<lparr>client_message_parser := p\<rparr>) c)"
    by (rule good_child [where Q = parser_config_valid])
      (use c in \<open>simp_all add: good_message_parser client_config_valid_def\<close>)
  moreover have "good_outcome client_config_valid
      (parse_toml_child path nd key (parse_toml_executor path cv) client_executor (\<lambda>p c. c\<lparr>client_executor := p\<rparr>) c)"
    by (rule good_child [where Q = executor_config_valid])
      (use c in \<open>simp_all add: good_executor client_config_valid_def\<close>)
  moreover have "good_outcome client_config_valid
      (parse_toml_child path nd key (parse_toml_reconnection path cv) reconnection (\<lambda>p c. c\<lparr>reconnection := p\<rparr>) c)"
    by (rule good_child [where Q = reconnection_config_valid])
      (use c in \<open>simp_all add: good_reconnection client_config_valid_def\<close>)
  ultimately show "good_outcome client_config_valid ((\<lambda>(key, value) c.
       if key = ''uris'' then parse_toml_uris path value client_add_uri_text c
       else if key = ''call_timeout_sec''
       then parse_toml_value_duration path cv value key set_call_timeout c
       else if key = ''message_parser''
       then parse_toml_child path value key (parse_toml_message_parser path cv) client_message_parser
         (\<lambda>p c. c\<lparr>client_message_parser := p\<rparr>) c
       else if key = ''executor''
       then parse_toml_child path value key (parse_toml_executor path cv) client_executor
         (\<lambda>p c. c\<lparr>client_executor := p\<rparr>) c
       else if key = ''reconnection''
       then parse_toml_child path value key (parse_toml_reconnection path cv) reconnection
         (\<lambda>p c. c\<lparr>reconnection := p\<rparr>) c
       else Ok c) x c)"
    unfolding x prod.case using c by (intro good_if) simp_all
qed

lemma good_server:
  "server_config_valid c \<Longrightarrow> good_outcome server_config_valid (parse_toml_server path cv (es :: (string \<times> 't toml_node) list) c)"
  unfolding parse_toml_server_def
proof (rule good_for_each)
  fix x :: "string \<times> 't toml_node" and c
  assume c: "server_config_valid c"
  obtain key nd where x: "x = (key, nd)" by (cases x)
  have "good_outcome server_config_valid (parse_toml_uris path nd server_add_uri_text c)"
    by (rule good_uris) (use c in \<open>auto intro: setter_valid\<close>)
  moreover have "good_outcome server_config_valid
      (parse_toml_child path nd key (parse_toml_message_parser path cv) server_message_parser
         (\<lambda>p c. c\<lparr>server_message_parser := p\<rparr>) c)"
    by (rule good_child [where Q = parser_config_valid])
      (use c in \<open>simp_all add: good_message_parser server_config_valid_def\<close>)
  moreover have "good_outcome server_config_valid
      (parse_toml_child path nd key (parse_toml_executor path cv) server_executor (\<lambda>p c. c\<lparr>server_executor := p\<rparr>) c)"
    by (rule good_child [where Q = executor_config_valid])
      (use c in \<open>simp_all add: good_executor server_config_valid_def\<close>)
  ultimately show "good_outcome server_config_valid ((\<lambda>(key, value) c.
       if key = ''uris'' then parse_toml_uris path value server_add_uri_text c
       else if key = ''message_parser''
       then parse_toml_child path value key (parse_toml_message_parser path cv) server_message_parser
         (\<lambda>p c. c\<lparr>server_message_parser := p\<rparr>) c
       else if key = ''executor''
       then parse_toml_child path value key (parse_toml_executor path cv) server_executor
         (\<lambda>p c. c\<lparr>server_executor := p\<rparr>) c
       else Ok c) x c)"
    unfolding x prod.case using c by (intro good_if) simp_all
qed

lemma good_log_level: "good_outcome (\<lambda>l. True) (parse_log_level path node key s)"
  by (simp add: parse_log_level_def)

lemma good_logging:
  "logging_config_valid c \<Longrightarrow> good_outcome logging_config_valid (parse_toml_logging path cv (es :: (string \<times> 't toml_node) list) c)"
  unfolding parse_toml_logging_def
proof (rule good_for_each)
  fix x :: "string \<times> 't toml_node" and c
  assume c: "logging_config_valid c"
  obtain key nd where x: "x = (key, nd)" by (cases x)
  have "good_outcome logging_config_valid (set_output_log_level (level_value l) c)" for l
    using c by (simp add: set_output_log_level_def logging_config_valid_def)
  then have lvl: "good_outcome logging_config_valid (case value_string cv nd of
           None \<Rightarrow> throw_error path nd ''output_log_level''
         | Some s \<Rightarrow>
             bind_out (parse_log_level path nd ''output_log_level'' s) (\<lambda>l. set_output_log_level (level_value l) c))"
    by (auto split: option.splits intro!: good_bind [OF good_log_level])
  have "good_outcome logging_config_valid (parse_toml_value path nd key (value_string cv) set_file_path c)"
    "good_outcome logging_config_valid (parse_toml_value path nd key (value_size cv) set_max_file_size c)"
    "good_outcome logging_config_valid (parse_toml_value path nd key (value_size cv) set_max_files c)"
    using c by (auto intro!: good_parse_value intro: setter_valid)
  with lvl show "good_outcome logging_config_valid ((\<lambda>(key, value) c.
       if key = ''file_path'' then parse_toml_value path value key (value_string cv) set_file_path c
       else if key = ''max_file_size'' then parse_toml_value path value key (value_size cv) set_max_file_size c
       else if key = ''max_files'' then parse_toml_value path value key (value_size cv) set_max_files c
       else if key = ''output_log_level''
       then (case value_string cv value of
           None \<Rightarrow> throw_error path value ''output_log_level''
         | Some s \<Rightarrow>
             bind_out (parse_log_level path value ''output_log_level'' s) (\<lambda>l.
               set_output_log_level (level_value l) c))
       else Ok c) x c)"
    unfolding x prod.case using c by (intro good_if) simp_all
qed

text \<open>The maps: what was there stays, what is new is valid.\<close>

definition good_map_step :: "('c \<Rightarrow> bool) \<Rightarrow> (string \<rightharpoonup> 'c) \<Rightarrow> (exn, unit) outcome \<times> (string \<rightharpoonup> 'c) \<Rightarrow> bool" where
  "good_map_step P m rm \<longleftrightarrow>
     (\<forall>e. fst rm = Throw e \<longrightarrow> code_of_exn e = Some INVALID_ARGUMENT) \<and> m \<subseteq>\<^sub>m snd rm \<and>
     (\<forall>k c. snd rm k = Some c \<longrightarrow> m k = Some c \<or> P c)"

lemma good_map_step_refl [simp]: "good_map_step P m (Ok (), m)" "good_map_step P m (Undefined, m)"
  "good_map_step P m (throw_error_message path node key msg, m)"
  by (simp_all add: good_map_step_def throw_error_message_def)

lemma good_parse_configs:
  assumes parse: "\<And>t. good_outcome P (parse t)"
  shows "good_map_step P m (parse_configs path nm parse es m)"
proof (induction es arbitrary: m)
  case Nil
  then show ?case by simp
next
  case (Cons kv es)
  obtain key nd where kv: "kv = (key, nd)" by (cases kv)
  show ?case
  proof (cases "as_table nd")
    case None
    then show ?thesis by (simp add: kv)
  next
    case (Some t)
    show ?thesis
    proof (cases "parse t")
      case (Ok c)
      then have "P c" using parse [of t] by simp
      moreover have "m \<subseteq>\<^sub>m try_emplace key c m"
        by (auto simp: try_emplace_def map_le_def split: option.splits)
      moreover have "\<forall>k d. try_emplace key c m k = Some d \<longrightarrow> m k = Some d \<or> d = c"
        by (auto simp: try_emplace_def split: option.splits if_splits)
      moreover have "good_map_step P (try_emplace key c m) (parse_configs path nm parse es (try_emplace key c m))"
        by (rule Cons.IH)
      ultimately have "m \<subseteq>\<^sub>m snd (parse_configs path nm parse es (try_emplace key c m))"
          "snd (parse_configs path nm parse es (try_emplace key c m)) k = Some d \<longrightarrow> m k = Some d \<or> P d"
          "fst (parse_configs path nm parse es (try_emplace key c m)) = Throw e \<longrightarrow> code_of_exn e = Some INVALID_ARGUMENT"
        for k d e
        unfolding good_map_step_def by (blast intro: map_le_trans)+
      then show ?thesis by (simp add: kv Some Ok good_map_step_def)
    next
      case (Throw e)
      then show ?thesis using parse [of t] by (simp add: kv Some good_map_step_def good_outcome_def)
    next
      case Undefined
      then show ?thesis by (simp add: kv Some)
    qed
  qed
qed

lemma good_parse_section:
  "(\<And>es. good_map_step P m (tables es m)) \<Longrightarrow> good_map_step P m (parse_section path nm tables root m)"
  by (auto simp: parse_section_def split: option.splits)

lemma good_config_tables:
  "good_map_step logging_config_valid lm (parse_logging_configs path cv es lm)"
  "0 < reserve_size \<Longrightarrow> good_map_step client_config_valid cm (parse_client_configs reserve_size path cv es cm)"
  "0 < reserve_size \<Longrightarrow> good_map_step server_config_valid sm (parse_server_configs reserve_size path cv es sm)"
  unfolding parse_logging_configs_def parse_client_configs_def parse_server_configs_def
  by (rule good_parse_configs, rule good_logging, rule defaults_valid,
      rule good_parse_configs, rule good_client, rule defaults_valid, assumption,
      rule good_parse_configs, rule good_server, rule defaults_valid, assumption)


definition configs_valid :: "config_parser \<Rightarrow> bool" where
  "configs_valid p \<longleftrightarrow>
     (\<forall>k c. logging_configs p k = Some c \<longrightarrow> logging_config_valid c) \<and>
     (\<forall>k c. client_configs p k = Some c \<longrightarrow> client_config_valid c) \<and>
     (\<forall>k c. server_configs p k = Some c \<longrightarrow> server_config_valid c)"

definition parser_extends :: "config_parser \<Rightarrow> config_parser \<Rightarrow> bool" where
  "parser_extends p q \<longleftrightarrow>
     logging_configs p \<subseteq>\<^sub>m logging_configs q \<and> client_configs p \<subseteq>\<^sub>m client_configs q \<and>
     server_configs p \<subseteq>\<^sub>m server_configs q"

text \<open>The contract of an action that parses: it keeps the configurations valid and only adds to them.\<close>

definition good_parse :: "(config_parser, unit) action \<Rightarrow> bool" where
  "good_parse act \<longleftrightarrow>
     (\<forall>p r q. configs_valid p \<longrightarrow> act p = (r, q) \<longrightarrow>
        configs_valid q \<and> parser_extends p q \<and> (\<forall>e. r = Throw e \<longrightarrow> code_of_exn e = Some INVALID_ARGUMENT))"

lemma parser_extends_trans: "parser_extends p q \<Longrightarrow> parser_extends q r \<Longrightarrow> parser_extends p r"
  unfolding parser_extends_def by (blast intro: map_le_trans)

lemma good_logging_section: "good_parse (parse_logging_section path cv root)"
  unfolding good_parse_def
proof (intro allI impI)
  fix p r q
  assume v: "configs_valid p" and e: "parse_logging_section path cv root p = (r, q)"
  let ?s = "parse_section path ''logging'' (parse_logging_configs path cv) root (logging_configs p)"
  have g: "good_map_step logging_config_valid (logging_configs p) ?s"
    by (rule good_parse_section, rule good_config_tables)
  have "r = fst ?s" "q = p\<lparr>logging_configs := snd ?s\<rparr>"
    using e by (simp_all add: parse_logging_section_def case_prod_beta Let_def)
  moreover have "logging_config_valid c" if "snd ?s k = Some c" for k c
    using g v that unfolding good_map_step_def configs_valid_def by blast
  moreover have "logging_configs p \<subseteq>\<^sub>m snd ?s" "fst ?s = Throw x \<longrightarrow> code_of_exn x = Some INVALID_ARGUMENT" for x
    using g unfolding good_map_step_def by blast+
  ultimately show "configs_valid q \<and> parser_extends p q \<and> (\<forall>e. r = Throw e \<longrightarrow> code_of_exn e = Some INVALID_ARGUMENT)"
    using v by (simp add: configs_valid_def parser_extends_def)
qed

lemma good_client_section: "0 < reserve_size \<Longrightarrow> good_parse (parse_client_section reserve_size path cv root)"
  unfolding good_parse_def
proof (intro allI impI)
  fix p r q
  assume res: "0 < reserve_size"
  assume v: "configs_valid p" and e: "parse_client_section reserve_size path cv root p = (r, q)"
  let ?s = "parse_section path ''client'' (parse_client_configs reserve_size path cv) root (client_configs p)"
  have g: "good_map_step client_config_valid (client_configs p) ?s"
    by (rule good_parse_section, rule good_config_tables, rule res)
  have "r = fst ?s" "q = p\<lparr>client_configs := snd ?s\<rparr>"
    using e by (simp_all add: parse_client_section_def case_prod_beta Let_def)
  moreover have "client_config_valid c" if "snd ?s k = Some c" for k c
    using g v that unfolding good_map_step_def configs_valid_def by blast
  moreover have "client_configs p \<subseteq>\<^sub>m snd ?s" "fst ?s = Throw x \<longrightarrow> code_of_exn x = Some INVALID_ARGUMENT" for x
    using g unfolding good_map_step_def by blast+
  ultimately show "configs_valid q \<and> parser_extends p q \<and> (\<forall>e. r = Throw e \<longrightarrow> code_of_exn e = Some INVALID_ARGUMENT)"
    using v by (simp add: configs_valid_def parser_extends_def)
qed

lemma good_server_section: "0 < reserve_size \<Longrightarrow> good_parse (parse_server_section reserve_size path cv root)"
  unfolding good_parse_def
proof (intro allI impI)
  fix p r q
  assume res: "0 < reserve_size"
  assume v: "configs_valid p" and e: "parse_server_section reserve_size path cv root p = (r, q)"
  let ?s = "parse_section path ''server'' (parse_server_configs reserve_size path cv) root (server_configs p)"
  have g: "good_map_step server_config_valid (server_configs p) ?s"
    by (rule good_parse_section, rule good_config_tables, rule res)
  have "r = fst ?s" "q = p\<lparr>server_configs := snd ?s\<rparr>"
    using e by (simp_all add: parse_server_section_def case_prod_beta Let_def)
  moreover have "server_config_valid c" if "snd ?s k = Some c" for k c
    using g v that unfolding good_map_step_def configs_valid_def by blast
  moreover have "server_configs p \<subseteq>\<^sub>m snd ?s" "fst ?s = Throw x \<longrightarrow> code_of_exn x = Some INVALID_ARGUMENT" for x
    using g unfolding good_map_step_def by blast+
  ultimately show "configs_valid q \<and> parser_extends p q \<and> (\<forall>e. r = Throw e \<longrightarrow> code_of_exn e = Some INVALID_ARGUMENT)"
    using v by (simp add: configs_valid_def parser_extends_def)
qed

lemmas good_sections = good_logging_section good_client_section good_server_section

lemma good_parse_bind: "good_parse a \<Longrightarrow> good_parse b \<Longrightarrow> good_parse (bind_act a (\<lambda>_. b))"
  unfolding good_parse_def
proof (intro allI impI)
  fix p r q
  assume a: "\<forall>p r q. configs_valid p \<longrightarrow> a p = (r, q) \<longrightarrow>
        configs_valid q \<and> parser_extends p q \<and> (\<forall>e. r = Throw e \<longrightarrow> code_of_exn e = Some INVALID_ARGUMENT)"
    and b: "\<forall>p r q. configs_valid p \<longrightarrow> b p = (r, q) \<longrightarrow>
        configs_valid q \<and> parser_extends p q \<and> (\<forall>e. r = Throw e \<longrightarrow> code_of_exn e = Some INVALID_ARGUMENT)"
    and p: "configs_valid p" and ab: "bind_act a (\<lambda>_. b) p = (r, q)"
  obtain ra pa where pa: "a p = (ra, pa)" by (cases "a p")
  show "configs_valid q \<and> parser_extends p q \<and> (\<forall>e. r = Throw e \<longrightarrow> code_of_exn e = Some INVALID_ARGUMENT)"
  proof (cases ra)
    case (Ok u)
    then have "b pa = (r, q)" using ab pa by simp
    then show ?thesis using a b p pa parser_extends_trans by blast
  next
    case (Throw e)
    then have "r = Throw e" "q = pa" using ab pa by simp_all
    then show ?thesis using a p pa Throw by blast
  next
    case Undefined
    then have "r = Undefined" "q = pa" using ab pa by simp_all
    then show ?thesis using a p pa by blast
  qed
qed

lemma good_parse_root: "0 < reserve_size \<Longrightarrow> good_parse (parse_toml_root reserve_size path cv root)"
  unfolding parse_toml_root_def by (intro good_parse_bind good_sections)

text \<open>
  C31. Parsing a TOML file leaves only valid configurations behind, whatever the file holds and
  whether it succeeds: every size is positive, every duration in the range its setter checks, every
  log level one of the enumerators and every URI one the URI parser accepts; configurations read
  earlier are kept, also against a new one of the same name; and the only exception is
  \<open>INVALID_ARGUMENT\<close>.
\<close>

theorem parse_toml_gives_valid_configs:
  assumes "0 < reserve_size" and "configs_valid p"
    and "parse_toml reserve_size cv file_path toml_file p = (r, q)"
  shows "configs_valid q \<and> parser_extends p q \<and> (\<forall>e. r = Throw e \<longrightarrow> code_of_exn e = Some INVALID_ARGUMENT)"
proof (cases toml_file)
  case (Inl f)
  obtain path root where f: "f = (path, root)" by (cases f)
  obtain r1 q1 where q1: "parse_toml_root reserve_size path cv root p = (r1, q1)"
    by (cases "parse_toml_root reserve_size path cv root p")
  then have g: "configs_valid q1" "parser_extends p q1" "\<forall>e. r1 = Throw e \<longrightarrow> code_of_exn e = Some INVALID_ARGUMENT"
    using good_parse_root [OF assms(1), of path cv root] assms(2) unfolding good_parse_def by blast+
  have "q = q1 \<and> (\<forall>e. r = Throw e \<longrightarrow> code_of_exn e = Some INVALID_ARGUMENT)"
    using assms(3) q1 g(3)
    by (cases r1) (auto simp: Inl f parse_toml_def try_act_def code_of_exn_def split: option.splits)
  then show ?thesis using g by simp
next
  case (Inr e)
  then show ?thesis using assms
    by (cases e) (auto simp: parse_toml_def parser_extends_def)
qed

text \<open>A file whose server has no callback thread, which is refused, after a valid client.\<close>

definition example_conv :: "u64 toml_conv" where
  "example_conv = \<lparr>
     value_size = (\<lambda>n. case toml_val n of TScalar v \<Rightarrow> Some v | _ \<Rightarrow> None),
     value_double = (\<lambda>n. case toml_val n of TScalar v \<Rightarrow> Some v | _ \<Rightarrow> None),
     value_string = as_string,
     to_ns = (\<lambda>d. Some (sint d))\<rparr>"

definition example_root :: "(string \<times> u64 toml_node) list" where
  "example_root = [
     (''client'', TNode 1 (TTab [(''c'', TNode 1 (TTab [(''call_timeout_sec'', TNode 2 (TScalar 5))]))])),
     (''server'', TNode 3 (TTab [(''s'', TNode 3 (TTab [(''executor'',
        TNode 4 (TTab [(''num_callback_threads'', TNode 4 (TScalar 0))]))]))]))]"

theorem parse_toml_gives_valid_configs_witness:
  "\<exists>e q. parse_toml 8192 example_conv ''f.toml'' (Inl (Some ''f.toml'', example_root)) empty_parser = (Throw e, q) \<and>
     configs_valid q \<and> code_of_exn e = Some INVALID_ARGUMENT \<and>
     map_option cc_call_timeout (client_configs q ''c'') = Some 5"
proof -
  note defs = parse_toml_def parse_toml_root_def parse_logging_section_def parse_client_section_def
    parse_server_section_def parse_logging_configs_def parse_client_configs_def parse_server_configs_def
    parse_section_def example_root_def example_conv_def empty_parser_def
    parse_toml_client_def parse_toml_value_duration_def set_call_timeout_def rethrow_std_def try_emplace_def
    parse_toml_server_def parse_toml_child_def parse_toml_executor_def parse_toml_value_def
    set_num_callback_threads_def throw_error_message_def bind_act_def try_act_def throw_act_def
  obtain e q where r: "parse_toml 8192 example_conv ''f.toml'' (Inl (Some ''f.toml'', example_root)) empty_parser = (Throw e, q)"
      "map_option cc_call_timeout (client_configs q ''c'') = Some 5"
    by (simp add: defs)
  moreover have "configs_valid empty_parser" by (simp add: configs_valid_def empty_parser_def)
  ultimately show ?thesis
    using parse_toml_gives_valid_configs [of 8192 empty_parser example_conv "''f.toml''" _ "Throw e" q] by auto
qed

end
