(* ===== verification/Public_Interface.thy ===== *)
theory Public_Interface
  imports Client_Builder Server Server_Connection Message_Roundtrip Config_Toml
begin

text \<open>
  The classes a user of the library sees: \<open>clients/client.h\<close>, \<open>clients/client_builder.h\<close>,
  \<open>clients/call_future.h\<close>, \<open>servers/server_builder.h\<close>, \<open>transport/connection_wrapper.h\<close>, with the
  serializer of parameters (\<open>clients/impl/parameters_serializer.h\<close>) and the default builders
  (\<open>client_builder_impl.cpp\<close>, \<open>i_server_builder_impl.cpp\<close>). A value of a C++ type that is a parameter
  is the MessagePack object it is packed as, and \<open>as_T\<close> is the conversion to the type of a result.

  The lemmas show that the default builders know a backend for every URI a user can name in text or
  in a configuration file, and that a typed call returns what the method returned.
\<close>

section \<open>Clients\<close>

definition create_serialized_request where
  "create_serialized_request mem_ok pk params method_name request_id m =
     serialize_request mem_ok pk method_name request_id params m"

definition create_serialized_notification where
  "create_serialized_notification mem_ok pk params method_name m =
     serialize_notification mem_ok pk method_name params m"

text \<open>\<open>Client::async_call\<close> and \<open>Client::notify\<close> in memory \<open>m\<close>.\<close>

definition public_async_call ::
    "(u64 \<Rightarrow> bool) \<Rightarrow> mp_packer \<Rightarrow> memory \<Rightarrow> int \<Rightarrow> string \<Rightarrow> mp_object list \<Rightarrow> (bytes client, nat) action" where
  "public_async_call mem_ok pk m now method_name params =
     async_call now (\<lambda>i. message_bytes (create_serialized_request mem_ok pk params method_name i m))"

definition public_notify ::
    "(u64 \<Rightarrow> bool) \<Rightarrow> mp_packer \<Rightarrow> memory \<Rightarrow> string \<Rightarrow> mp_object list \<Rightarrow> (bytes client, unit) action" where
  "public_notify mem_ok pk m method_name params =
     client_notify (message_bytes (create_serialized_notification mem_ok pk params method_name m))"

text \<open>\<open>CallFuture<Result>\<close>: the wait for the result and its conversion.\<close>

definition typed_result ::
    "(u64 \<Rightarrow> string) \<Rightarrow> (mp_object \<Rightarrow> 'a option) \<Rightarrow> int \<Rightarrow> (int \<times> call_future) list \<Rightarrow> (exn, 'a) outcome option" where
  "typed_result sd as_T fut_dl wakeups =
     map_option (\<lambda>r. bind_out r (get_from_call_result sd as_T)) (get_result fut_dl wakeups)"

definition typed_result_within ::
    "(u64 \<Rightarrow> string) \<Rightarrow> (mp_object \<Rightarrow> 'a option) \<Rightarrow> int \<Rightarrow> int \<Rightarrow> int \<Rightarrow> (int \<times> call_future) list \<Rightarrow>
     (exn, 'a) outcome option" where
  "typed_result_within sd as_T fut_dl now timeout wakeups =
     map_option (\<lambda>r. bind_out r (get_from_call_result sd as_T)) (get_result_within fut_dl now timeout wakeups)"

definition void_result ::
    "(u64 \<Rightarrow> string) \<Rightarrow> int \<Rightarrow> (int \<times> call_future) list \<Rightarrow> (exn, unit) outcome option" where
  "void_result sd fut_dl wakeups =
     map_option (\<lambda>r. bind_out r (get_from_call_result_void sd)) (get_result fut_dl wakeups)"

definition void_result_within ::
    "(u64 \<Rightarrow> string) \<Rightarrow> int \<Rightarrow> int \<Rightarrow> int \<Rightarrow> (int \<times> call_future) list \<Rightarrow> (exn, unit) outcome option" where
  "void_result_within sd fut_dl now timeout wakeups =
     map_option (\<lambda>r. bind_out r (get_from_call_result_void sd)) (get_result_within fut_dl now timeout wakeups)"

text \<open>
  \<open>Client::call\<close> waits for the future at once. \<open>wakeups\<close> gives for a future what the waiting thread
  sees, and the deadline is that of the future.
\<close>

definition public_call ::
    "(u64 \<Rightarrow> bool) \<Rightarrow> mp_packer \<Rightarrow> memory \<Rightarrow> (u64 \<Rightarrow> string) \<Rightarrow> (mp_object \<Rightarrow> 'a option) \<Rightarrow> int \<Rightarrow> string \<Rightarrow> mp_object list \<Rightarrow>
     (nat \<Rightarrow> (int \<times> call_future) list) \<Rightarrow> bytes client \<Rightarrow> (exn, 'a) outcome option \<times> bytes client" where
  "public_call mem_ok pk m sd as_T now method_name params wakeups s =
     (case public_async_call mem_ok pk m now method_name params s of
        (Ok f, s') \<Rightarrow> (typed_result sd as_T (fut_deadline (futures (calls_obj s') f)) (wakeups f), s')
      | (Throw e, s') \<Rightarrow> (Some (Throw e), s')
      | (Undefined, s') \<Rightarrow> (Some Undefined, s'))"

section \<open>Builders\<close>

text \<open>A default builder with the executor it creates, which is alive while the builder is.\<close>

definition create_default_client_builder ::
    "('ep, 'sock) net \<Rightarrow> client_config \<Rightarrow> (exn, 'sock client_builder \<times> general_executor) outcome" where
  "create_default_client_builder net config =
     (let executor = mk_general_executor (client_executor config)
      in bind_out (create_default_backend_list net True) (\<lambda>backends.
           Ok (mk_client_builder config backends, executor)))"

definition connect_to_text :: "string \<Rightarrow> 'sock client_builder \<Rightarrow> (exn, 'sock client_builder) outcome" where
  "connect_to_text s b = bind_out (parse_uri s) (\<lambda>u. Ok (connect_to u b))"

definition connect_to_tcp :: "string \<Rightarrow> u16 \<Rightarrow> 'sock client_builder \<Rightarrow> 'sock client_builder" where
  "connect_to_tcp host port b =
     connect_to \<lparr>scheme = TCP_SCHEME, host_or_path = host, port_number = Some port\<rparr> b"

definition create_default_server_builder ::
    "('ep, 'sock) net \<Rightarrow> server_config \<Rightarrow> (exn, ('s, 'm, 'sock) server_builder \<times> general_executor) outcome" where
  "create_default_server_builder net config =
     (let executor = mk_general_executor (server_executor config)
      in bind_out (create_default_backend_list net True) (\<lambda>backends.
           Ok (mk_server_builder backends (server_uris config), executor)))"

definition listen_to_text :: "string \<Rightarrow> ('s, 'm, 'sock) server_builder \<Rightarrow> (exn, ('s, 'm, 'sock) server_builder) outcome" where
  "listen_to_text s b = bind_out (parse_uri s) (\<lambda>u. Ok (listen_to u b))"

definition listen_to_tcp :: "string \<Rightarrow> u16 \<Rightarrow> ('s, 'm, 'sock) server_builder \<Rightarrow> ('s, 'm, 'sock) server_builder" where
  "listen_to_tcp host port b =
     listen_to \<lparr>scheme = TCP_SCHEME, host_or_path = host, port_number = Some port\<rparr> b"

definition add_function_method where
  "add_function_method ser is_void nm num as_tuple fn b =
     builder_add_method (functional_method ser is_void nm num as_tuple fn) b"

section \<open>Connections without a client\<close>

text \<open>\<open>ConnectionWrapper\<close>: what is serialized is sent.\<close>

definition wrapper_send :: "(exn, nat \<times> memory) outcome \<Rightarrow> (connection, unit) action" where
  "wrapper_send r = bind_act (lift_out (message_bytes r)) (\<lambda>b c. (Ok (), conn_async_send b c))"

definition async_request where
  "async_request mem_ok pk m method_name message_id params =
     wrapper_send (serialize_request mem_ok pk method_name message_id params m)"

definition async_response_success where
  "async_response_success mem_ok pk m request_id r =
     wrapper_send (serialize_successful_response mem_ok pk request_id r m)"

definition async_response_error where
  "async_response_error mem_ok pk m request_id e =
     wrapper_send (serialize_error_response mem_ok pk request_id e m)"

definition async_notify where
  "async_notify mem_ok pk m method_name params =
     wrapper_send (serialize_notification mem_ok pk method_name params m)"

definition wrapper_conn_start :: "(connection, unit) action" where
  "wrapper_conn_start = conn_start"

text \<open>\<open>async_close\<close> posts the end of the connection, without an error, to its thread.\<close>

definition wrapper_async_close :: "(conn_callback \<Rightarrow> (exn, unit) outcome) \<Rightarrow> (connection, unit) action" where
  "wrapper_async_close user = close_in_thread user success_status"

section \<open>What is sent and what is returned\<close>

text \<open>A call of a running client, with the code that serializes its parameters.\<close>

lemma public_call_running:
  assumes inv: "client_inv s" and run: "executor_running s" and clock: "clock_ok (now + call_timeout (calls_obj s))"
    and i: "i = next_id (calls_obj s)" and free: "calls (calls_obj s) i = None"
    and mem: "memory_wf m" "\<forall>n. mem_ok n" "length (wire pk (OutRequest nm i ps)) \<le> MAX_MESSAGE"
  shows "\<exists>f s'. public_async_call mem_ok pk m now nm ps s = (Ok f, s') \<and> calls_ok (calls_obj s') \<and>
    calls (calls_obj s') i = Some f \<and> fut_result (futures (calls_obj s') f) = None \<and>
    sender_obj s' = send_message (wire pk (OutRequest nm i ps)) (Some i) (sender_obj s)"
proof -
  have "message_bytes (create_serialized_request mem_ok pk ps nm i m) = Ok (wire pk (OutRequest nm i ps))"
    using serialized_wire [OF mem] by (simp add: serialized_def serialize_outgoing_def create_serialized_request_def)
  then show ?thesis
    unfolding public_async_call_def i using free unfolding i by (intro async_call_running [OF inv run clock])
qed

text \<open>A future whose result is a success of the right type, or a failure.\<close>

lemma typed_result_of:
  assumes "fut_set fut" and "get_result_impl fut = Ok r"
  shows "typed_result sd as_T d [(t, fut)] = Some (get_from_call_result sd as_T r)"
  using assms by (simp add: typed_result_def get_result_def)

lemma wait_until_last:
  assumes "\<forall>w \<in> set early. \<not> fut_set (snd w) \<and> fst w < d"
  shows "wait_until_impl d (early @ [(t, fut)]) =
    (if fut_set fut then Some (Ok fut) else if d \<le> t then Some (throw_rpc TIMEOUT timeout_message) else None)"
  using assms by (induction early) auto

text \<open>
  C9. A synchronous call. The thread that calls a method on a running client wakes up any number of times
  before the deadline without a result; when it wakes up last, after any responses, timeouts and other
  calls, it returns the result of the first answer to its own call, converted, or throws: the error of
  the server, \<open>TYPE_ERROR\<close>, or \<open>TIMEOUT\<close>, which it also throws when there is no answer at the
  deadline; without an answer before the deadline it goes on waiting.
\<close>

theorem sync_call_outcome:
  assumes running: "client_inv s" "executor_running s" "clock_ok (now + call_timeout (calls_obj s))"
      "calls (calls_obj s) (next_id (calls_obj s)) = None"
    and memory: "memory_wf m" "\<forall>n. mem_ok n" "length (wire pk (OutRequest nm (next_id (calls_obj s)) ps)) \<le> MAX_MESSAGE"
    and call: "public_async_call mem_ok pk m now nm ps s = (r, s1)"
    and later: "call_run cmds (calls_obj s1) = Some cl2"
    and wakes: "\<forall>f. wakeups f = early @ [(t, futures cl2 f)]"
      "\<forall>w \<in> set early. \<not> fut_set (snd w) \<and> (\<forall>f. r = Ok f \<longrightarrow> fst w < fut_deadline (futures (calls_obj s1) f))"
  shows "\<exists>f. r = Ok f \<and> public_call mem_ok pk m sd as_T now nm ps wakeups s =
    (case first_answer (next_id (calls_obj s)) cmds of
       Some (Inl q) \<Rightarrow> Some (get_from_call_result sd as_T q)
     | Some (Inr e) \<Rightarrow> Some (Throw (RpcException (rpc_exception_of_status e)))
     | None \<Rightarrow> if fut_deadline (futures (calls_obj s1) f) \<le> t then Some (throw_rpc TIMEOUT timeout_message) else None, s1)"
proof -
  obtain f where f: "r = Ok f" "calls_ok (calls_obj s1)" "calls (calls_obj s1) (next_id (calls_obj s)) = Some f"
      "fut_result (futures (calls_obj s1) f) = None"
    using public_call_running [OF running(1-3) refl running(4) memory] call by auto
  have unset: "\<not> fut_set (futures (calls_obj s1) f)" by (rule calls_okD(2) [OF f(2,3)])
  have fut: "futures cl2 f = (case first_answer (next_id (calls_obj s)) cmds of
      None \<Rightarrow> futures (calls_obj s1) f | Some a \<Rightarrow> answered a (futures (calls_obj s1) f))"
    by (rule pending_call_answer [OF f(2,3) later])
  have wait: "wait_until_impl (fut_deadline (futures (calls_obj s1) f)) (wakeups f) =
      (if fut_set (futures cl2 f) then Some (Ok (futures cl2 f))
       else if fut_deadline (futures (calls_obj s1) f) \<le> t then Some (throw_rpc TIMEOUT timeout_message) else None)"
    unfolding wakes(1) [rule_format] by (rule wait_until_last) (use wakes(2) f(1) in simp)
  show ?thesis
    using call unset f(1,4) wait unfolding fut
    by (auto simp: public_call_def typed_result_def get_result_def answered_def get_result_impl_def
        split: option.splits sum.splits)
qed

theorem sync_call_outcome_witness:
  "\<exists>(s :: bytes client) s1 fut. reach client_init client_step s \<and> executor_running s \<and>
     public_call (\<lambda>_. True) ref_packer empty_memory (\<lambda>_. ''0'') Some 0 ''f'' [] (\<lambda>_. [(1, fut)]) s =
       (Some (Throw (RpcException (rpc_exception_of_status (mk_status TIMEOUT timeout_message)))), s1)"
proof -
  obtain s0 :: "bytes client" where s0: "mk_client (default_client_config 8192) 5 = Ok s0"
    by (simp add: mk_client_def mk_connector_def mk_reconnection_timer_def default_client_config_def default_reconnection_config_def)
  obtain s where s: "client_start (Ok ()) (Ok ()) s0 = (Ok (), s)" "executor_running s" "reach client_init client_step s"
    using client_started_running [OF s0] by blast
  have c: "calls_obj s = mk_call_list 15000000000 5"
    using s(1) s0 by (auto simp: client_start_def bind_act_def deref_def mk_client_def bind_out_Ok_iff default_client_config_def
        split: if_splits)
  have inv: "client_inv s" by (rule client_sys.reach_inv [OF s(3)])
  have clock: "clock_ok (0 + call_timeout (calls_obj s))" "calls (calls_obj s) (next_id (calls_obj s)) = None"
    by (simp_all add: c mk_call_list_def clock_ok_def)
  have ok: "\<forall>n. (\<lambda>_ :: u64. True) n" by simp
  have small: "length (wire ref_packer (OutRequest ''f'' (next_id (calls_obj s)) [])) \<le> MAX_MESSAGE"
    by (simp add: c mk_call_list_def wire_pack_list pack_list_ref MAX_MESSAGE_def)
  obtain r s1 where call: "public_async_call (\<lambda>_. True) ref_packer empty_memory 0 ''f'' [] s = (r, s1)"
    by (cases "public_async_call (\<lambda>_. True) ref_packer empty_memory 0 ''f'' [] s")
  obtain f where f: "r = Ok f" "calls_ok (calls_obj s1)" "calls (calls_obj s1) (next_id (calls_obj s)) = Some f"
    using public_call_running [OF inv s(2) clock(1) refl clock(2) memory_wf_empty ok small] call by auto
  obtain cl2 where run: "call_run [Expired (next_id (calls_obj s)) :: bytes call_cmd] (calls_obj s1) = Some cl2"
    using on_timeout_answer [OF f(2)] by simp
  have wakes: "\<forall>g. (\<lambda>g. [] @ [(1, futures cl2 g)]) g = [] @ [(1, futures cl2 g)]"
    "\<forall>w \<in> set []. \<not> fut_set (snd w) \<and> (\<forall>f. r = Ok f \<longrightarrow> fst w < fut_deadline (futures (calls_obj s1) f))" by simp_all
  have "\<exists>f. r = Ok f \<and> public_call (\<lambda>_. True) ref_packer empty_memory (\<lambda>_. ''0'') Some 0 ''f'' [] (\<lambda>g. [] @ [(1, futures cl2 g)]) s =
      (Some (Throw (RpcException (rpc_exception_of_status (mk_status TIMEOUT timeout_message)))), s1)"
    using sync_call_outcome [OF inv s(2) clock memory_wf_empty ok small call run wakes,
        where as_T = Some and sd = "\<lambda>_. ''0''"] by simp
  then show ?thesis using s(2,3) f(1) call
    by (intro exI [of _ s] exI [of _ s1] exI [of _ "futures cl2 f"]) (simp add: public_call_def)
qed

section \<open>Every URI has a backend\<close>

lemma default_builder_finds:
  assumes "uri_wf u"
  shows "\<exists>backend. backend_find [TCP_SCHEME \<mapsto> tcp_backend net True, UNIX_SOCKET_SCHEME \<mapsto> unix_backend net True] (scheme u)
      = Ok backend \<and> b_scheme backend = scheme u"
  using assms
  by (auto simp: uri_wf_def backend_find_def TCP_SCHEME_def UNIX_SOCKET_SCHEME_def tcp_backend_def unix_backend_def)

definition knows_backends :: "'sock backend_list \<Rightarrow> uri list \<Rightarrow> bool" where
  "knows_backends backends uris \<longleftrightarrow>
     (\<forall>u \<in> set uris. \<exists>backend. backend_find backends (scheme u) = Ok backend \<and> b_scheme backend = scheme u)"

lemma default_builder_knows:
  "\<forall>u \<in> set us. uri_wf u \<Longrightarrow>
     knows_backends [TCP_SCHEME \<mapsto> tcp_backend net True, UNIX_SOCKET_SCHEME \<mapsto> unix_backend net True] us"
  unfolding knows_backends_def using default_builder_finds by blast

lemma default_client_builder_eq:
  "create_default_client_builder net config =
     Ok (mk_client_builder config [TCP_SCHEME \<mapsto> tcp_backend net True, UNIX_SOCKET_SCHEME \<mapsto> unix_backend net True],
         mk_general_executor (client_executor config))"
  by (simp add: create_default_client_builder_def default_backends)

lemma default_server_builder_eq:
  "create_default_server_builder net config =
     Ok (mk_server_builder [TCP_SCHEME \<mapsto> tcp_backend net True, UNIX_SOCKET_SCHEME \<mapsto> unix_backend net True]
           (server_uris config), mk_general_executor (server_executor config))"
  by (simp add: create_default_server_builder_def default_backends)

text \<open>URIs given to a default builder one after the other as text.\<close>

fun connect_to_texts where
  "connect_to_texts [] b = Ok b"
| "connect_to_texts (s # ss) b = bind_out (connect_to_text s b) (connect_to_texts ss)"

fun listen_to_texts where
  "listen_to_texts [] b = Ok b"
| "listen_to_texts (s # ss) b = bind_out (listen_to_text s b) (listen_to_texts ss)"

lemma connect_to_texts_Ok:
  "connect_to_texts ss b = Ok b' \<Longrightarrow> cb_backends b' = cb_backends b \<and>
     set (client_uris (cb_config b')) \<subseteq> set (client_uris (cb_config b)) \<union> {u. uri_wf u}"
proof (induction ss arbitrary: b)
  case (Cons s ss)
  obtain u where u: "parse_uri s = Ok u"
    using Cons.prems by (cases "parse_uri s") (simp_all add: connect_to_text_def)
  have "uri_wf u" using u uri_text_wf parse_uri_ok_iff by blast
  moreover have "connect_to_texts ss (connect_to u b) = Ok b'" using Cons.prems u by (simp add: connect_to_text_def)
  ultimately show ?case using Cons.IH by (fastforce simp: connect_to_def client_add_uri_def)
qed simp

lemma listen_to_texts_Ok:
  "listen_to_texts ss b = Ok b' \<Longrightarrow> bd_backends b' = bd_backends b \<and>
     set (bd_uris b') \<subseteq> set (bd_uris b) \<union> {u. uri_wf u}"
proof (induction ss arbitrary: b)
  case (Cons s ss)
  obtain u where u: "parse_uri s = Ok u"
    using Cons.prems by (cases "parse_uri s") (simp_all add: listen_to_text_def)
  have "uri_wf u" using u uri_text_wf parse_uri_ok_iff by blast
  moreover have "listen_to_texts ss (listen_to u b) = Ok b'" using Cons.prems u by (simp add: listen_to_text_def)
  ultimately show ?case using Cons.IH by (fastforce simp: listen_to_def)
qed simp

text \<open>
  The default builders know every URI. Made from valid configurations, such as the ones read from
  a TOML file, and given any further URIs as text, the builders of clients and of servers hold only
  URIs for whose scheme they have exactly the backend of that scheme, so looking up a backend never
  fails; and a text is taken exactly when the URI parser accepts it, else it is refused with
  \<open>INVALID_ARGUMENT\<close>.
\<close>

theorem default_builders_know_every_uri:
  assumes "client_config_valid cconfig" and "server_config_valid sconfig"
    and "create_default_client_builder net cconfig = Ok (cb, cex)"
    and "create_default_server_builder net sconfig = Ok (sb, sex)"
    and "connect_to_texts cs cb = Ok cb'" and "listen_to_texts ss sb = Ok sb'"
  shows "knows_backends (cb_backends cb') (client_uris (cb_config cb')) \<and>
    knows_backends (bd_backends sb') (bd_uris sb') \<and>
    (is_ok (connect_to_text s cb') \<longleftrightarrow> is_ok (parse_uri s)) \<and> (is_ok (listen_to_text s sb') \<longleftrightarrow> is_ok (parse_uri s))"
proof -
  let ?backends = "[TCP_SCHEME \<mapsto> tcp_backend net True, UNIX_SOCKET_SCHEME \<mapsto> unix_backend net True]"
  have cb: "cb_backends cb = ?backends" "client_uris (cb_config cb) = client_uris cconfig"
    using assms(3) by (auto simp: default_client_builder_eq mk_client_builder_def)
  have sb: "bd_backends sb = ?backends" "bd_uris sb = server_uris sconfig"
    using assms(4) by (auto simp: default_server_builder_eq mk_server_builder_def)
  have "\<forall>u \<in> set (client_uris (cb_config cb')). uri_wf u"
    using connect_to_texts_Ok [OF assms(5)] cb assms(1) by (auto simp: client_config_valid_def)
  from default_builder_knows [OF this] have c: "knows_backends (cb_backends cb') (client_uris (cb_config cb'))"
    using connect_to_texts_Ok [OF assms(5)] cb(1) by simp
  have "\<forall>u \<in> set (bd_uris sb'). uri_wf u"
    using listen_to_texts_Ok [OF assms(6)] sb assms(2) by (auto simp: server_config_valid_def)
  from default_builder_knows [OF this] have s: "knows_backends (bd_backends sb') (bd_uris sb')"
    using listen_to_texts_Ok [OF assms(6)] sb(1) by simp
  show ?thesis using c s
    by (cases "parse_uri s") (simp_all add: connect_to_text_def listen_to_text_def)
qed

theorem default_builders_know_every_uri_witness:
  "\<exists>(cb :: string client_builder) cex (sb :: (nat, bytes, string) server_builder) sex cb'.
     create_default_client_builder example_net (default_client_config 8) = Ok (cb, cex) \<and>
     create_default_server_builder example_net (default_server_config 8) = Ok (sb, sex) \<and>
     connect_to_texts [format_uri \<lparr>scheme = ''unix'', host_or_path = ''a'', port_number = None\<rparr>] cb = Ok cb' \<and>
     client_uris (cb_config cb') = [\<lparr>scheme = ''unix'', host_or_path = ''a'', port_number = None\<rparr>] \<and>
     knows_backends (cb_backends cb') (client_uris (cb_config cb'))"
proof -
  let ?u = "\<lparr>scheme = ''unix'', host_or_path = ''a'', port_number = None\<rparr>"
  obtain cb :: "string client_builder" and cex where
    cb: "create_default_client_builder example_net (default_client_config 8) = Ok (cb, cex)"
      "client_uris (cb_config cb) = []"
    by (simp add: default_client_builder_eq mk_client_builder_def default_client_config_def)
  obtain sb :: "(nat, bytes, string) server_builder" and sex where
    sb: "create_default_server_builder example_net (default_server_config 8) = Ok (sb, sex)"
    by (simp add: default_server_builder_eq)
  have "uri_wf ?u" by (simp add: uri_wf_def path_char_def)
  then have p: "parse_uri (format_uri ?u) = Ok ?u" by (simp add: parse_format_iff)
  then have c: "connect_to_texts [format_uri ?u] cb = Ok (connect_to ?u cb)" by (simp add: connect_to_text_def)
  have s: "listen_to_texts [] sb = Ok sb" by simp
  have valid: "client_config_valid (default_client_config 8)" "server_config_valid (default_server_config 8)"
    by (rule defaults_valid, simp)+
  from default_builders_know_every_uri [OF valid cb(1) sb c s] have
    "knows_backends (cb_backends (connect_to ?u cb)) (client_uris (cb_config (connect_to ?u cb)))" by blast
  moreover have "client_uris (cb_config (connect_to ?u cb)) = [?u]" using cb(2) by (simp add: connect_to_def client_add_uri_def)
  ultimately show ?thesis using cb(1) sb c by blast
qed

end
