(* ===== verification/Shared_Objects.thy ===== *)
theory Shared_Objects
  imports Exceptions Handles
begin

text \<open>
  Reference-counted objects in a pool of buffers
  (\<open>include/msgpack_rpc/util/impl/shared_objects.h\<close>): \<open>SharedObjectBuffer\<close>, \<open>SharedObject\<close> and
  \<open>SharedObjectMemoryPool\<close>.

  A buffer is an atomic counter, \<open>- 1\<close> when it is free, and an optional object; counters are read
  and written here in whole operations, and their 32 bits suffice for fewer than \<open>2 ^ 31\<close> handles.
  A \<open>SharedObject\<close> is a pointer to a buffer of the pool or null; its pointer to the pool is set and
  cleared together with it on every path, so it is not a component of its own. The lemmas show that
  the search for a free buffer ends and fails only when every buffer is in use, and that the
  counters are the numbers of handles.
\<close>

section \<open>Buffers\<close>

record 'a object_buffer =
  buffer_count :: int
  buffer_obj :: "'a option"

definition empty_buffer :: "'a object_buffer" where
  "empty_buffer = \<lparr>buffer_count = -1, buffer_obj = None\<rparr>"

definition try_start_use :: "'a object_buffer \<Rightarrow> bool \<times> 'a object_buffer" where
  "try_start_use b = (if buffer_count b = -1 then (True, b\<lparr>buffer_count := 1\<rparr>) else (False, b))"

text \<open>The constructor of the object may throw; the optional is then empty.\<close>

definition buffer_emplace :: "(exn, 'a) outcome \<Rightarrow> ('a object_buffer, unit) action" where
  "buffer_emplace mk b = (case mk of
     Ok x \<Rightarrow> (Ok (), b\<lparr>buffer_obj := Some x\<rparr>)
   | Throw e \<Rightarrow> (Throw e, b\<lparr>buffer_obj := None\<rparr>)
   | Undefined \<Rightarrow> (Undefined, b))"

definition buffer_add_reference :: "'a object_buffer \<Rightarrow> 'a object_buffer" where
  "buffer_add_reference b = b\<lparr>buffer_count := buffer_count b + 1\<rparr>"

definition buffer_give_back :: "'a object_buffer \<Rightarrow> 'a object_buffer" where
  "buffer_give_back b =
     (let count = buffer_count b; b = b\<lparr>buffer_count := count - 1\<rparr>
      in if count = 1 then b\<lparr>buffer_obj := None, buffer_count := -1\<rparr> else b)"

definition buffer_get :: "'a object_buffer \<Rightarrow> (exn, 'a) outcome" where
  "buffer_get b = (case buffer_obj b of Some x \<Rightarrow> Ok x | None \<Rightarrow> Undefined)"

section \<open>The pool\<close>

record 'a object_pool =
  pool_buffers :: "'a object_buffer list"
  next_buffer_index :: nat

definition mk_pool :: "nat \<Rightarrow> 'a object_pool" where
  "mk_pool num_buffers = \<lparr>pool_buffers = replicate num_buffers empty_buffer, next_buffer_index = 0\<rparr>"

text \<open>
  The loop of \<open>create\<close>: it takes the buffer at the next index when that is free. Nothing in the
  loop itself bounds the number of rounds.
\<close>

partial_function (option) pool_search ::
    "nat \<Rightarrow> 'a object_pool \<Rightarrow> ((exn, nat) outcome \<times> 'a object_pool) option" where
  "pool_search initial p =
     (let n = length (pool_buffers p); index = next_buffer_index p in
      if n = 0 \<or> n \<le> index then Some (Undefined, p)
      else
        (let p = p\<lparr>next_buffer_index := (index + 1) mod n\<rparr>;
             (free, b) = try_start_use (pool_buffers p ! index)
         in if free then Some (Ok index, p\<lparr>pool_buffers := (pool_buffers p)[index := b]\<rparr>)
            else if next_buffer_index p = initial then Some (Throw (StdException ''std::bad_alloc''), p)
            else pool_search initial p))"

declare pool_search.simps [code]

definition pool_update :: "nat \<Rightarrow> ('a object_buffer \<Rightarrow> 'a object_buffer) \<Rightarrow> 'a object_pool \<Rightarrow> 'a object_pool" where
  "pool_update i f p = p\<lparr>pool_buffers := (pool_buffers p)[i := f (pool_buffers p ! i)]\<rparr>"

definition pool_create :: "(exn, 'a) outcome \<Rightarrow> 'a object_pool \<Rightarrow> ((exn, nat) outcome \<times> 'a object_pool) option" where
  "pool_create mk p =
     map_option (\<lambda>(r, p). case r of
         Ok i \<Rightarrow>
           (case buffer_emplace mk (pool_buffers p ! i) of
              (Ok u, b) \<Rightarrow> (Ok i, pool_update i (\<lambda>_. b) p)
            | (Throw e, b) \<Rightarrow> (Throw e, pool_update i (\<lambda>_. buffer_give_back b) p)
            | (Undefined, b) \<Rightarrow> (Undefined, p))
       | Throw e \<Rightarrow> (Throw e, p)
       | Undefined \<Rightarrow> (Undefined, p))
     (pool_search (next_buffer_index p) p)"

section \<open>The search ends and finds the first free buffer\<close>

definition buffer_free :: "'a object_pool \<Rightarrow> nat \<Rightarrow> bool" where
  "buffer_free p i \<longleftrightarrow> buffer_count (pool_buffers p ! i) = -1"

definition pool_ok :: "'a object_pool \<Rightarrow> bool" where
  "pool_ok p \<longleftrightarrow> next_buffer_index p < length (pool_buffers p)"

lemma find_map_Suc: "find P (map Suc xs) = map_option Suc (find (P \<circ> Suc) xs)"
  by (induction xs) simp_all

lemma find_upt_Suc:
  "find P [0..<Suc d] = (if P 0 then Some 0 else map_option Suc (find (P \<circ> Suc) [0..<d]))"
proof -
  have "[0..<Suc d] = 0 # map Suc [0..<d]" by (simp add: upt_conv_Cons map_Suc_upt del: upt_Suc)
  then show ?thesis by (simp add: find_map_Suc del: upt_Suc)
qed

lemma pool_search_result:
  assumes "pool_ok p" and "1 \<le> d" and "d \<le> length (pool_buffers p)"
    and "(next_buffer_index p + d) mod length (pool_buffers p) = initial"
  shows "pool_search initial p =
    (case find (\<lambda>j. buffer_free p ((next_buffer_index p + j) mod length (pool_buffers p))) [0..<d] of
       None \<Rightarrow> Some (Throw (StdException ''std::bad_alloc''), p\<lparr>next_buffer_index := initial\<rparr>)
     | Some j \<Rightarrow> (let n = length (pool_buffers p); i = (next_buffer_index p + j) mod n in
         Some (Ok i, pool_update i (\<lambda>b. b\<lparr>buffer_count := 1\<rparr>)
           (p\<lparr>next_buffer_index := (next_buffer_index p + j + 1) mod n\<rparr>))))"
  using assms
proof (induction d arbitrary: p)
  case 0
  then show ?case by simp
next
  case (Suc d)
  define n where "n = length (pool_buffers p)"
  define k where "k = next_buffer_index p"
  let ?p' = "p\<lparr>next_buffer_index := (k + 1) mod n\<rparr>"
  have k: "k < n" using Suc.prems(1) by (simp add: pool_ok_def n_def k_def)
  have ne: "pool_buffers p \<noteq> []" using k by (auto simp: n_def)
  have free_k: "buffer_free p k = (buffer_count (pool_buffers p ! k) = -1)" by (simp add: buffer_free_def)
  show ?case
  proof (cases "buffer_free p k")
    case True
    then have "pool_search initial p = Some (Ok k, ?p'\<lparr>pool_buffers := (pool_buffers p)[k := (pool_buffers p ! k)\<lparr>buffer_count := 1\<rparr>]\<rparr>)"
      using k free_k ne by (subst pool_search.simps) (simp add: Let_def n_def k_def try_start_use_def)
    then show ?thesis using True k
      by (simp add: find_upt_Suc k_def [symmetric] n_def [symmetric] Let_def pool_update_def del: upt_Suc)
  next
    case False
    then have unfold: "pool_search initial p =
        (if (k + 1) mod n = initial then Some (Throw (StdException ''std::bad_alloc''), ?p') else pool_search initial ?p')"
      using k free_k ne by (subst pool_search.simps) (simp add: Let_def n_def k_def try_start_use_def)
    have last: "(k + Suc d) mod n = initial" using Suc.prems(4) by (simp add: k_def n_def)
    show ?thesis
    proof (cases "d = 0")
      case True
      then show ?thesis using False unfold last k
        by (simp add: find_upt_Suc k_def [symmetric] n_def [symmetric] buffer_free_def del: upt_Suc)
    next
      case d: False
      have "(k + 1) mod n \<noteq> initial"
      proof
        assume "(k + 1) mod n = initial"
        then have "(k + Suc d) mod n = (k + 1) mod n" using last by simp
        then have "n dvd d" by (metis add.commute add_Suc_right add_diff_cancel_left' le_add1 mod_eq_dvd_iff_nat plus_1_eq_Suc)
        with d Suc.prems(3) show False by (auto simp: n_def dest: dvd_imp_le)
      qed
      then have step: "pool_search initial p = pool_search initial ?p'" using unfold by simp
      have ok: "pool_ok ?p'" using k mod_less_divisor [of n "k + 1"] by (simp add: pool_ok_def n_def [symmetric])
      have last': "(next_buffer_index ?p' + d) mod length (pool_buffers ?p') = initial"
        using last by (simp add: n_def [symmetric] mod_simps)
      have d': "1 \<le> d" "d \<le> length (pool_buffers ?p')" using d Suc.prems(3) by simp_all
      have shift: "((k + 1) mod n + j) mod n = (k + Suc j) mod n"
        "((k + 1) mod n + j + 1) mod n = (k + Suc j + 1) mod n" for j
        using mod_add_left_eq [of "k + 1" n j] mod_add_left_eq [of "k + 1" n "j + 1"] by simp_all
      have found: "pool_search initial ?p' =
        (case find (\<lambda>j. buffer_free p ((k + Suc j) mod n)) [0..<d] of
           None \<Rightarrow> Some (Throw (StdException ''std::bad_alloc''), p\<lparr>next_buffer_index := initial\<rparr>)
         | Some j \<Rightarrow> Some (Ok ((k + Suc j) mod n), pool_update ((k + Suc j) mod n) (\<lambda>b. b\<lparr>buffer_count := 1\<rparr>)
               (p\<lparr>next_buffer_index := (k + Suc j + 1) mod n\<rparr>)))"
      proof -
        have sel: "next_buffer_index ?p' = (k + 1) mod n" "pool_buffers ?p' = pool_buffers p"
          "?p'\<lparr>next_buffer_index := x\<rparr> = p\<lparr>next_buffer_index := x\<rparr>" "buffer_free ?p' = buffer_free p" for x
          by (simp_all add: fun_eq_iff buffer_free_def)
        show ?thesis using Suc.IH [OF ok d' last'] by (simp only: sel Let_def shift n_def [symmetric])
      qed
      show ?thesis
        using False step found k
        by (cases "find (\<lambda>j. buffer_free p ((k + Suc j) mod n)) [0..<d]")
          (simp_all add: find_upt_Suc comp_def k_def [symmetric] n_def [symmetric] Let_def del: upt_Suc)
    qed
  qed
qed

lemma pool_search_total:
  assumes "pool_ok p"
  shows "\<exists>r p'. pool_search (next_buffer_index p) p = Some (r, p') \<and>
    (if \<exists>i < length (pool_buffers p). buffer_free p i
     then \<exists>i < length (pool_buffers p). r = Ok i \<and> buffer_free p i \<and>
            pool_buffers p' = (pool_buffers p)[i := (pool_buffers p ! i)\<lparr>buffer_count := 1\<rparr>] \<and>
            next_buffer_index p' = (i + 1) mod length (pool_buffers p) \<and>
            (\<forall>j. (next_buffer_index p + j) mod length (pool_buffers p) = i \<longrightarrow>
               (\<forall>l < j mod length (pool_buffers p). \<not> buffer_free p ((next_buffer_index p + l) mod length (pool_buffers p))))
     else r = Throw (StdException ''std::bad_alloc'') \<and> p' = p)"
proof -
  define n where "n = length (pool_buffers p)"
  define k where "k = next_buffer_index p"
  have k: "k < n" using assms by (simp add: pool_ok_def n_def k_def)
  let ?P = "\<lambda>j. buffer_free p ((k + j) mod n)"
  have search: "pool_search k p = (case find ?P [0..<n] of
       None \<Rightarrow> Some (Throw (StdException ''std::bad_alloc''), p\<lparr>next_buffer_index := k\<rparr>)
     | Some j \<Rightarrow> (let i = (k + j) mod n in
         Some (Ok i, pool_update i (\<lambda>b. b\<lparr>buffer_count := 1\<rparr>) (p\<lparr>next_buffer_index := (k + j + 1) mod n\<rparr>))))"
    unfolding k_def n_def Let_def using k
    by (intro pool_search_result [unfolded Let_def]) (auto simp: assms n_def k_def)
  show ?thesis
  proof (cases "find ?P [0..<n]")
    case None
    have "\<not> buffer_free p i" if "i < n" for i
    proof -
      have "(k + (i + n - k) mod n) mod n = i" using k that by (simp add: mod_simps)
      moreover have "(i + n - k) mod n \<in> set [0..<n]" using k by simp
      ultimately show ?thesis using None by (metis find_None_iff)
    qed
    then show ?thesis using None search by (simp add: n_def [symmetric] k_def [symmetric])
  next
    case (Some j)
    then have j: "j < n" "?P j" "\<forall>l < j. \<not> ?P l"
      by (auto simp: find_Some_iff)
    let ?i = "(k + j) mod n"
    have i: "?i < n" using k by simp
    have first: "\<forall>l < j' mod n. \<not> ?P l" if "(k + j') mod n = ?i" for j'
    proof -
      have "(k + j' mod n) mod n = (k + j) mod n" using that by (simp add: mod_simps)
      moreover obtain a where a: "a = j' mod n" "a < n" using k by simp
      ultimately have same: "(k + a) mod n = (k + j) mod n" by simp
      have reduce: "(k + i) mod n = (if k + i < n then k + i else k + i - n)" if "i < n" for i
        using k that by (simp add: le_mod_geq)
      from same reduce [OF a(2)] reduce [OF j(1)] k j(1) a(2) have "a = j" by (simp split: if_splits)
      then have "j' mod n = j" using a(1) by simp
      then show ?thesis using j(3) by blast
    qed
    have "\<exists>p'. pool_search k p = Some (Ok ?i, p') \<and>
        pool_buffers p' = (pool_buffers p)[?i := (pool_buffers p ! ?i)\<lparr>buffer_count := 1\<rparr>] \<and>
        next_buffer_index p' = (?i + 1) mod n"
      using search Some by (simp add: Let_def pool_update_def mod_simps)
    then show ?thesis using i j(2) first by (auto simp: n_def [symmetric] k_def [symmetric])
  qed
qed

section \<open>Shared objects\<close>

record 'a object_world =
  obj_pool :: "'a object_pool"
  obj_vars :: "(nat, nat) handles"

text \<open>A member function of a buffer called through a pointer.\<close>

definition with_buffer :: "('a object_buffer \<Rightarrow> 'a object_buffer) \<Rightarrow> nat \<Rightarrow> 'a object_pool \<Rightarrow> 'a object_pool option" where
  "with_buffer f i p = (if i < length (pool_buffers p) then Some (pool_update i f p) else None)"

definition add_if_set :: "nat option \<Rightarrow> 'a object_pool \<Rightarrow> 'a object_pool option" where
  "add_if_set ptr p = (case ptr of None \<Rightarrow> Some p | Some i \<Rightarrow> with_buffer buffer_add_reference i p)"

definition object_create :: "nat \<Rightarrow> (exn, 'a) outcome \<Rightarrow> 'a object_world \<Rightarrow> ((exn, unit) outcome \<times> 'a object_world) option" where
  "object_create v mk w =
     map_option (\<lambda>(r, p). case r of
         Ok i \<Rightarrow> (Ok (), \<lparr>obj_pool = p, obj_vars = (obj_vars w)(v \<mapsto> Some i)\<rparr>)
       | Throw e \<Rightarrow> (Throw e, w\<lparr>obj_pool := p\<rparr>)
       | Undefined \<Rightarrow> (Undefined, w\<lparr>obj_pool := p\<rparr>))
     (pool_create mk (obj_pool w))"

definition object_copy_construct :: "nat \<Rightarrow> nat \<Rightarrow> 'a object_world \<Rightarrow> 'a object_world option" where
  "object_copy_construct v other w =
     Option.bind (obj_vars w other) (\<lambda>ptr.
     Option.bind (add_if_set ptr (obj_pool w)) (\<lambda>p.
       Some \<lparr>obj_pool = p, obj_vars = (obj_vars w)(v \<mapsto> ptr)\<rparr>))"

definition object_move_construct :: "nat \<Rightarrow> nat \<Rightarrow> 'a object_world \<Rightarrow> 'a object_world option" where
  "object_move_construct v other w =
     Option.bind (obj_vars w other) (\<lambda>ptr.
       Some (w\<lparr>obj_vars := (obj_vars w)(v \<mapsto> ptr, other \<mapsto> None)\<rparr>))"

definition object_reset :: "nat \<Rightarrow> 'a object_world \<Rightarrow> 'a object_world option" where
  "object_reset v w =
     Option.bind (obj_vars w v) (\<lambda>ptr.
       case ptr of
         None \<Rightarrow> Some w
       | Some i \<Rightarrow>
           Option.bind (with_buffer buffer_give_back i (obj_pool w)) (\<lambda>p.
             Some \<lparr>obj_pool = p, obj_vars = (obj_vars w)(v \<mapsto> None)\<rparr>))"

definition object_copy_assign :: "nat \<Rightarrow> nat \<Rightarrow> 'a object_world \<Rightarrow> 'a object_world option" where
  "object_copy_assign v other w =
     (if v = other then Some w
      else Option.bind (object_reset v w) (object_copy_construct v other))"

text \<open>The move assignment does not compare the addresses.\<close>

definition object_move_assign :: "nat \<Rightarrow> nat \<Rightarrow> 'a object_world \<Rightarrow> 'a object_world option" where
  "object_move_assign v other w =
     Option.bind (object_reset v w) (\<lambda>w.
     Option.bind (obj_vars w other) (\<lambda>ptr.
       (let vars = (obj_vars w)(other \<mapsto> None) in Some (w\<lparr>obj_vars := vars(v \<mapsto> ptr)\<rparr>))))"

definition object_destroy :: "nat \<Rightarrow> 'a object_world \<Rightarrow> 'a object_world option" where
  "object_destroy v w =
     Option.bind (object_reset v w) (\<lambda>w. Some (w\<lparr>obj_vars := (obj_vars w)(v := None)\<rparr>))"

datatype 'a object_cmd =
    ODefault nat
  | OCreate nat "(exn, 'a) outcome"
  | OCopyConstruct nat nat
  | OMoveConstruct nat nat
  | OCopyAssign nat nat
  | OMoveAssign nat nat
  | OReset nat
  | ODestroy nat

text \<open>\<open>None\<close> stands for undefined behaviour or a loop that does not end.\<close>

fun object_exec :: "'a object_cmd \<Rightarrow> 'a object_world \<Rightarrow> 'a object_world option" where
  "object_exec (ODefault v) w = Some (w\<lparr>obj_vars := (obj_vars w)(v \<mapsto> None)\<rparr>)"
| "object_exec (OCreate v mk) w =
     Option.bind (object_create v mk w) (\<lambda>(r, w'). if r = Undefined then None else Some w')"
| "object_exec (OCopyConstruct v other) w = object_copy_construct v other w"
| "object_exec (OMoveConstruct v other) w = object_move_construct v other w"
| "object_exec (OCopyAssign v other) w = object_copy_assign v other w"
| "object_exec (OMoveAssign v other) w = object_move_assign v other w"
| "object_exec (OReset v) w = object_reset v w"
| "object_exec (ODestroy v) w = object_destroy v w"

text \<open>Constructors make new variables; everything else works on live ones.\<close>

fun object_allowed :: "'a object_cmd \<Rightarrow> 'a object_world \<Rightarrow> bool" where
  "object_allowed (ODefault v) w \<longleftrightarrow> obj_vars w v = None"
| "object_allowed (OCreate v mk) w \<longleftrightarrow> obj_vars w v = None \<and> mk \<noteq> Undefined"
| "object_allowed (OCopyConstruct v other) w \<longleftrightarrow> obj_vars w v = None \<and> obj_vars w other \<noteq> None"
| "object_allowed (OMoveConstruct v other) w \<longleftrightarrow> obj_vars w v = None \<and> obj_vars w other \<noteq> None"
| "object_allowed (OCopyAssign v other) w \<longleftrightarrow> obj_vars w v \<noteq> None \<and> obj_vars w other \<noteq> None"
| "object_allowed (OMoveAssign v other) w \<longleftrightarrow> obj_vars w v \<noteq> None \<and> obj_vars w other \<noteq> None"
| "object_allowed (OReset v) w \<longleftrightarrow> obj_vars w v \<noteq> None"
| "object_allowed (ODestroy v) w \<longleftrightarrow> obj_vars w v \<noteq> None"

definition object_init :: "nat \<Rightarrow> 'a object_world \<Rightarrow> bool" where
  "object_init n w \<longleftrightarrow> 0 < n \<and> w = \<lparr>obj_pool = mk_pool n, obj_vars = Map.empty\<rparr>"

definition object_step :: "'a object_world \<Rightarrow> 'a object_world \<Rightarrow> bool" where
  "object_step w w' \<longleftrightarrow> (\<exists>c. object_allowed c w \<and> object_exec c w = Some w')"

section \<open>The counts of the buffers are the numbers of handles\<close>

definition pool_count :: "'a object_pool \<Rightarrow> nat \<Rightarrow> nat option" where
  "pool_count p i =
     (if i < length (pool_buffers p) \<and> 0 < buffer_count (pool_buffers p ! i)
      then Some (nat (buffer_count (pool_buffers p ! i))) else None)"

lemma pool_count_update:
  "i < length (pool_buffers p) \<Longrightarrow> pool_count (pool_update i f p) =
    (pool_count p)(i := (if 0 < buffer_count (f (pool_buffers p ! i))
       then Some (nat (buffer_count (f (pool_buffers p ! i)))) else None))"
  by (auto simp: pool_count_def pool_update_def fun_eq_iff nth_list_update)

lemma pool_countD: "pool_count p i = Some n \<Longrightarrow>
    i < length (pool_buffers p) \<and> buffer_count (pool_buffers p ! i) = int n \<and> 0 < n"
  by (auto simp: pool_count_def split: if_splits)

interpretation obj: counted_resource pool_count "with_buffer buffer_add_reference" "with_buffer buffer_give_back"
proof
  fix p :: "'a object_pool" and i n
  assume "pool_count p i = Some n"
  from pool_countD [OF this] show "\<exists>p'. with_buffer buffer_add_reference i p = Some p' \<and> pool_count p' = (pool_count p)(i \<mapsto> Suc n)"
    by (simp add: with_buffer_def pool_count_update buffer_add_reference_def nat_add_distrib)
next
  fix p :: "'a object_pool" and i
  assume "pool_count p i = Some (Suc 0)"
  from pool_countD [OF this] show "\<exists>p'. with_buffer buffer_give_back i p = Some p' \<and> pool_count p' = (pool_count p)(i := None)"
    by (simp add: with_buffer_def pool_count_update buffer_give_back_def Let_def)
next
  fix p :: "'a object_pool" and i n
  assume "pool_count p i = Some (Suc (Suc n))"
  from pool_countD [OF this] show "\<exists>p'. with_buffer buffer_give_back i p = Some p' \<and> pool_count p' = (pool_count p)(i \<mapsto> Suc n)"
    by (simp add: with_buffer_def pool_count_update buffer_give_back_def Let_def nat_add_distrib)
qed

text \<open>Every buffer is free and empty, or counted and holds an object.\<close>

definition buffer_ok :: "'a object_buffer \<Rightarrow> bool" where
  "buffer_ok b \<longleftrightarrow> (buffer_count b = -1 \<and> buffer_obj b = None) \<or> (0 < buffer_count b \<and> buffer_obj b \<noteq> None)"

definition object_inv :: "'a object_world \<Rightarrow> bool" where
  "object_inv w \<longleftrightarrow> pool_ok (obj_pool w) \<and> (\<forall>b \<in> set (pool_buffers (obj_pool w)). buffer_ok b) \<and>
     obj.consistent (obj_pool w) (obj_vars w)"

lemma buffers_ok_update:
  "i < length (pool_buffers p) \<Longrightarrow> \<forall>b \<in> set (pool_buffers p). buffer_ok b \<Longrightarrow> buffer_ok (f (pool_buffers p ! i)) \<Longrightarrow>
    (\<forall>b \<in> set (pool_buffers (pool_update i f p)). buffer_ok b) \<and> (pool_ok (pool_update i f p) \<longleftrightarrow> pool_ok p)"
  by (auto simp: pool_update_def pool_ok_def dest!: set_update_subset_insert [THEN subsetD])

lemma buffer_ok_add: "buffer_ok b \<Longrightarrow> 0 < buffer_count b \<Longrightarrow> buffer_ok (buffer_add_reference b)"
  by (auto simp: buffer_ok_def buffer_add_reference_def)

lemma buffer_ok_give_back: "buffer_ok b \<Longrightarrow> 0 < buffer_count b \<Longrightarrow> buffer_ok (buffer_give_back b)"
  by (auto simp: buffer_ok_def buffer_give_back_def Let_def)

lemma live_buffer:
  assumes "object_inv w" and "obj_vars w v = Some (Some i)"
  shows "i < length (pool_buffers (obj_pool w)) \<and> 0 < buffer_count (pool_buffers (obj_pool w) ! i)"
  using assms obj.consistent_live [of "obj_pool w" "obj_vars w" v i] pool_countD
  by (fastforce simp: object_inv_def)

lemma object_reset_ok:
  assumes inv: "object_inv w" and v: "obj_vars w v = Some ptr"
  shows "\<exists>w'. object_reset v w = Some w' \<and> object_inv w' \<and> obj_vars w' = (obj_vars w)(v \<mapsto> None)"
proof (cases ptr)
  case None
  then show ?thesis using inv v by (auto simp: object_reset_def intro!: fun_upd_triv [symmetric])
next
  case (Some i)
  have cons: "obj.consistent (obj_pool w) (obj_vars w)" using inv by (simp add: object_inv_def)
  from obj.drop_consistent [OF cons, of v i "Some None"] v Some obtain p where
    p: "with_buffer buffer_give_back i (obj_pool w) = Some p" "obj.consistent p ((obj_vars w)(v \<mapsto> None))" by auto
  have i: "i < length (pool_buffers (obj_pool w))" "0 < buffer_count (pool_buffers (obj_pool w) ! i)"
    using live_buffer [OF inv] v Some by auto
  then have "buffer_ok (buffer_give_back (pool_buffers (obj_pool w) ! i))"
    using inv by (intro buffer_ok_give_back) (simp_all add: object_inv_def)
  moreover have "p = pool_update i buffer_give_back (obj_pool w)" using p(1) i by (simp add: with_buffer_def)
  ultimately have "object_inv \<lparr>obj_pool = p, obj_vars = (obj_vars w)(v \<mapsto> None)\<rparr>"
    using buffers_ok_update [OF i(1), of buffer_give_back] inv p(2) by (simp add: object_inv_def)
  then show ?thesis using v Some p(1) by (simp add: object_reset_def)
qed

lemma object_copy_ok:
  assumes inv: "object_inv w" and other: "obj_vars w other = Some ptr"
    and v: "obj_vars w v = None \<or> obj_vars w v = Some None"
  shows "\<exists>w'. object_copy_construct v other w = Some w' \<and> object_inv w'"
proof (cases ptr)
  case None
  have "obj.consistent (obj_pool w) ((obj_vars w)(v \<mapsto> None))"
    using inv v by (intro obj.null_consistent) (simp_all add: object_inv_def)
  then show ?thesis using inv other None by (simp add: object_copy_construct_def add_if_set_def object_inv_def)
next
  case (Some i)
  have cons: "obj.consistent (obj_pool w) (obj_vars w)" using inv by (simp add: object_inv_def)
  from obj.copy_consistent [OF cons, of other i v] v other Some obtain p where
    p: "with_buffer buffer_add_reference i (obj_pool w) = Some p" "obj.consistent p ((obj_vars w)(v \<mapsto> Some i))" by auto
  have i: "i < length (pool_buffers (obj_pool w))" "0 < buffer_count (pool_buffers (obj_pool w) ! i)"
    using live_buffer [OF inv] other Some by auto
  then have "buffer_ok (buffer_add_reference (pool_buffers (obj_pool w) ! i))"
    using inv by (intro buffer_ok_add) (simp_all add: object_inv_def)
  moreover have "p = pool_update i buffer_add_reference (obj_pool w)" using p(1) i by (simp add: with_buffer_def)
  ultimately have "object_inv \<lparr>obj_pool = p, obj_vars = (obj_vars w)(v \<mapsto> Some i)\<rparr>"
    using buffers_ok_update [OF i(1), of buffer_add_reference] inv p(2) by (simp add: object_inv_def)
  then show ?thesis using other Some p(1) by (simp add: object_copy_construct_def add_if_set_def)
qed

lemma pool_create_result:
  assumes ok: "pool_ok p" and mk: "mk \<noteq> Undefined"
  shows "\<exists>r p'. pool_create mk p = Some (r, p') \<and> length (pool_buffers p') = length (pool_buffers p) \<and> pool_ok p' \<and>
    (if \<exists>i < length (pool_buffers p). buffer_free p i
     then \<exists>i < length (pool_buffers p). buffer_free p i \<and>
            (case mk of
               Ok x \<Rightarrow> r = Ok i \<and> pool_buffers p' =
                 (pool_buffers p)[i := \<lparr>buffer_count = 1, buffer_obj = Some x\<rparr>]
             | Throw e \<Rightarrow> r = Throw e \<and> pool_buffers p' = (pool_buffers p)[i := empty_buffer]
             | Undefined \<Rightarrow> False)
     else r = Throw (StdException ''std::bad_alloc'') \<and> p' = p)"
proof -
  from pool_search_total [OF ok] obtain r p1 where s: "pool_search (next_buffer_index p) p = Some (r, p1)"
    and c: "if \<exists>i < length (pool_buffers p). buffer_free p i
     then \<exists>i < length (pool_buffers p). r = Ok i \<and> buffer_free p i \<and>
            pool_buffers p1 = (pool_buffers p)[i := (pool_buffers p ! i)\<lparr>buffer_count := 1\<rparr>] \<and>
            next_buffer_index p1 = (i + 1) mod length (pool_buffers p) \<and>
            (\<forall>j. (next_buffer_index p + j) mod length (pool_buffers p) = i \<longrightarrow>
               (\<forall>l < j mod length (pool_buffers p). \<not> buffer_free p ((next_buffer_index p + l) mod length (pool_buffers p))))
     else r = Throw (StdException ''std::bad_alloc'') \<and> p1 = p"
    by blast
  show ?thesis
  proof (cases "\<exists>i < length (pool_buffers p). buffer_free p i")
    case False
    have "r = Throw (StdException ''std::bad_alloc'') \<and> p1 = p" using c unfolding if_not_P [OF False] .
    then have "pool_create mk p = Some (Throw (StdException ''std::bad_alloc''), p)"
      using s by (simp add: pool_create_def)
    then show ?thesis using False ok by auto
  next
    case True
    from c [unfolded if_P [OF True]] obtain i where i: "i < length (pool_buffers p)" "r = Ok i" "buffer_free p i"
      "pool_buffers p1 = (pool_buffers p)[i := (pool_buffers p ! i)\<lparr>buffer_count := 1\<rparr>]"
      "next_buffer_index p1 = (i + 1) mod length (pool_buffers p)" by auto
    have ok1: "next_buffer_index p1 < length (pool_buffers p)" unfolding i(5) using i(1) by (intro mod_less_divisor) linarith
    have b: "pool_buffers p1 ! i = (pool_buffers p ! i)\<lparr>buffer_count := 1\<rparr>" using i(1,4) by simp
    show ?thesis
    proof (cases mk)
      case (Ok x)
      from Ok have "pool_create mk p = Some (Ok i, pool_update i (\<lambda>_. \<lparr>buffer_count = 1, buffer_obj = Some x\<rparr>) p1)"
        using s i(2) b by (cases "pool_buffers p ! i") (simp add: pool_create_def buffer_emplace_def)
      then show ?thesis using True i ok1 Ok by (auto simp: pool_update_def pool_ok_def)
    next
      case (Throw e)
      then have "pool_create mk p = Some (Throw e, pool_update i (\<lambda>_. empty_buffer) p1)"
        using s i(2) b by (cases "pool_buffers p ! i") (simp add: pool_create_def buffer_emplace_def buffer_give_back_def empty_buffer_def Let_def)
      then show ?thesis using True i ok1 Throw by (auto simp: pool_update_def pool_ok_def)
    qed (use mk in simp)
  qed
qed

lemma object_create_ok:
  assumes inv: "object_inv w" and v: "obj_vars w v = None" and mk: "mk \<noteq> Undefined"
  shows "\<exists>r w'. object_create v mk w = Some (r, w') \<and> r \<noteq> Undefined \<and> object_inv w'"
proof -
  define p where "p = obj_pool w"
  have ok: "pool_ok p" and bs: "\<forall>b \<in> set (pool_buffers p). buffer_ok b" and cons: "obj.consistent p (obj_vars w)"
    using inv by (simp_all add: object_inv_def p_def)
  from pool_create_result [OF ok mk] obtain r p' where
    c: "pool_create mk p = Some (r, p')" "pool_ok p'" and
    d: "if \<exists>i < length (pool_buffers p). buffer_free p i
     then \<exists>i < length (pool_buffers p). buffer_free p i \<and>
            (case mk of
               Ok x \<Rightarrow> r = Ok i \<and> pool_buffers p' =
                 (pool_buffers p)[i := \<lparr>buffer_count = 1, buffer_obj = Some x\<rparr>]
             | Throw e \<Rightarrow> r = Throw e \<and> pool_buffers p' = (pool_buffers p)[i := empty_buffer]
             | Undefined \<Rightarrow> False)
     else r = Throw (StdException ''std::bad_alloc'') \<and> p' = p" by blast
  consider (full) "r = Throw (StdException ''std::bad_alloc'')" "p' = p"
    | (made) i x where "i < length (pool_buffers p)" "buffer_free p i" "r = Ok i"
        "pool_buffers p' = (pool_buffers p)[i := \<lparr>buffer_count = 1, buffer_obj = Some x\<rparr>]"
    | (failed) i e where "i < length (pool_buffers p)" "buffer_free p i" "r = Throw e"
        "pool_buffers p' = (pool_buffers p)[i := empty_buffer]"
    using d by (cases mk) (auto split: if_splits)
  then show ?thesis
  proof cases
    case full
    then show ?thesis using c inv by (simp add: object_create_def p_def)
  next
    case (made i x)
    have none: "pool_count p i = None" using made(2) by (simp add: pool_count_def buffer_free_def)
    have "pool_count p' = (pool_count p)(i \<mapsto> Suc 0)"
      using made(1,4) by (auto simp: pool_count_def fun_eq_iff nth_list_update)
    then have "obj.consistent p' ((obj_vars w)(v \<mapsto> Some i))"
      using obj.fresh_consistent [OF cons none] v by blast
    moreover have "\<forall>b \<in> set (pool_buffers p'). buffer_ok b"
      using bs made(4) by (auto simp: buffer_ok_def dest!: set_update_subset_insert [THEN subsetD])
    ultimately show ?thesis using c made(3) by (simp add: object_create_def p_def [symmetric] object_inv_def)
  next
    case (failed i e)
    have "pool_count p' = pool_count p"
      using failed(1,2,4) by (auto simp: pool_count_def fun_eq_iff nth_list_update empty_buffer_def buffer_free_def)
    then have "obj.consistent p' (obj_vars w)" using obj.same_counts_consistent [OF cons] by blast
    moreover have "\<forall>b \<in> set (pool_buffers p'). buffer_ok b"
      using bs failed(4) by (auto simp: buffer_ok_def empty_buffer_def dest!: set_update_subset_insert [THEN subsetD])
    ultimately show ?thesis using c failed(3) by (simp add: object_create_def p_def [symmetric] object_inv_def)
  qed
qed

lemma object_move_ok:
  assumes inv: "object_inv w" and other: "obj_vars w other = Some ptr" and v: "obj_vars w v = Some None"
  shows "object_inv (w\<lparr>obj_vars := (obj_vars w)(other \<mapsto> None, v \<mapsto> ptr)\<rparr>)"
proof (cases "v = other")
  case True
  then have "(obj_vars w)(other \<mapsto> None, v \<mapsto> ptr) = obj_vars w" using v other by (auto simp: fun_eq_iff)
  then show ?thesis using inv by simp
next
  case False
  have "obj.consistent (obj_pool w) ((obj_vars w)(v \<mapsto> ptr, other \<mapsto> None))"
    using obj.swap_consistent [of "obj_pool w" "obj_vars w" v None other ptr] inv other v by (simp add: object_inv_def)
  then show ?thesis using inv False by (simp add: object_inv_def fun_upd_twist)
qed

lemma object_exec_ok:
  assumes inv: "object_inv w" and ok: "object_allowed c w"
  shows "\<exists>w'. object_exec c w = Some w' \<and> object_inv w'"
proof (cases c)
  case (ODefault v)
  have "obj.consistent (obj_pool w) ((obj_vars w)(v \<mapsto> None))"
    using inv ok ODefault by (intro obj.null_consistent) (simp_all add: object_inv_def)
  then show ?thesis using inv ODefault by (simp add: object_inv_def)
next
  case (OCreate v mk)
  from object_create_ok [OF inv, of v mk] ok OCreate obtain r w' where
    "object_create v mk w = Some (r, w')" "r \<noteq> Undefined" "object_inv w'" by auto
  then show ?thesis using OCreate by simp
next
  case (OCopyConstruct v other)
  then obtain ptr where "obj_vars w other = Some ptr" "obj_vars w v = None" using ok by auto
  with object_copy_ok [OF inv, of other ptr v] show ?thesis unfolding OCopyConstruct object_exec.simps by blast
next
  case (OMoveConstruct v other)
  then obtain ptr where o: "obj_vars w other = Some ptr" "obj_vars w v = None" using ok by auto
  let ?w = "w\<lparr>obj_vars := (obj_vars w)(v \<mapsto> None)\<rparr>"
  have ne: "v \<noteq> other" using o by auto
  have "obj.consistent (obj_pool w) ((obj_vars w)(v \<mapsto> None))"
    using inv o by (intro obj.null_consistent) (simp_all add: object_inv_def)
  then have "object_inv ?w" using inv by (simp add: object_inv_def)
  from object_move_ok [OF this, of other ptr v] o ne
  have "object_inv (w\<lparr>obj_vars := (obj_vars w)(v \<mapsto> ptr, other \<mapsto> None)\<rparr>)" by (simp add: fun_upd_twist)
  then show ?thesis using OMoveConstruct o by (simp add: object_move_construct_def)
next
  case (OCopyAssign v other)
  then obtain x ptr where x: "obj_vars w v = Some x" "obj_vars w other = Some ptr" using ok by auto
  show ?thesis
  proof (cases "v = other")
    case True
    then show ?thesis using OCopyAssign inv by (simp add: object_copy_assign_def)
  next
    case False
    from object_reset_ok [OF inv x(1)] obtain w1 where w1: "object_reset v w = Some w1" "object_inv w1"
      "obj_vars w1 = (obj_vars w)(v \<mapsto> None)" by blast
    then show ?thesis using object_copy_ok [OF w1(2), of other ptr v] x(2) False OCopyAssign
      by (simp add: object_copy_assign_def)
  qed
next
  case (OMoveAssign v other)
  then obtain x ptr where x: "obj_vars w v = Some x" "obj_vars w other = Some ptr" using ok by auto
  from object_reset_ok [OF inv x(1)] obtain w1 where w1: "object_reset v w = Some w1" "object_inv w1"
    "obj_vars w1 = (obj_vars w)(v \<mapsto> None)" by blast
  obtain ptr' where p': "obj_vars w1 other = Some ptr'" using w1(3) x(2) by (cases "v = other") auto
  have "object_exec c w = Some (w1\<lparr>obj_vars := (obj_vars w1)(other \<mapsto> None, v \<mapsto> ptr')\<rparr>)"
    using OMoveAssign w1(1) p' by (simp add: object_move_assign_def)
  then show ?thesis using object_move_ok [OF w1(2) p', of v] w1(3) by simp
next
  case (OReset v)
  then obtain x where "obj_vars w v = Some x" using ok by auto
  with object_reset_ok [OF inv this] OReset show ?thesis by auto
next
  case (ODestroy v)
  then obtain x where "obj_vars w v = Some x" using ok by auto
  from object_reset_ok [OF inv this] obtain w1 where w1: "object_reset v w = Some w1" "object_inv w1"
    "obj_vars w1 = (obj_vars w)(v \<mapsto> None)" by blast
  then have "obj.consistent (obj_pool w1) ((obj_vars w1)(v := None))"
    by (intro obj.null_consistent) (simp_all add: object_inv_def)
  then show ?thesis using ODestroy w1 by (simp add: object_destroy_def object_inv_def)
qed

interpretation obj_sys: invariant_system "object_init n" object_step object_inv for n
proof
  fix w :: "'a object_world"
  assume "object_init n w"
  then show "object_inv w"
    by (auto simp: object_init_def object_inv_def mk_pool_def pool_ok_def empty_buffer_def buffer_ok_def
        obj.consistent_def handle_count_def pool_count_def)
next
  fix w w' :: "'a object_world"
  assume "object_inv w" "object_step w w'"
  then show "object_inv w'" using object_exec_ok by (fastforce simp: object_step_def)
qed

section \<open>Properties\<close>

text \<open>
  C35. \<open>create\<close> of a pool that has buffers ends, and finds a free buffer whenever there is one: it
  builds the object in it with count one, or gives the buffer back when the constructor throws, and
  touches no other buffer; it throws \<open>std::bad_alloc\<close> only when every buffer is in use, and then
  leaves the pool as it was.
\<close>

theorem pool_create_finds_free_buffer:
  assumes "next_buffer_index p < length (pool_buffers p)" and "mk \<noteq> Undefined"
  shows "\<exists>r p'. pool_create mk p = Some (r, p') \<and> next_buffer_index p' < length (pool_buffers p') \<and>
    (if \<exists>i < length (pool_buffers p). buffer_count (pool_buffers p ! i) = -1
     then \<exists>i < length (pool_buffers p). buffer_count (pool_buffers p ! i) = -1 \<and>
            (case mk of
               Ok x \<Rightarrow> r = Ok i \<and> pool_buffers p' = (pool_buffers p)[i := \<lparr>buffer_count = 1, buffer_obj = Some x\<rparr>]
             | Throw e \<Rightarrow> r = Throw e \<and> pool_buffers p' = (pool_buffers p)[i := empty_buffer]
             | Undefined \<Rightarrow> False)
     else r = Throw (StdException ''std::bad_alloc'') \<and> p' = p)"
  using pool_create_result [of p mk] assms by (auto simp: pool_ok_def buffer_free_def split: if_splits)

theorem pool_create_finds_free_buffer_witness:
  "\<exists>r p'. pool_create (Ok CHR ''x'') (mk_pool 2) = Some (r, p') \<and>
     (\<exists>i < 2. r = Ok i \<and> pool_buffers p' = (pool_buffers (mk_pool 2))[i := \<lparr>buffer_count = 1, buffer_obj = Some CHR ''x''\<rparr>])"
  using pool_create_finds_free_buffer [of "mk_pool 2" "Ok CHR ''x''"]
  by (auto simp: mk_pool_def empty_buffer_def numeral_2_eq_2 split: if_splits)


lemma reach_object_cmd:
  "reach (object_init n) object_step w \<Longrightarrow> object_allowed c w \<Longrightarrow> object_exec c w = Some w' \<Longrightarrow>
    reach (object_init n) object_step w'"
  by (rule reach_step) (auto simp: object_step_def)


text \<open>
  A pool without buffers divides by zero, and the move assignment of an object to itself drops it.
\<close>

theorem empty_pool_is_undefined:
  "pool_create (Ok x) (mk_pool 0) = Some (Undefined, mk_pool 0)"
  unfolding pool_create_def by (subst pool_search.simps) (simp add: mk_pool_def)

end
