(* ===== verification/Channel.thy ===== *)
theory Channel
  imports Connection
begin

text \<open>
  One direction of a connection between two peers, composed of the operations of theory
  \<open>Connection\<close>: messages are written into the socket on one side, and the connection on the other
  side reads the bytes in chunks of any size that fits its buffer. \<open>ch_sent\<close> records the messages
  written so far, \<open>ch_bytes\<close> holds the bytes on their way. TCP and Unix stream sockets deliver bytes
  in order, or stop delivering.

  The lemmas turn the stream of bytes into a queue of messages: whatever was read so far has been
  reported as a prefix of the messages written, and a read reports the next ones.
\<close>

record channel =
  ch_sent :: "outgoing list"
  ch_bytes :: bytes
  ch_reader :: connection

definition mk_channel :: "nat \<Rightarrow> channel" where
  "mk_channel n = \<lparr>ch_sent = [], ch_bytes = [], ch_reader = async_read_next (snd (conn_start (mk_connection n)))\<rparr>"

definition channel_write :: "mp_packer \<Rightarrow> outgoing \<Rightarrow> channel \<Rightarrow> channel" where
  "channel_write pk out ch = ch\<lparr>ch_sent := ch_sent ch @ [out], ch_bytes := ch_bytes ch @ wire pk out\<rparr>"

text \<open>The callbacks themselves are run by the composed system; here they succeed.\<close>

inductive channel_read :: "(bytes \<Rightarrow> unpack_result) \<Rightarrow> mp_conv \<Rightarrow> channel \<Rightarrow> channel \<Rightarrow> bool" for "next" cv where
  "ch_bytes ch = d @ r \<Longrightarrow> d \<noteq> [] \<Longrightarrow> length d \<le> read_buffer_size (parser (ch_reader ch)) \<Longrightarrow>
     process_read_bytes (\<lambda>_. Ok ()) next cv (Inr d) (ch_reader ch) = Some (Ok (), c') \<Longrightarrow>
     channel_read next cv ch (ch\<lparr>ch_bytes := r, ch_reader := c'\<rparr>)"

text \<open>The messages the reader has reported.\<close>

fun received_of :: "conn_callback \<Rightarrow> parsed_message list" where
  "received_of (OnReceived m) = [m]"
| "received_of _ = []"

definition ch_received :: "channel \<Rightarrow> parsed_message list" where
  "ch_received ch = concat (map received_of (callbacks (ch_reader ch)))"

definition ch_inv :: "mp_packer \<Rightarrow> channel \<Rightarrow> bool" where
  "ch_inv pk ch \<longleftrightarrow>
     ready (ch_reader ch) \<and> reading (ch_reader ch) \<and> (\<forall>out \<in> set (ch_sent ch). can_send out) \<and>
     (\<exists>k p. k \<le> length (ch_sent ch) \<and> pending (parser (ch_reader ch)) = p \<and>
        partial_of pk (drop k (ch_sent ch)) p \<and> stream pk (drop k (ch_sent ch)) = p @ ch_bytes ch \<and>
        callbacks (ch_reader ch) = map (OnReceived \<circ> sent_message) (take k (ch_sent ch)))"

lemma received_of_map: "concat (map received_of (map (OnReceived \<circ> f) xs)) = map f xs"
  by (induction xs) simp_all

lemma stream_append: "stream pk (xs @ ys) = stream pk xs @ stream pk ys"
  by (simp add: stream_def)

lemma ch_inv_new [simp]: "ch_inv pk (mk_channel n)"
  using idle_reader_start [of n]
  by (auto simp: ch_inv_def mk_channel_def idle_reader_def partial_of_def stream_def async_read_next_def conn_start_def
      mk_connection_def handle_start_request_def handle_processing_started_def)

lemma ch_new_simps [simp]: "ch_sent (mk_channel n) = []" "ch_received (mk_channel n) = []" "ch_bytes (mk_channel n) = []"
  by (simp_all add: mk_channel_def ch_received_def async_read_next_def conn_start_def mk_connection_def
      handle_start_request_def handle_processing_started_def)

lemma ch_received_prefix:
  assumes "ch_inv pk ch"
  obtains k where "k \<le> length (ch_sent ch)" "ch_received ch = map sent_message (take k (ch_sent ch))"
proof -
  from assms obtain k where "k \<le> length (ch_sent ch)"
    "callbacks (ch_reader ch) = map (OnReceived \<circ> sent_message) (take k (ch_sent ch))"
    by (auto simp: ch_inv_def)
  then show ?thesis using that by (simp only: ch_received_def received_of_map)
qed

lemma ch_write_simps [simp]:
  "ch_sent (channel_write pk out ch) = ch_sent ch @ [out]" "ch_received (channel_write pk out ch) = ch_received ch"
  "ch_reader (channel_write pk out ch) = ch_reader ch"
  by (simp_all add: channel_write_def ch_received_def)

lemma ch_write_inv:
  assumes codec: "codec_ok pk next" and inv: "ch_inv pk ch" and out: "can_send out"
  shows "ch_inv pk (channel_write pk out ch)"
proof -
  from inv obtain k p where k: "k \<le> length (ch_sent ch)" "pending (parser (ch_reader ch)) = p"
      "partial_of pk (drop k (ch_sent ch)) p" "stream pk (drop k (ch_sent ch)) = p @ ch_bytes ch"
      "callbacks (ch_reader ch) = map (OnReceived \<circ> sent_message) (take k (ch_sent ch))"
    by (auto simp: ch_inv_def)
  have d: "drop k (ch_sent ch @ [out]) = drop k (ch_sent ch) @ [out]" using k(1) by simp
  have "partial_of pk (drop k (ch_sent ch) @ [out]) p"
    using k(3) wire_nonempty [OF codec out] by (cases "drop k (ch_sent ch)") (auto simp: partial_of_def)
  then show ?thesis using inv k out
    unfolding ch_inv_def
    by (intro conjI exI [of _ k] exI [of _ p]) (auto simp: d stream_append channel_write_def)
qed

text \<open>A read reports the next messages that are complete, and keeps the rest of the bytes.\<close>

lemma ch_read_step:
  assumes codec: "codec_ok pk next" and conv: "conv_ok cv" and inv: "ch_inv pk ch"
    and read: "channel_read next cv ch ch'"
  shows "ch_inv pk ch' \<and> ch_sent ch' = ch_sent ch \<and> (\<exists>new. ch_received ch' = ch_received ch @ new)"
  using read
proof cases
  case (1 d r c')
  from inv obtain k p where k: "k \<le> length (ch_sent ch)" "pending (parser (ch_reader ch)) = p"
      "partial_of pk (drop k (ch_sent ch)) p" "stream pk (drop k (ch_sent ch)) = p @ ch_bytes ch"
      "callbacks (ch_reader ch) = map (OnReceived \<circ> sent_message) (take k (ch_sent ch))"
    and c: "ready (ch_reader ch)" "reading (ch_reader ch)" "\<forall>out \<in> set (ch_sent ch). can_send out"
    by (auto simp: ch_inv_def)
  let ?rest = "drop k (ch_sent ch)"
  have send: "\<forall>out \<in> set ?rest. can_send out" using c(3) by (blast dest: in_set_dropD)
  have len: "\<forall>e \<in> set [d]. length e \<le> read_buffer_size (parser (ch_reader ch))" using 1(4) by simp
  have str: "stream pk ?rest = pending (parser (ch_reader ch)) @ concat [d] @ r" using k(2,4) 1(2) by simp
  from feed_chunks_prefix [OF codec conv _ send c(1,2) len k(3) [folded k(2)] str, where user = "\<lambda>_. Ok ()"]
  obtain c2 j q where j: "feed_chunks (\<lambda>_. Ok ()) next cv [d] (ch_reader ch) = Some (Ok (), c2)" "ready c2" "reading c2"
      "j \<le> length ?rest" "pending (parser (ch_reader ch)) @ concat [d] = stream pk (take j ?rest) @ q"
      "pending (parser c2) = q" "partial_of pk (drop j ?rest) q"
      "callbacks c2 = callbacks (ch_reader ch) @ map (OnReceived \<circ> sent_message) (take j ?rest)"
    by auto
  have c2: "c2 = c'" using j(1) 1(5) by simp
  have "stream pk (take j ?rest) @ stream pk (drop j ?rest) = stream pk ?rest"
    by (metis append_take_drop_id stream_append)
  also have "\<dots> = stream pk (take j ?rest) @ q @ r" using str j(5) by simp
  finally have s2: "stream pk (drop (j + k) (ch_sent ch)) = q @ r" by simp
  have cb: "callbacks c' = map (OnReceived \<circ> sent_message) (take (j + k) (ch_sent ch))"
    using j(8) k(5) unfolding c2 by (metis add.commute map_append take_add)
  have "ch_inv pk ch'"
    unfolding ch_inv_def 1(1)
    using j(2,3,4,6,7) k(1) c(3) s2 cb unfolding c2
    by (intro conjI exI [of _ "j + k"] exI [of _ q]) (simp_all add: add.commute)
  moreover have "ch_received ch' = ch_received ch @ map sent_message (take j ?rest)"
  proof -
    have "ch_reader ch' = c'" unfolding 1(1) by simp
    then show ?thesis using j(8) unfolding c2
      by (simp only: ch_received_def map_append concat_append received_of_map)
  qed
  ultimately show ?thesis unfolding 1(1) by auto
qed

text \<open>Bytes that are there can always be read.\<close>

lemma ch_can_read:
  assumes codec: "codec_ok pk next" and conv: "conv_ok cv" and inv: "ch_inv pk ch"
    and d: "ch_bytes ch = d @ r" "d \<noteq> []" "length d \<le> read_buffer_size (parser (ch_reader ch))"
  shows "\<exists>ch'. channel_read next cv ch ch' \<and> ch_bytes ch' = r"
proof -
  from inv obtain k where k: "partial_of pk (drop k (ch_sent ch)) (pending (parser (ch_reader ch)))"
      "stream pk (drop k (ch_sent ch)) = pending (parser (ch_reader ch)) @ ch_bytes ch"
    and c: "ready (ch_reader ch)" "reading (ch_reader ch)" "\<forall>out \<in> set (ch_sent ch). can_send out"
    by (auto simp: ch_inv_def)
  have send: "\<forall>out \<in> set (drop k (ch_sent ch)). can_send out" using c(3) by (blast dest: in_set_dropD)
  have len: "\<forall>e \<in> set [d]. length e \<le> read_buffer_size (parser (ch_reader ch))" using d(3) by simp
  have str: "stream pk (drop k (ch_sent ch)) = pending (parser (ch_reader ch)) @ concat [d] @ r" using k(2) d(1) by simp
  from feed_chunks_prefix [OF codec conv _ send c(1,2) len k(1) str, where user = "\<lambda>_. Ok ()"]
  obtain c2 where "feed_chunks (\<lambda>_. Ok ()) next cv [d] (ch_reader ch) = Some (Ok (), c2)" by auto
  then have "process_read_bytes (\<lambda>_. Ok ()) next cv (Inr d) (ch_reader ch) = Some (Ok (), c2)"
    by (auto split: option.splits prod.splits outcome.splits)
  from channel_read.intros [OF d this] show ?thesis by auto
qed

end
