(* ===== verification/Remote_System.thy ===== *)
theory Remote_System
  imports Channel Client_Calls Message_Sender Server_Connection
begin

text \<open>
  A client and a server as one system, composed of the operations of the theories of their parts:
  the list of calls and the sender of the client, any number of connections one after the other, and
  for each of them the two streams of bytes and the server's side with its callback threads. Every
  step is one operation of one part, together with the write or the callbacks it causes, so the runs
  of the system contain every interleaving of calls, writes, chunks read, methods run in parallel,
  answers, timeouts, ends of connections and reconnections.

  A message in a queue is represented by its contents; its bytes are \<open>wire\<close> of them (theory
  \<open>Message_Roundtrip\<close> shows that this is what the serializer gives). What the methods do is a
  parameter, of which \<open>answers_ok\<close> is assumed. The state of the application is shared by all
  connections of the server.

  The lemmas show that a future never gets the answer to another call, and that a connection carries
  and answers each request at most once.
\<close>

section \<open>State\<close>

record 's link =
  to_server :: channel
  to_client :: channel
  server_side :: "('s, outgoing) sc_history"

definition mk_link :: "'s \<Rightarrow> nat \<Rightarrow> nat \<Rightarrow> 's link" where
  "mk_link a n m = \<lparr>to_server = mk_channel n, to_client = mk_channel m,
     server_side = \<lparr>sconn = mk_server_connection a, answers = [], pushed = [], lost = [], written = 0\<rparr>\<rparr>"

text \<open>
  \<open>sy_ids\<close> are the ids generated so far, \<open>sy_made\<close> the calls made: id, method, parameters and future.
\<close>

record 's system =
  sy_calls :: call_list
  sy_sender :: "outgoing sender_history"
  sy_links :: "nat \<Rightarrow> 's link option"
  sy_app :: 's
  sy_ids :: "u32 list"
  sy_made :: "(u32 \<times> string \<times> mp_object list \<times> nat) list"

definition sys_init :: "'s system \<Rightarrow> bool" where
  "sys_init s \<longleftrightarrow> (\<exists>t g a. s = \<lparr>sy_calls = mk_call_list t g,
     sy_sender = \<lparr>sender = mk_sender, accepted = [], completed = []\<rparr>, sy_links = Map.empty, sy_app = a,
     sy_ids = [], sy_made = []\<rparr>)"

section \<open>Steps\<close>

text \<open>What the sender hands to a connection is written into its socket.\<close>

definition write_one :: "mp_packer \<Rightarrow> nat \<Rightarrow> outgoing \<Rightarrow> (nat \<Rightarrow> 's link option) \<Rightarrow> nat \<Rightarrow> 's link option" where
  "write_one pk c out ls =
     (case ls c of None \<Rightarrow> ls | Some l \<Rightarrow> ls(c \<mapsto> l\<lparr>to_server := channel_write pk out (to_server l)\<rparr>))"

fun write_to :: "mp_packer \<Rightarrow> (nat \<times> outgoing) list \<Rightarrow> (nat \<Rightarrow> 's link option) \<Rightarrow> nat \<Rightarrow> 's link option" where
  "write_to pk [] ls = ls"
| "write_to pk ((c, out) # rest) ls =
     write_to pk rest (write_one pk c out ls)"

definition sender_next :: "outgoing sender_event \<Rightarrow> outgoing sender_history \<Rightarrow> outgoing sender_history \<Rightarrow> bool" where
  "sender_next ev h h' \<longleftrightarrow> in_order ev (sender h) \<and> sender_exec ev (sender h) = Ok (sender h') \<and>
     accepted h' = accepted h @ accepted_by ev \<and> completed h' = completed h @ completed_by ev (sender h)"

definition new_outbox :: "outgoing sender_history \<Rightarrow> outgoing sender_history \<Rightarrow> (nat \<times> outgoing) list" where
  "new_outbox h h' = drop (length (outbox (sender h))) (outbox (sender h'))"

definition move_sender :: "mp_packer \<Rightarrow> outgoing sender_history \<Rightarrow> 's system \<Rightarrow> 's system" where
  "move_sender pk h' s = s\<lparr>sy_sender := h', sy_links := write_to pk (new_outbox (sy_sender s) h') (sy_links s)\<rparr>"

text \<open>What the server's side hands to its connection.\<close>

definition move_server :: "mp_packer \<Rightarrow> ('s, outgoing) sc_history \<Rightarrow> 's link \<Rightarrow> 's link" where
  "move_server pk h' l = l\<lparr>server_side := h', to_client :=
     fold (channel_write pk) (drop (length (out_box (sconn (server_side l)))) (out_box (sconn h'))) (to_client l)\<rparr>"

definition with_app :: "'s \<Rightarrow> ('s, outgoing) sc_history \<Rightarrow> ('s, outgoing) sc_history" where
  "with_app a h = h\<lparr>sconn := (sconn h)\<lparr>app := a\<rparr>\<rparr>"

text \<open>The callbacks of a connection for the messages a read has completed.\<close>

definition new_received :: "channel \<Rightarrow> channel \<Rightarrow> parsed_message list" where
  "new_received ch ch' = drop (length (ch_received ch)) (ch_received ch')"

fun receive_all :: "parsed_message list \<Rightarrow> ('s, outgoing) sc_history \<Rightarrow> ('s, outgoing) sc_history" where
  "receive_all [] h = h"
| "receive_all (m # ms) h = receive_all ms (h\<lparr>sconn := on_received m (sconn h)\<rparr>)"

fun process_all :: "parsed_message list \<Rightarrow> call_list \<Rightarrow> call_list" where
  "process_all [] cl = cl"
| "process_all (m # ms) cl = process_all ms (snd (process_received m cl))"

text \<open>The names of methods are bounded, since an error response can quote them.\<close>

definition name_bound :: nat where
  "name_bound = 2 ^ 31"

inductive sys_step for pk :: mp_packer and "next" and cv and mp :: "('s, outgoing) method_processor" where
  call: "create_call now (\<lambda>i. Ok (OutRequest nm i ps)) (sy_calls s) = (Ok (i, msg, f), cl) \<Longrightarrow> can_send msg \<Longrightarrow>
     length nm < name_bound \<Longrightarrow> sender_next (UserSend msg (Some i)) (sy_sender s) h' \<Longrightarrow>
     sys_step pk next cv mp s (move_sender pk h' (s\<lparr>sy_calls := cl, sy_ids := sy_ids s @ [i],
       sy_made := sy_made s @ [(i, nm, ps, f)]\<rparr>))"
| call_refused: "create_call now (\<lambda>i. Ok (OutRequest nm i ps)) (sy_calls s) = (Throw e, cl) \<Longrightarrow>
     sys_step pk next cv mp s (s\<lparr>sy_calls := cl, sy_ids := sy_ids s @ [next_id (sy_calls s)]\<rparr>)"
| notify: "can_send (OutNotification nm ps) \<Longrightarrow>
     sender_next (UserSend (OutNotification nm ps) None) (sy_sender s) h' \<Longrightarrow>
     sys_step pk next cv mp s (move_sender pk h' s)"
| connect: "sy_links s c = None \<Longrightarrow> sender_next (Connected c) (sy_sender s) h' \<Longrightarrow>
     sys_step pk next cv mp s (move_sender pk h' (s\<lparr>sy_links := (sy_links s)(c \<mapsto> mk_link (sy_app s) n m)\<rparr>))"
| write_done: "sender_next (WriteDone c) (sy_sender s) h' \<Longrightarrow> sys_step pk next cv mp s (move_sender pk h' s)"
| connection_lost: "sender_next Disconnected (sy_sender s) h' \<Longrightarrow> sys_step pk next cv mp s (move_sender pk h' s)"
| timeout: "on_timeout i (sy_calls s) = (r, cl) \<Longrightarrow> sys_step pk next cv mp s (s\<lparr>sy_calls := cl\<rparr>)"
| server_reads: "sy_links s c = Some l \<Longrightarrow> channel_read next cv (to_server l) ch' \<Longrightarrow>
     sys_step pk next cv mp s (s\<lparr>sy_links := (sy_links s)(c \<mapsto> l\<lparr>to_server := ch',
       server_side := receive_all (new_received (to_server l) ch') (server_side l)\<rparr>)\<rparr>)"
| server_works: "sy_links s c = Some l \<Longrightarrow> sc_local Ok mp (with_app (sy_app s) (server_side l)) h' \<Longrightarrow>
     sys_step pk next cv mp s (s\<lparr>sy_app := app (sconn h'), sy_links := (sy_links s)(c \<mapsto> move_server pk h' l)\<rparr>)"
| client_reads: "sy_links s c = Some l \<Longrightarrow> channel_read next cv (to_client l) ch' \<Longrightarrow>
     sys_step pk next cv mp s (s\<lparr>sy_links := (sy_links s)(c \<mapsto> l\<lparr>to_client := ch'\<rparr>),
       sy_calls := process_all (new_received (to_client l) ch') (sy_calls s)\<rparr>)"

section \<open>Where messages come from\<close>

definition request_of :: "u32 \<Rightarrow> string \<Rightarrow> mp_object list \<Rightarrow> parsed_request" where
  "request_of i nm ps = \<lparr>req_id = i, req_method = nm, req_params = \<lparr>params_object = MArray ps\<rparr>\<rparr>"

definition asked :: "(u32 \<times> string \<times> mp_object list \<times> nat) list \<Rightarrow> u32 \<Rightarrow> string \<Rightarrow> mp_object list \<Rightarrow> bool" where
  "asked M i nm ps \<longleftrightarrow> length nm < name_bound \<and> (\<exists>f. (i, nm, ps, f) \<in> set M)"

fun response_id :: "outgoing \<Rightarrow> u32 option" where
  "response_id (OutResult i r) = Some i"
| "response_id (OutError i e) = Some i"
| "response_id _ = None"

fun request_id :: "outgoing \<Rightarrow> u32 option" where
  "request_id (OutRequest nm i ps) = Some i"
| "request_id _ = None"

fun message_id :: "parsed_message \<Rightarrow> u32 option" where
  "message_id (PRequest r) = Some (req_id r)"
| "message_id _ = None"

fun task_id :: "server_task \<Rightarrow> u32 option" where
  "task_id (TRequest r) = Some (req_id r)"
| "task_id _ = None"

text \<open>The methods answer with a response to the request that the format can carry.\<close>

definition answers_ok :: "('s, outgoing) method_processor \<Rightarrow> bool" where
  "answers_ok mp \<longleftrightarrow> (\<forall>i nm ps a out a'. length nm < name_bound \<longrightarrow>
     processor_call Ok mp (request_of i nm ps) a = (Ok out, a') \<longrightarrow> can_send out \<and> response_id out = Some i)"

fun own_message :: "(u32 \<times> string \<times> mp_object list \<times> nat) list \<Rightarrow> outgoing \<Rightarrow> bool" where
  "own_message M (OutRequest nm i ps) \<longleftrightarrow> can_send (OutRequest nm i ps) \<and> asked M i nm ps"
| "own_message M (OutNotification nm ps) \<longleftrightarrow> can_send (OutNotification nm ps)"
| "own_message M _ \<longleftrightarrow> False"

fun own_task :: "(u32 \<times> string \<times> mp_object list \<times> nat) list \<Rightarrow> server_task \<Rightarrow> bool" where
  "own_task M (TRequest r) \<longleftrightarrow> (\<exists>i nm ps. r = request_of i nm ps \<and> asked M i nm ps)"
| "own_task M (TNotification n) \<longleftrightarrow> True"

definition answer_to where
  "answer_to mp M out \<longleftrightarrow> (\<exists>i nm ps a a'. asked M i nm ps \<and> processor_call Ok mp (request_of i nm ps) a = (Ok out, a'))"

lemma asked_more: "asked M i nm ps \<Longrightarrow> asked (M @ N) i nm ps"
  by (auto simp: asked_def)

lemma own_message_more: "own_message M out \<Longrightarrow> own_message (M @ N) out"
  by (cases out) (auto intro: asked_more)

lemma own_task_more: "own_task M t \<Longrightarrow> own_task (M @ N) t"
  by (cases t) (auto intro: asked_more)

lemma answer_to_more: "answer_to mp M out \<Longrightarrow> answer_to mp (M @ N) out"
  unfolding answer_to_def using asked_more by blast

lemma own_message_send: "own_message M out \<Longrightarrow> can_send out"
  by (cases out) simp_all

lemma answer_to_send: "answers_ok mp \<Longrightarrow> answer_to mp M out \<Longrightarrow> can_send out"
  unfolding answers_ok_def answer_to_def asked_def by blast

section \<open>The sender and the sockets\<close>

lemma send_next_outbox: "\<exists>new. outbox (send_next s) = outbox s @ new"
  by (auto simp: send_next_def async_send_on_def split: option.splits)

lemma sender_exec_outbox: "sender_exec ev s = Ok s' \<Longrightarrow> \<exists>new. outbox s' = outbox s @ new"
proof (cases ev)
  case (UserSend m i)
  moreover assume "sender_exec ev s = Ok s'"
  ultimately show ?thesis
    using send_next_outbox [of "s\<lparr>sent_messages := queue_push m i (sent_messages s)\<rparr>"] by (auto simp: send_message_def)
next
  case (Connected c)
  moreover assume "sender_exec ev s = Ok s'"
  ultimately show ?thesis using send_next_outbox [of "s\<lparr>connection := Some c\<rparr>"] by auto
next
  case (WriteDone c)
  moreover assume "sender_exec ev s = Ok s'"
  ultimately obtain s1 where "handle_sent_message s = Ok s1" "s' = send_next s1" by (auto simp: bind_out_Ok_iff)
  moreover from this have "outbox s1 = outbox s" by (auto simp: handle_sent_message_def split: option.splits)
  ultimately show ?thesis using send_next_outbox [of s1] by simp
next
  case Disconnected
  moreover assume "sender_exec ev s = Ok s'"
  ultimately show ?thesis by (auto simp: handle_disconnection_def)
qed

lemma sender_next_step: "sender_next ev h h' \<Longrightarrow> sender_step h h'"
proof -
  assume n: "sender_next ev h h'"
  have "h' = \<lparr>sender = sender h', accepted = accepted h @ accepted_by ev, completed = completed h @ completed_by ev (sender h)\<rparr>"
    using n by (cases h') (simp add: sender_next_def)
  then show ?thesis using n sender_step.intros [of ev h "sender h'"] by (simp add: sender_next_def)
qed

definition to_channel :: "nat \<Rightarrow> (nat \<times> outgoing) list \<Rightarrow> outgoing list" where
  "to_channel c box = map snd (filter (\<lambda>x. fst x = c) box)"

lemma to_channel_simps [simp]:
  "to_channel c [] = []" "to_channel c (x # xs) = (if fst x = c then [snd x] else []) @ to_channel c xs"
  "to_channel c (xs @ ys) = to_channel c xs @ to_channel c ys"
  by (simp_all add: to_channel_def)

lemma sent_on_channel: "sent_on c s = to_channel c (outbox s)"
  by (simp add: sent_on_def to_channel_def)

lemma sender_next_sent:
  assumes "sender_next ev h h'"
  shows "sent_on c (sender h') = sent_on c (sender h) @ to_channel c (new_outbox h h')"
proof -
  obtain new where "outbox (sender h') = outbox (sender h) @ new"
    using assms sender_exec_outbox unfolding sender_next_def by blast
  then show ?thesis by (simp add: sent_on_channel new_outbox_def)
qed

text \<open>What was ever handed to a connection was accepted from the user.\<close>

lemma sent_on_accepted:
  assumes "sender_inv h"
  obtains k n where "sent_on c (sender h) = drop k (take n (accepted h))"
  using assms unfolding sender_inv_def Let_def by blast

lemma write_to_eq:
  "write_to pk box ls c =
     map_option (\<lambda>l. l\<lparr>to_server := fold (channel_write pk) (to_channel c box) (to_server l)\<rparr>) (ls c)"
proof (induction box arbitrary: ls)
  case (Cons x rest)
  obtain d out where x: "x = (d, out)" by (cases x)
  have "write_one pk d out ls c =
      map_option (\<lambda>l. l\<lparr>to_server := fold (channel_write pk) (to_channel c [x]) (to_server l)\<rparr>) (ls c)"
    by (cases "ls d"; cases "ls c"; cases "c = d") (simp_all add: write_one_def x)
  then show ?case using Cons.IH [of "write_one pk d out ls"] by (cases "ls c") (simp_all add: x)
qed (simp add: option.map_ident)

lemma write_all_inv:
  assumes "codec_ok pk next" and "ch_inv pk ch" and "\<forall>out \<in> set outs. can_send out"
  shows "ch_inv pk (fold (channel_write pk) outs ch) \<and>
    ch_sent (fold (channel_write pk) outs ch) = ch_sent ch @ outs \<and>
    ch_received (fold (channel_write pk) outs ch) = ch_received ch"
  using assms(2,3)
proof (induction outs arbitrary: ch)
  case (Cons out outs)
  have "ch_inv pk (channel_write pk out ch)" using ch_write_inv [OF assms(1) Cons.prems(1)] Cons.prems(2) by simp
  then show ?case using Cons.IH [of "channel_write pk out ch"] Cons.prems(2) by simp
qed simp

section \<open>The two sides of a connection\<close>

definition answers_with :: "u32 \<Rightarrow> ('s, outgoing) sc_history \<Rightarrow> nat" where
  "answers_with i h = length (filter (\<lambda>out. response_id out = Some i) (answers h))"

definition tasks_with :: "u32 \<Rightarrow> ('s, outgoing) sc_history \<Rightarrow> nat" where
  "tasks_with i h = size (filter_mset (\<lambda>t. task_id t = Some i) (mset (posted (sconn h))))"

definition requests_with :: "u32 \<Rightarrow> parsed_message list \<Rightarrow> nat" where
  "requests_with i ms = length (filter (\<lambda>m. message_id m = Some i) ms)"

lemma receive_one_tasks:
  "posted (on_received m s) = posted s @
     (case m of PRequest r \<Rightarrow> [TRequest r] | PNotification n \<Rightarrow> [TNotification n] | PResponse r \<Rightarrow> [])"
  by (cases m) (simp_all add: on_received_def on_invalid_message_def)

lemma receive_all_tasks:
  "tasks_with i (receive_all ms h) = tasks_with i h + requests_with i ms \<and> answers (receive_all ms h) = answers h \<and>
   out_box (sconn (receive_all ms h)) = out_box (sconn h)"
proof (induction ms arbitrary: h)
  case Nil
  then show ?case by (simp add: requests_with_def)
next
  case (Cons m ms)
  have "tasks_with i (h\<lparr>sconn := on_received m (sconn h)\<rparr>) = tasks_with i h + requests_with i [m]"
    by (cases m) (simp_all add: tasks_with_def requests_with_def receive_one_tasks)
  moreover have "requests_with i (m # ms) = requests_with i [m] + requests_with i ms"
    by (simp add: requests_with_def)
  moreover have "out_box (on_received m (sconn h)) = out_box (sconn h)" using on_received_frame by blast
  ultimately show ?case using Cons.IH [of "h\<lparr>sconn := on_received m (sconn h)\<rparr>"] by simp
qed

lemma receive_all_inv: "sc_inv h \<Longrightarrow> sc_inv (receive_all ms h)"
  by (induction ms arbitrary: h) (simp_all add: on_received_inv)

lemma own_message_task:
  "own_message M out \<Longrightarrow> set (posted (on_received (sent_message out) s)) \<subseteq> set (posted s) \<union> {t. own_task M t}"
  by (cases out) (auto simp: receive_one_tasks request_of_def)

lemma receive_all_own:
  assumes "\<forall>out \<in> set outs. own_message M out" and "\<forall>t \<in> set (posted (sconn h)). own_task M t"
  shows "\<forall>t \<in> set (posted (sconn (receive_all (map sent_message outs) h))). own_task M t"
  using assms
proof (induction outs arbitrary: h)
  case (Cons out outs)
  let ?h = "h\<lparr>sconn := on_received (sent_message out) (sconn h)\<rparr>"
  have "\<forall>t \<in> set (posted (sconn ?h)). own_task M t"
    using own_message_task [of M out "sconn h"] Cons.prems by auto
  then show ?case using Cons.IH [of ?h] Cons.prems(1) by simp
qed simp

lemma sc_inv_app [simp]: "sc_inv (with_app a h) \<longleftrightarrow> sc_inv h"
  by (simp add: sc_inv_def with_app_def Let_def)

lemma with_app_simps [simp]:
  "answers (with_app a h) = answers h" "posted (sconn (with_app a h)) = posted (sconn h)"
  "out_box (sconn (with_app a h)) = out_box (sconn h)" "tasks_with i (with_app a h) = tasks_with i h"
  "answers_with i (with_app a h) = answers_with i h"
  by (simp_all add: with_app_def tasks_with_def answers_with_def)

text \<open>Whatever the server does, its answers are answers to requests it has, each used up.\<close>

lemma sc_local_own:
  assumes local: "sc_local Ok mp h h'" and ok: "answers_ok mp"
    and tasks: "\<forall>t \<in> set (posted (sconn h)). own_task M t" and ans: "\<forall>out \<in> set (answers h). answer_to mp M out"
  shows "(\<forall>t \<in> set (posted (sconn h')). own_task M t) \<and> (\<forall>out \<in> set (answers h'). answer_to mp M out) \<and>
    answers_with i h' + tasks_with i h' \<le> answers_with i h + tasks_with i h \<and>
    (\<exists>sent. out_box (sconn h') = out_box (sconn h) @ sent)"
  using local
proof (cases rule: sc_local_origin)
  case same
  have "tasks_with i h' \<le> tasks_with i h"
    unfolding tasks_with_def by (intro size_mset_mono multiset_filter_mono same(4))
  then show ?thesis using same tasks ans by (auto simp: answers_with_def)
next
  case (ran r out a a')
  have r: "TRequest r \<in> set (posted (sconn h))" "set (posted (sconn h')) \<subseteq> set (posted (sconn h))"
    using arg_cong [OF ran(3), of set_mset] by auto
  then obtain j nm ps where j: "r = request_of j nm ps" "asked M j nm ps" using tasks by fastforce
  then have "answer_to mp M out" using ran(4) unfolding answer_to_def by blast
  moreover have "response_id out = Some j" using ok ran(4) j(2) unfolding answers_ok_def asked_def j(1) by blast
  then have "response_id out = Some (req_id r)" by (simp add: j(1) request_of_def)
  moreover have "tasks_with i h = tasks_with i h' + (if req_id r = i then 1 else 0)"
    unfolding tasks_with_def ran(3) by simp
  ultimately show ?thesis using ran(1,2) r(2) tasks ans by (auto simp: answers_with_def)
qed

text \<open>What a server has handed to a connection are answers it has computed.\<close>

lemma out_box_answers: "sc_inv h \<Longrightarrow> set (out_box (sconn h)) \<subseteq> set (answers h)"
proof -
  assume "sc_inv h"
  then have "mset (answers h) = mset (pushed h) + mset (computed (sconn h))"
      "pushed h = out_box (sconn h) @ lost h @ message_queue (sconn h)"
    by (simp_all add: sc_inv_def Let_def)
  then have "set_mset (mset (out_box (sconn h))) \<subseteq> set_mset (mset (answers h))" by auto
  then show ?thesis by simp
qed

section \<open>The calls\<close>

definition future_of :: "u32 \<times> string \<times> mp_object list \<times> nat \<Rightarrow> nat" where
  "future_of c = snd (snd (snd c))"

text \<open>The ids are consecutive, every pending call was made, every call has its own future.\<close>

definition calls_part :: "call_list \<Rightarrow> u32 list \<Rightarrow> (u32 \<times> string \<times> mp_object list \<times> nat) list \<Rightarrow> bool" where
  "calls_part cl ids M \<longleftrightarrow>
     calls_ok cl \<and> (\<exists>g. ids = map (\<lambda>k. g + of_nat k) [0..<length ids] \<and> next_id cl = g + of_nat (length ids)) \<and>
     (\<forall>i f. calls cl i = Some f \<longrightarrow> (\<exists>nm ps. (i, nm, ps, f) \<in> set M)) \<and>
     (\<forall>c \<in> set M. future_of c < next_future cl) \<and> distinct (map future_of M) \<and> mset (map fst M) \<subseteq># mset ids"

definition right_result where
  "right_result mp i nm ps r \<longleftrightarrow> (\<exists>out a a'. processor_call Ok mp (request_of i nm ps) a = (Ok out, a') \<and>
     sent_message out = PResponse \<lparr>resp_id = i, resp_result = r\<rparr>)"

definition results_right where
  "results_right mp cl M \<longleftrightarrow> (\<forall>i nm ps f r. (i, nm, ps, f) \<in> set M \<longrightarrow> fut_result (futures cl f) = Some r \<longrightarrow>
     right_result mp i nm ps r)"

lemma distinct_sub:
  assumes "mset xs \<subseteq># mset ys" and "distinct ys"
  shows "distinct xs"
proof -
  obtain N where N: "mset ys = mset xs + N" using assms(1) by (metis mset_subset_eq_exists_conv)
  obtain zs where "mset zs = N" using ex_mset by blast
  then have "mset ys = mset (xs @ zs)" using N by simp
  then have "distinct (xs @ zs)" using assms(2) mset_eq_imp_distinct_iff by blast
  then show ?thesis by simp
qed

lemma ids_distinct:
  assumes "calls_part cl ids M" and "length ids \<le> 2 ^ 32"
  shows "distinct (map fst M)"
proof -
  obtain g where g: "ids = map (\<lambda>k. g + of_nat k) [0..<length ids]" using assms(1) unfolding calls_part_def by blast
  have "distinct (map (\<lambda>k. g + of_nat k :: u32) [0..<length ids])"
    using assms(2) by (auto simp: distinct_map inj_on_def of_nat_word_eq)
  then have "distinct ids" using g by simp
  then show ?thesis using assms(1) distinct_sub unfolding calls_part_def by blast
qed

lemma made_unique:
  assumes "distinct (map fst M)" "(i, nm, ps, f) \<in> set M" "(i, nm', ps', f') \<in> set M"
  shows "nm = nm' \<and> ps = ps' \<and> f = f'"
  using assms inj_onD [of fst "set M" "(i, nm, ps, f)" "(i, nm', ps', f')"] by (simp add: distinct_map)

lemma future_unique:
  assumes "distinct (map future_of M)" "(i, nm, ps, f) \<in> set M" "(i', nm', ps', f) \<in> set M"
  shows "i = i' \<and> nm = nm' \<and> ps = ps'"
  using assms inj_onD [of future_of "set M" "(i, nm, ps, f)" "(i', nm', ps', f)"]
  by (simp add: distinct_map future_of_def)

lemma answer_call_fields [simp]:
  "next_id (answer_call i a cl) = next_id cl" "next_future (answer_call i a cl) = next_future cl"
  "call_timeout (answer_call i a cl) = call_timeout cl"
  by (simp_all add: answer_call_def split: option.splits)

lemma answer_call_part: "calls_part cl ids M \<Longrightarrow> calls_part (answer_call i a cl) ids M"
  using calls_ok_answer [of cl i a]
  by (auto simp: calls_part_def answer_call_def split: option.splits if_splits)

lemma answer_call_result:
  "fut_result (futures (answer_call i a cl) f) = Some r \<Longrightarrow>
     fut_result (futures cl f) = Some r \<or> (calls cl i = Some f \<and> a = Inl r)"
  by (auto simp: answer_call_def answered_def split: option.splits if_splits sum.splits)

lemma timeout_part:
  assumes "calls_part cl ids M" and "on_timeout i cl = (x, cl')"
  shows "calls_part cl' ids M \<and> (results_right mp cl M \<longrightarrow> results_right mp cl' M)"
proof -
  have "cl' = answer_call i (Inr (mk_status TIMEOUT timeout_message)) cl"
    using assms on_timeout_answer by (simp add: calls_part_def)
  then show ?thesis using answer_call_part [OF assms(1)] answer_call_result
    unfolding results_right_def by blast
qed

text \<open>An answer of the server, received by the client.\<close>

lemma answer_part:
  assumes part: "calls_part cl ids M" and ok: "answers_ok mp" and out: "answer_to mp M out"
  shows "calls_part (snd (process_received (sent_message out) cl)) ids M \<and>
    (distinct (map fst M) \<and> results_right mp cl M \<longrightarrow>
      results_right mp (snd (process_received (sent_message out) cl)) M)"
proof -
  obtain i nm ps a a' where o: "asked M i nm ps" "processor_call Ok mp (request_of i nm ps) a = (Ok out, a')"
    using out unfolding answer_to_def by blast
  have "response_id out = Some i" using ok o unfolding answers_ok_def asked_def by blast
  then obtain r where r: "sent_message out = PResponse \<lparr>resp_id = i, resp_result = r\<rparr>" by (cases out) auto
  have cl': "snd (process_received (sent_message out) cl) = answer_call i (Inl r) cl"
    using part by (simp add: r process_received_def handle_response_eq calls_part_def)
  have "right_result mp j nm' ps' q"
    if d: "distinct (map fst M)" and res: "results_right mp cl M" and m: "(j, nm', ps', f) \<in> set M"
      and q: "fut_result (futures (answer_call i (Inl r) cl) f) = Some q" for j nm' ps' f q
    using answer_call_result [OF q]
  proof
    assume "fut_result (futures cl f) = Some q"
    then show ?thesis using res m unfolding results_right_def by blast
  next
    assume c: "calls cl i = Some f \<and> Inl r = Inl q"
    then obtain nm2 ps2 where "(i, nm2, ps2, f) \<in> set M" using part unfolding calls_part_def by blast
    then have j: "j = i" "nm' = nm2" "ps' = ps2" using future_unique [OF _ m] part unfolding calls_part_def by blast+
    moreover obtain f3 where "(i, nm, ps, f3) \<in> set M" using o(1) by (auto simp: asked_def)
    ultimately have "nm' = nm" "ps' = ps" using made_unique [OF d] m by blast+
    then show ?thesis using o(2) r c j(1) unfolding right_result_def by blast
  qed
  then show ?thesis using answer_call_part [OF part] unfolding cl' results_right_def by blast
qed

lemma process_all_part:
  assumes "calls_part cl ids M" and "answers_ok mp" and "\<forall>out \<in> set outs. answer_to mp M out"
  shows "calls_part (process_all (map sent_message outs) cl) ids M \<and>
    (distinct (map fst M) \<and> results_right mp cl M \<longrightarrow> results_right mp (process_all (map sent_message outs) cl) M)"
  using assms(1,3)
proof (induction outs arbitrary: cl)
  case (Cons out outs)
  have "answer_to mp M out" using Cons.prems(2) by simp
  note one = answer_part [OF Cons.prems(1) assms(2) this]
  show ?case using Cons.IH [OF conjunct1 [OF one]] Cons.prems(2) one by simp
qed simp

text \<open>A new call.\<close>

lemma create_part:
  assumes part: "calls_part cl ids M"
    and create: "create_call now (\<lambda>i. Ok (OutRequest nm i ps)) cl = (Ok (i, msg, f), cl')"
  shows "calls_part cl' (ids @ [i]) (M @ [(i, nm, ps, f)]) \<and> msg = OutRequest nm i ps \<and>
    (results_right mp cl M \<longrightarrow> results_right mp cl' (M @ [(i, nm, ps, f)]))"
proof (cases rule: create_call_cases [of now "\<lambda>i. Ok (OutRequest nm i ps)" cl])
  case (ok msg2 deadline)
  have e: "i = next_id cl" "f = next_future cl" "msg = OutRequest nm i ps"
    "cl' = cl\<lparr>next_id := next_id cl + 1, calls := (calls cl)(next_id cl \<mapsto> next_future cl),
        futures := (futures cl)(next_future cl := mk_future deadline), next_future := Suc (next_future cl)\<rparr>"
    using ok(1,4) create by auto
  obtain g where g: "ids = map (\<lambda>k. g + of_nat k) [0..<length ids]" "next_id cl = g + of_nat (length ids)"
    using part unfolding calls_part_def by blast
  have lt: "c \<in> set M \<Longrightarrow> future_of c < next_future cl" for c using part unfolding calls_part_def by blast
  have "calls_ok cl'" using calls_ok_new [OF _ ok(2)] part unfolding e(4) calls_part_def by blast
  moreover have "ids @ [i] = map (\<lambda>k. g + of_nat k) [0..<length (ids @ [i])] \<and> next_id cl' = g + of_nat (length (ids @ [i]))"
    using g by (simp add: e(1,4) add.assoc add.commute)
  moreover have "\<exists>nm' ps'. (j, nm', ps', f') \<in> set (M @ [(i, nm, ps, f)])" if "calls cl' j = Some f'" for j f'
    using that part unfolding e(1,2,4) calls_part_def by (auto split: if_splits)
  moreover have "future_of c < next_future cl'" if "c \<in> set (M @ [(i, nm, ps, f)])" for c
  proof (cases "c \<in> set M")
    case True
    then show ?thesis using less_SucI [OF lt [OF True]] by (simp add: e(4))
  next
    case False
    then show ?thesis using that by (simp add: e(2,4) future_of_def)
  qed
  moreover have "distinct (map future_of (M @ [(i, nm, ps, f)]))"
    using part lt by (auto simp: calls_part_def e(2) future_of_def)
  moreover have "mset (map fst (M @ [(i, nm, ps, f)])) \<subseteq># mset (ids @ [i])"
    using part by (simp add: calls_part_def)
  moreover have "results_right mp cl' (M @ [(i, nm, ps, f)])" if "results_right mp cl M"
    using that lt unfolding results_right_def by (auto simp: e(2,4) mk_future_def future_of_def)
  ultimately show ?thesis using e(3) unfolding calls_part_def by blast
qed (use create in simp_all)

lemma refused_part:
  assumes part: "calls_part cl ids M"
    and create: "create_call now (\<lambda>i. Ok (OutRequest nm i ps)) cl = (Throw e, cl')"
  shows "calls_part cl' (ids @ [next_id cl]) M \<and> (results_right mp cl M \<longrightarrow> results_right mp cl' M)"
proof -
  have cl': "cl' = cl\<lparr>next_id := next_id cl + 1\<rparr>"
    by (rule create_call_refused [OF create])
  obtain g where g: "ids = map (\<lambda>k. g + of_nat k) [0..<length ids]" "next_id cl = g + of_nat (length ids)"
    using part unfolding calls_part_def by blast
  then have "ids @ [next_id cl] = map (\<lambda>k. g + of_nat k) [0..<length (ids @ [next_id cl])] \<and>
      next_id cl' = g + of_nat (length (ids @ [next_id cl]))"
    by (simp add: cl' add.assoc add.commute)
  moreover have "mset (map fst M) \<subseteq># mset (ids @ [next_id cl])"
    using part subset_mset.order_trans [of "mset (map fst M)" "mset ids"] by (simp add: calls_part_def)
  ultimately show ?thesis using part unfolding calls_part_def cl' calls_ok_id results_right_def by auto
qed

section \<open>Invariant\<close>

definition link_inv where
  "link_inv pk mp M outs l \<longleftrightarrow>
     ch_inv pk (to_server l) \<and> ch_inv pk (to_client l) \<and> sc_inv (server_side l) \<and> ch_sent (to_server l) = outs \<and>
     ch_sent (to_client l) = out_box (sconn (server_side l)) \<and>
     (\<forall>t \<in> set (posted (sconn (server_side l))). own_task M t) \<and> (\<forall>out \<in> set (answers (server_side l)). answer_to mp M out) \<and>
     (\<forall>i. answers_with i (server_side l) + tasks_with i (server_side l) \<le> requests_with i (ch_received (to_server l)))"

definition links_inv where
  "links_inv pk mp M h ls \<longleftrightarrow>
     (\<forall>c. (ls c = None \<longrightarrow> sent_on c (sender h) = [] \<and> connection (sender h) \<noteq> Some c) \<and>
       (\<forall>l. ls c = Some l \<longrightarrow> link_inv pk mp M (sent_on c (sender h)) l))"

definition sys_inv where
  "sys_inv pk mp s \<longleftrightarrow>
     calls_part (sy_calls s) (sy_ids s) (sy_made s) \<and> sender_inv (sy_sender s) \<and>
     (\<forall>out \<in> set (accepted (sy_sender s)). own_message (sy_made s) out) \<and>
     List.map_filter request_id (accepted (sy_sender s)) = map fst (sy_made s) \<and>
     links_inv pk mp (sy_made s) (sy_sender s) (sy_links s) \<and>
     (length (sy_ids s) \<le> 2 ^ 32 \<longrightarrow> results_right mp (sy_calls s) (sy_made s))"

lemma link_inv_more: "link_inv pk mp M outs l \<Longrightarrow> link_inv pk mp (M @ N) outs l"
  unfolding link_inv_def using own_task_more answer_to_more by blast

lemma links_inv_more: "links_inv pk mp M h ls \<Longrightarrow> links_inv pk mp (M @ N) h ls"
  unfolding links_inv_def using link_inv_more by blast

lemma link_inv_new: "link_inv pk mp M [] (mk_link a n m)"
  by (simp add: link_inv_def mk_link_def sc_inv_def mk_server_connection_def answers_with_def tasks_with_def requests_with_def)

text \<open>The sender writes to the connection it has.\<close>

lemma send_next_channel: "connection s \<noteq> Some c \<Longrightarrow> sent_on c (send_next s) = sent_on c s"
  by (auto simp: send_next_def async_send_on_def sent_on_def split: option.splits)

lemma sender_exec_connection:
  assumes "sender_exec ev s = Ok s'"
  shows "(connection s' = Some c \<longrightarrow> connection s = Some c \<or> ev = Connected c) \<and>
    (connection s' \<noteq> Some c \<longrightarrow> sent_on c s' = sent_on c s)"
proof -
  have conn: "connection (send_next t) = connection t" for t :: "'b message_sender"
    by (auto simp: send_next_def async_send_on_def split: option.splits)
  show ?thesis
  proof (cases ev)
    case (UserSend m i)
    then show ?thesis
      using assms send_next_channel [of "s\<lparr>sent_messages := queue_push m i (sent_messages s)\<rparr>" c]
      by (auto simp: send_message_def conn sent_on_def)
  next
    case (Connected d)
    then show ?thesis
      using assms send_next_channel [of "s\<lparr>connection := Some d\<rparr>" c] by (auto simp: conn sent_on_def)
  next
    case (WriteDone d)
    then obtain s1 where s1: "handle_sent_message s = Ok s1" "s' = send_next s1" using assms by (auto simp: bind_out_Ok_iff)
    then have "outbox s1 = outbox s \<and> connection s1 = connection s"
      by (auto simp: handle_sent_message_def split: option.splits)
    then show ?thesis using s1(2) send_next_channel [of s1 c] by (simp add: conn sent_on_def)
  next
    case Disconnected
    then show ?thesis using assms by (auto simp: handle_disconnection_def sent_on_def)
  qed
qed

lemma write_link_inv:
  assumes codec: "codec_ok pk next" and inv: "link_inv pk mp M outs l" and send: "\<forall>out \<in> set new. can_send out"
  shows "link_inv pk mp M (outs @ new) (l\<lparr>to_server := fold (channel_write pk) new (to_server l)\<rparr>)"
proof -
  have "ch_inv pk (to_server l)" using inv unfolding link_inv_def by blast
  from write_all_inv [OF codec this send] show ?thesis using inv by (simp add: link_inv_def)
qed

lemma move_links_inv:
  assumes codec: "codec_ok pk next" and n: "sender_next ev h h'" and inv: "sender_inv h'" and links: "links_inv pk mp M h ls"
    and own: "\<forall>out \<in> set (accepted h'). own_message M out" and conn: "\<forall>c. ev = Connected c \<longrightarrow> ls c \<noteq> None"
  shows "links_inv pk mp M h' (write_to pk (new_outbox h h') ls)"
  unfolding links_inv_def
proof (intro allI conjI impI)
  fix c
  have ex: "sender_exec ev (sender h) = Ok (sender h')" using n by (simp add: sender_next_def)
  have none: "sent_on c (sender h') = [] \<and> connection (sender h') \<noteq> Some c" if "write_to pk (new_outbox h h') ls c = None"
  proof -
    have "ls c = None" using that by (simp add: write_to_eq)
    then show ?thesis using links conn sender_exec_connection [OF ex, of c] unfolding links_inv_def by metis
  qed
  then show "sent_on c (sender h') = []" "connection (sender h') \<noteq> Some c"
    if "write_to pk (new_outbox h h') ls c = None" using that by blast+
  fix l' assume "write_to pk (new_outbox h h') ls c = Some l'"
  then obtain l where l: "ls c = Some l" "l' = l\<lparr>to_server := fold (channel_write pk) (to_channel c (new_outbox h h')) (to_server l)\<rparr>"
    by (auto simp: write_to_eq)
  have sent: "sent_on c (sender h') = sent_on c (sender h) @ to_channel c (new_outbox h h')" by (rule sender_next_sent [OF n])
  obtain a b where "sent_on c (sender h') = drop a (take b (accepted h'))" using sent_on_accepted [OF inv] by blast
  then have "set (to_channel c (new_outbox h h')) \<subseteq> set (accepted h')"
    using sent by (metis dual_order.trans set_append set_drop_subset set_take_subset sup_ge2)
  then have send: "\<forall>out \<in> set (to_channel c (new_outbox h h')). can_send out" using own own_message_send by blast
  show "link_inv pk mp M (sent_on c (sender h')) l'"
    using write_link_inv [OF codec _ send] links l unfolding sent links_inv_def by blast
qed

text \<open>A read reports messages that were sent.\<close>

lemma new_received_sent:
  assumes "codec_ok pk next" "conv_ok cv" "ch_inv pk ch" "channel_read next cv ch ch'"
  obtains outs where "new_received ch ch' = map sent_message outs" "set outs \<subseteq> set (ch_sent ch)"
    "ch_received ch' = ch_received ch @ new_received ch ch'" "ch_inv pk ch'" "ch_sent ch' = ch_sent ch"
proof -
  from ch_read_step [OF assms] obtain new where new: "ch_received ch' = ch_received ch @ new"
    and inv: "ch_inv pk ch'" and sent: "ch_sent ch' = ch_sent ch" by blast
  obtain k where k: "ch_received ch' = map sent_message (take k (ch_sent ch'))" using ch_received_prefix [OF inv] by blast
  have e: "new_received ch ch' = new" by (simp add: new_received_def new)
  have "new = map sent_message (drop (length (ch_received ch)) (take k (ch_sent ch)))"
    using new k sent by (metis append_eq_conv_conj drop_map)
  moreover have "set (drop (length (ch_received ch)) (take k (ch_sent ch))) \<subseteq> set (ch_sent ch)"
    by (metis dual_order.trans set_drop_subset set_take_subset)
  ultimately show ?thesis
    using that [of "drop (length (ch_received ch)) (take k (ch_sent ch))"] inv sent unfolding e new by simp
qed

lemma requests_with_append [simp]: "requests_with i (xs @ ys) = requests_with i xs + requests_with i ys"
  by (simp add: requests_with_def)

lemma server_reads_inv:
  assumes codec: "codec_ok pk next" "conv_ok cv" and inv: "link_inv pk mp M outs l"
    and own: "\<forall>out \<in> set outs. own_message M out" and read: "channel_read next cv (to_server l) ch'"
  shows "link_inv pk mp M outs
    (l\<lparr>to_server := ch', server_side := receive_all (new_received (to_server l) ch') (server_side l)\<rparr>)"
proof -
  have l: "ch_inv pk (to_server l)" "sc_inv (server_side l)" "ch_sent (to_server l) = outs"
    "\<forall>t \<in> set (posted (sconn (server_side l))). own_task M t"
    using inv unfolding link_inv_def by blast+
  obtain new where new: "new_received (to_server l) ch' = map sent_message new" "set new \<subseteq> set (ch_sent (to_server l))"
      "ch_received ch' = ch_received (to_server l) @ new_received (to_server l) ch'" "ch_inv pk ch'"
      "ch_sent ch' = ch_sent (to_server l)"
    using new_received_sent [OF codec l(1) read] by blast
  let ?h = "receive_all (new_received (to_server l) ch') (server_side l)"
  have "\<forall>out \<in> set new. own_message M out" using new(2) l(3) own by blast
  from receive_all_own [OF this l(4)] have "\<forall>t \<in> set (posted (sconn ?h)). own_task M t" by (simp add: new(1))
  moreover have "sc_inv ?h" by (rule receive_all_inv [OF l(2)])
  moreover have "answers ?h = answers (server_side l)" "out_box (sconn ?h) = out_box (sconn (server_side l))"
      "tasks_with i ?h = tasks_with i (server_side l) + requests_with i (new_received (to_server l) ch')" for i
    using receive_all_tasks by blast+
  moreover from this have "answers_with i ?h = answers_with i (server_side l)" for i by (simp add: answers_with_def)
  ultimately show ?thesis using inv new(3-5) by (simp add: link_inv_def add.assoc [symmetric])
qed

lemma server_works_inv:
  assumes codec: "codec_ok pk next" and ok: "answers_ok mp" and inv: "link_inv pk mp M outs l"
    and local: "sc_local Ok mp (with_app a (server_side l)) h'"
  shows "link_inv pk mp M outs (move_server pk h' l)"
proof -
  let ?h = "with_app a (server_side l)"
  have l: "ch_inv pk (to_client l)" "sc_inv ?h" "ch_sent (to_client l) = out_box (sconn (server_side l))"
    "\<forall>t \<in> set (posted (sconn ?h)). own_task M t" "\<forall>out \<in> set (answers ?h). answer_to mp M out"
    using inv unfolding link_inv_def by simp_all
  note own = sc_local_own [OF local ok l(4,5)]
  obtain new where new: "out_box (sconn h') = out_box (sconn (server_side l)) @ new"
    using own [of undefined] by (elim conjE exE) (rule that, simp)
  have sc: "sc_inv h'" by (rule sc_local_inv [OF local l(2)])
  have "set new \<subseteq> set (answers h')" using out_box_answers [OF sc] new by auto
  then have "\<forall>out \<in> set new. can_send out" using own answer_to_send [OF ok] by blast
  note w = write_all_inv [OF codec l(1) this]
  have "answers_with i h' + tasks_with i h' \<le> requests_with i (ch_received (to_server l))" for i
  proof -
    have "answers_with i h' + tasks_with i h' \<le> answers_with i (server_side l) + tasks_with i (server_side l)"
      using own [of i] by simp
    also have "\<dots> \<le> requests_with i (ch_received (to_server l))" using inv unfolding link_inv_def by blast
    finally show ?thesis .
  qed
  then show ?thesis using inv w own sc l(3) new by (simp add: link_inv_def move_server_def)
qed

section \<open>Preservation\<close>

lemma move_sender_simps [simp]:
  "sy_calls (move_sender pk h' s) = sy_calls s" "sy_ids (move_sender pk h' s) = sy_ids s"
  "sy_made (move_sender pk h' s) = sy_made s" "sy_sender (move_sender pk h' s) = h'"
  "sy_links (move_sender pk h' s) = write_to pk (new_outbox (sy_sender s) h') (sy_links s)"
  by (simp_all add: move_sender_def)

lemma map_filter_append: "List.map_filter f (xs @ ys) = List.map_filter f xs @ List.map_filter f ys"
  by (simp add: List.map_filter_def)

text \<open>A step of the sender; the message it accepts, if any, is one of the calls made.\<close>

lemma sys_inv_move:
  assumes codec: "codec_ok pk next" and n: "sender_next ev (sy_sender s) h'" and inv: "sender_inv (sy_sender s)"
    and acc: "\<forall>out \<in> set (accepted (sy_sender s) @ accepted_by ev). own_message (sy_made s) out"
      "List.map_filter request_id (accepted (sy_sender s) @ accepted_by ev) = map fst (sy_made s)"
    and links: "links_inv pk mp (sy_made s) (sy_sender s) (sy_links s)" and conn: "\<forall>c. ev = Connected c \<longrightarrow> sy_links s c \<noteq> None"
    and calls: "calls_part (sy_calls s) (sy_ids s) (sy_made s)"
      "length (sy_ids s) \<le> 2 ^ 32 \<longrightarrow> results_right mp (sy_calls s) (sy_made s)"
  shows "sys_inv pk mp (move_sender pk h' s)"
proof -
  have a: "accepted h' = accepted (sy_sender s) @ accepted_by ev" using n by (simp add: sender_next_def)
  have i: "sender_inv h'" by (rule sender_sys.step_inv [OF inv sender_next_step [OF n]])
  have "links_inv pk mp (sy_made s) h' (write_to pk (new_outbox (sy_sender s) h') (sy_links s))"
    by (rule move_links_inv [OF codec n i links _ conn]) (use acc(1) a in simp)
  then show ?thesis using a i acc calls by (simp add: sys_inv_def)
qed

lemma links_inv_upd:
  "links_inv pk mp M h ls \<Longrightarrow> link_inv pk mp M (sent_on c (sender h)) l \<Longrightarrow> links_inv pk mp M h (ls(c \<mapsto> l))"
  by (simp add: links_inv_def)

lemma links_inv_link: "links_inv pk mp M h ls \<Longrightarrow> ls c = Some l \<Longrightarrow> link_inv pk mp M (sent_on c (sender h)) l"
  unfolding links_inv_def by blast

lemma sys_invD:
  assumes "sys_inv pk mp s"
  shows "calls_part (sy_calls s) (sy_ids s) (sy_made s)" "sender_inv (sy_sender s)"
    "\<forall>out \<in> set (accepted (sy_sender s)). own_message (sy_made s) out"
    "List.map_filter request_id (accepted (sy_sender s)) = map fst (sy_made s)"
    "links_inv pk mp (sy_made s) (sy_sender s) (sy_links s)"
    "length (sy_ids s) \<le> 2 ^ 32 \<longrightarrow> results_right mp (sy_calls s) (sy_made s)"
  using assms unfolding sys_inv_def by blast+

lemma sent_on_own:
  assumes "sender_inv h" "\<forall>out \<in> set (accepted h). own_message M out"
  shows "\<forall>out \<in> set (sent_on c (sender h)). own_message M out"
proof -
  obtain a b where "sent_on c (sender h) = drop a (take b (accepted h))" using sent_on_accepted [OF assms(1)] by blast
  then show ?thesis using assms(2) by (metis in_set_dropD in_set_takeD)
qed

lemma sys_inv_call:
  assumes codec: "codec_ok pk next" and inv: "sys_inv pk mp s"
    and create: "create_call now (\<lambda>i. Ok (OutRequest nm i ps)) (sy_calls s) = (Ok (i, msg, f), cl)"
    and send: "can_send msg" "length nm < name_bound" and n: "sender_next (UserSend msg (Some i)) (sy_sender s) h'"
  shows "sys_inv pk mp (move_sender pk h' (s\<lparr>sy_calls := cl, sy_ids := sy_ids s @ [i], sy_made := sy_made s @ [(i, nm, ps, f)]\<rparr>))"
proof -
  note d = sys_invD [OF inv]
  note c = create_part [OF d(1) create, of mp]
  have msg: "msg = OutRequest nm i ps" using c by blast
  let ?s = "s\<lparr>sy_calls := cl, sy_ids := sy_ids s @ [i], sy_made := sy_made s @ [(i, nm, ps, f)]\<rparr>"
  have own: "\<forall>out \<in> set (accepted (sy_sender s)). own_message (sy_made ?s) out" using d(3) own_message_more by auto
  have new: "asked (sy_made ?s) i nm ps" using send(2) by (auto simp: asked_def)
  show ?thesis
    by (rule sys_inv_move [OF codec, where ev = "UserSend msg (Some i)"])
      (use n d c send own new links_inv_more in \<open>simp_all add: msg map_filter_append List.map_filter_def\<close>)
qed

lemma sys_inv_step:
  assumes codec: "codec_ok pk next" "conv_ok cv" and ok: "answers_ok mp" and inv: "sys_inv pk mp s"
    and step: "sys_step pk next cv mp s t"
  shows "sys_inv pk mp t"
  using step
proof cases
  case (call now nm ps i msg f cl h')
  then show ?thesis using sys_inv_call [OF codec(1) inv] by blast
next
  case (call_refused now nm ps e cl)
  note d = sys_invD [OF inv]
  show ?thesis using refused_part [OF d(1) call_refused(2), of mp] d unfolding call_refused(1) sys_inv_def by simp
next
  case (notify nm ps h')
  note d = sys_invD [OF inv]
  show ?thesis unfolding notify(1)
    by (rule sys_inv_move [OF codec(1) notify(3)])
      (use d notify(2) in \<open>simp_all add: map_filter_append List.map_filter_def\<close>)
next
  case (connect c h' n m)
  note d = sys_invD [OF inv]
  let ?s = "s\<lparr>sy_links := (sy_links s)(c \<mapsto> mk_link (sy_app s) n m)\<rparr>"
  have "sent_on c (sender (sy_sender s)) = []" using d(5) connect(2) unfolding links_inv_def by blast
  then have "link_inv pk mp (sy_made s) (sent_on c (sender (sy_sender s))) (mk_link (sy_app s) n m)"
    by (simp add: link_inv_new)
  then have "links_inv pk mp (sy_made ?s) (sy_sender ?s) (sy_links ?s)" using links_inv_upd [OF d(5)] by simp
  moreover have "sender_next (Connected c) (sy_sender ?s) h'" using connect(3) by simp
  ultimately show ?thesis unfolding connect(1)
    by (intro sys_inv_move [OF codec(1), where ev = "Connected c" and s = ?s]) (use d in simp_all)
next
  case (write_done c h')
  note d = sys_invD [OF inv]
  show ?thesis unfolding write_done(1) by (rule sys_inv_move [OF codec(1) write_done(2)]) (use d in simp_all)
next
  case (connection_lost h')
  note d = sys_invD [OF inv]
  show ?thesis unfolding connection_lost(1) by (rule sys_inv_move [OF codec(1) connection_lost(2)]) (use d in simp_all)
next
  case (timeout i r cl)
  note d = sys_invD [OF inv]
  show ?thesis using timeout_part [OF d(1) timeout(2), of mp] d unfolding timeout(1) sys_inv_def by simp
next
  case (server_reads c l ch')
  note d = sys_invD [OF inv]
  have "link_inv pk mp (sy_made s) (sent_on c (sender (sy_sender s)))
      (l\<lparr>to_server := ch', server_side := receive_all (new_received (to_server l) ch') (server_side l)\<rparr>)"
    by (rule server_reads_inv [OF codec links_inv_link [OF d(5) server_reads(2)] sent_on_own [OF d(2,3)] server_reads(3)])
  then show ?thesis using d links_inv_upd [OF d(5)] unfolding server_reads(1) sys_inv_def by simp
next
  case (server_works c l h')
  note d = sys_invD [OF inv]
  have "link_inv pk mp (sy_made s) (sent_on c (sender (sy_sender s))) (move_server pk h' l)"
    by (rule server_works_inv [OF codec(1) ok links_inv_link [OF d(5) server_works(2)] server_works(3)])
  then show ?thesis using d links_inv_upd [OF d(5)] unfolding server_works(1) sys_inv_def by simp
next
  case (client_reads c l ch')
  note d = sys_invD [OF inv]
  have l: "link_inv pk mp (sy_made s) (sent_on c (sender (sy_sender s))) l" by (rule links_inv_link [OF d(5) client_reads(2)])
  have ch: "ch_inv pk (to_client l)" "ch_sent (to_client l) = out_box (sconn (server_side l))" "sc_inv (server_side l)"
    "\<forall>out \<in> set (answers (server_side l)). answer_to mp (sy_made s) out"
    using l unfolding link_inv_def by blast+
  obtain new where new: "new_received (to_client l) ch' = map sent_message new" "set new \<subseteq> set (ch_sent (to_client l))"
      "ch_inv pk ch'" "ch_sent ch' = ch_sent (to_client l)"
    using new_received_sent [OF codec ch(1) client_reads(3)] by blast
  have "\<forall>out \<in> set new. answer_to mp (sy_made s) out" using new(2) out_box_answers [OF ch(3)] ch(2,4) by auto
  note p = process_all_part [OF d(1) ok this, folded new(1)]
  have "link_inv pk mp (sy_made s) (sent_on c (sender (sy_sender s))) (l\<lparr>to_client := ch'\<rparr>)"
    using l new(3,4) by (simp add: link_inv_def)
  moreover have "length (sy_ids s) \<le> 2 ^ 32 \<Longrightarrow> distinct (map fst (sy_made s))" by (rule ids_distinct [OF d(1)])
  ultimately show ?thesis using d p links_inv_upd [OF d(5)] unfolding client_reads(1) sys_inv_def by simp
qed

lemma sys_inv_init:
  assumes "sys_init s"
  shows "sys_inv pk mp s"
proof -
  obtain t g a where s: "s = \<lparr>sy_calls = mk_call_list t g, sy_sender = \<lparr>sender = mk_sender, accepted = [], completed = []\<rparr>,
      sy_links = Map.empty, sy_app = a, sy_ids = [], sy_made = []\<rparr>"
    using assms unfolding sys_init_def by blast
  have "sender_inv (sy_sender s)" by (rule sender_sys.init_inv) (simp add: s sender_init_def)
  then show ?thesis
    by (simp add: s sys_inv_def calls_part_def mk_call_list_def calls_ok_def links_inv_def mk_sender_def sent_on_def
        results_right_def List.map_filter_def)
qed

interpretation remote_sys: invariant_system sys_init "sys_step pk next cv mp"
  "\<lambda>s. codec_ok pk next \<longrightarrow> conv_ok cv \<longrightarrow> answers_ok mp \<longrightarrow> sys_inv pk mp s" for pk "next" cv mp
  by unfold_locales (use sys_inv_init sys_inv_step in blast)+

section \<open>Methods whose answers can be sent\<close>

definition method_ok :: "('s, outgoing) rpc_method \<Rightarrow> bool" where
  "method_ok m \<longleftrightarrow> (\<forall>request s.
     case fst (m_call m request s) of
       Ok out \<Rightarrow> can_send out \<and> response_id out = Some (req_id request)
     | Throw e \<Rightarrow> is_std_exception e \<longrightarrow> length (what e) < 2 ^ 32
     | Undefined \<Rightarrow> True)"

text \<open>A function whose results and errors the format can carry.\<close>

definition function_ok where
  "function_ok fn \<longleftrightarrow> (\<forall>p s.
     case fst (fn p s) of
       Ok v \<Rightarrow> packable v
     | Throw e \<Rightarrow> (case e of MethodException obj \<Rightarrow> packable obj \<and> obj \<noteq> MNil | _ \<Rightarrow> length (what e) < 2 ^ 32)
     | Undefined \<Rightarrow> True)"

lemma length_c_str: "length (c_str s) \<le> length s"
  by (simp add: c_str_def length_takeWhile_le)

lemma functional_method_ok:
  assumes "function_ok fn"
  shows "method_ok (functional_method Ok is_void nm num as_tuple fn)"
  unfolding method_ok_def
proof (intro allI)
  fix request :: parsed_request and s
  show "case fst (m_call (functional_method Ok is_void nm num as_tuple fn) request s) of
       Ok out \<Rightarrow> can_send out \<and> response_id out = Some (req_id request)
     | Throw e \<Rightarrow> is_std_exception e \<longrightarrow> length (what e) < 2 ^ 32 | Undefined \<Rightarrow> True"
  proof (cases "parameters_as num as_tuple (req_params request)")
    case (Ok p)
    obtain r s' where r: "fn p s = (r, s')" by (cases "fn p s")
    have f: "case r of Ok v \<Rightarrow> packable v
       | Throw e \<Rightarrow> (case e of MethodException obj \<Rightarrow> packable obj \<and> obj \<noteq> MNil | _ \<Rightarrow> length (what e) < 2 ^ 32)
       | Undefined \<Rightarrow> True"
      using assms [unfolded function_ok_def, THEN spec, THEN spec, of p s] by (simp add: r)
    show ?thesis
      using f by (cases r; cases is_void)
        (auto simp: functional_method_def functional_call_def functional_call_void_def invoke_with_tuple_def act_defs
          Ok r can_send_def split: exn.splits)
  next
    case (Throw e)
    then show ?thesis
      by (cases is_void)
        (auto simp: functional_method_def functional_call_def functional_call_void_def act_defs can_send_def
          parameters_as_def exc_what_mk c_str_def split: option.splits if_splits)
  next
    case Undefined
    then show ?thesis
      by (cases is_void)
        (simp_all add: functional_method_def functional_call_def functional_call_void_def act_defs)
  qed
qed

lemma answers_ok_methods:
  assumes "\<forall>nm m. methods mp nm = Some m \<longrightarrow> method_ok m"
  shows "answers_ok mp"
  unfolding answers_ok_def
proof (intro allI impI)
  fix i nm ps a out a'
  assume nm: "length nm < name_bound" and call: "processor_call Ok mp (request_of i nm ps) a = (Ok out, a')"
  show "can_send out \<and> response_id out = Some i"
  proof (cases "methods mp nm")
    case None
    have "length (c_str (''Method '' @ nm @ '' not found.'')) < 2 ^ 32"
      using length_c_str [of "''Method '' @ nm @ '' not found.''"] nm by (simp add: name_bound_def)
    then show ?thesis
      using call None by (auto simp: processor_call_def dict_get_def act_defs request_of_def exc_what_mk can_send_def)
  next
    case (Some m)
    obtain r s' where r: "m_call m (request_of i nm ps) a = (r, s')" by (cases "m_call m (request_of i nm ps) a")
    have "method_ok m" using assms Some by blast
    from this [unfolded method_ok_def, rule_format, of "request_of i nm ps" a] show ?thesis
      using call r Some
      by (cases r)
        (auto simp: processor_call_def dict_get_def act_defs request_of_def can_send_def split: if_splits)
  qed
qed

lemma add_method_ok: "\<forall>nm m. methods (add_processor Ok) nm = Some m \<longrightarrow> method_ok m"
proof -
  have "function_ok add_function" by (simp add: function_ok_def add_function_def)
  then show ?thesis by (auto simp: add_processor_def add_method_def intro: functional_method_ok split: if_splits)
qed

end
