(* ===== verification/Remote_Safety.thy ===== *)
theory Remote_Safety
  imports Remote_System Msgpack_Reference
begin

text \<open>
  What the invariant of the composed system (theory \<open>Remote_System\<close>) says of the calls of a client:
  a future only ever gets an answer the server computed for its own call, and a connection carries,
  runs and answers a call at most once. Over several connections a method can run again, since the
  sender repeats a message whose write was not reported as complete.
\<close>

section \<open>At most once\<close>

lemma message_id_sent: "message_id (sent_message out) = request_id out"
  by (cases out) simp_all

lemma requests_accepted:
  "length (filter (\<lambda>out. request_id out = Some i) xs) = count_list (List.map_filter request_id xs) i"
  by (induction xs) (auto simp: List.map_filter_def)

lemma count_list_distinct: "distinct xs \<Longrightarrow> count_list xs x \<le> 1"
  by (induction xs) auto

lemma filter_part: "length (filter P (drop a (take b xs))) \<le> length (filter P xs)"
proof -
  have "xs = take a (take b xs) @ drop a (take b xs) @ drop b xs" by (metis append.assoc append_take_drop_id)
  then have "filter P xs = filter P (take a (take b xs)) @ filter P (drop a (take b xs)) @ filter P (drop b xs)"
    by (metis filter_append)
  then show ?thesis by simp
qed

lemma received_once:
  assumes inv: "sys_inv pk mp s" and link: "sy_links s c = Some l" and few: "length (sy_ids s) \<le> 2 ^ 32"
  shows "requests_with i (ch_received (to_server l)) \<le> 1"
proof -
  note d = sys_invD [OF inv]
  have l: "ch_inv pk (to_server l)" "ch_sent (to_server l) = sent_on c (sender (sy_sender s))"
    using links_inv_link [OF d(5) link] unfolding link_inv_def by blast+
  obtain k where k: "ch_received (to_server l) = map sent_message (take k (ch_sent (to_server l)))"
    using ch_received_prefix [OF l(1)] by blast
  obtain a b where ab: "sent_on c (sender (sy_sender s)) = drop a (take b (accepted (sy_sender s)))"
    using sent_on_accepted [OF d(2)] by blast
  have "requests_with i (ch_received (to_server l)) =
      length (filter (\<lambda>out. request_id out = Some i) (take k (ch_sent (to_server l))))"
    by (simp add: k requests_with_def filter_map comp_def message_id_sent)
  also have "\<dots> \<le> length (filter (\<lambda>out. request_id out = Some i) (ch_sent (to_server l)))"
    using filter_part [of _ 0 k] by simp
  also have "\<dots> \<le> length (filter (\<lambda>out. request_id out = Some i) (accepted (sy_sender s)))"
    using filter_part unfolding l(2) ab by blast
  also have "\<dots> = count_list (map fst (sy_made s)) i" by (simp only: requests_accepted d(4))
  also have "\<dots> \<le> 1" using ids_distinct [OF d(1) few] by (rule count_list_distinct)
  finally show ?thesis .
qed

section \<open>Everything that arrived has been reported\<close>

lemma ch_all_read:
  assumes codec: "codec_ok pk next" and inv: "ch_inv pk ch" and empty: "ch_bytes ch = []"
  shows "ch_received ch = map sent_message (ch_sent ch)"
proof -
  from inv obtain k where k: "partial_of pk (drop k (ch_sent ch)) (pending (parser (ch_reader ch)))"
      "stream pk (drop k (ch_sent ch)) = pending (parser (ch_reader ch))" "\<forall>out \<in> set (ch_sent ch). can_send out"
      "callbacks (ch_reader ch) = map (OnReceived \<circ> sent_message) (take k (ch_sent ch))"
    using empty by (auto simp: ch_inv_def)
  have "drop k (ch_sent ch) = []"
    using k(1,2) by (cases "drop k (ch_sent ch)") (auto simp: partial_of_def stream_def)
  then have "take k (ch_sent ch) = ch_sent ch" by simp
  then show ?thesis unfolding ch_received_def k(4) by (simp only: received_of_map)
qed

section \<open>An example\<close>

text \<open>
  One call of \<open>add\<close>, made before there is a connection; then a connection opens, the server reads
  the request in one piece and runs the method.
\<close>

definition ex_request :: outgoing where
  "ex_request = OutRequest ''add'' 5 [MPosInt 1, MPosInt 2]"

definition ex_calls :: call_list where
  "ex_calls = snd (create_call 0 (\<lambda>i. Ok (OutRequest ''add'' i [MPosInt 1, MPosInt 2])) (mk_call_list 15000000000 5))"

definition ex_step :: "outgoing sender_event \<Rightarrow> outgoing sender_history \<Rightarrow> outgoing sender_history" where
  "ex_step ev h = \<lparr>sender = (case sender_exec ev (sender h) of Ok s \<Rightarrow> s), accepted = accepted h @ accepted_by ev,
     completed = completed h @ completed_by ev (sender h)\<rparr>"

definition ex_start :: "nat system" where
  "ex_start = \<lparr>sy_calls = mk_call_list 15000000000 5,
     sy_sender = \<lparr>sender = mk_sender, accepted = [], completed = []\<rparr>, sy_links = Map.empty, sy_app = 0,
     sy_ids = [], sy_made = []\<rparr>"

definition ex_called :: "nat system" where
  "ex_called = ex_start\<lparr>sy_calls := ex_calls, sy_ids := [5], sy_made := [(5, ''add'', [MPosInt 1, MPosInt 2], 0)],
     sy_sender := ex_step (UserSend ex_request (Some 5)) (sy_sender ex_start)\<rparr>"

abbreviation ex_reach where
  "ex_reach \<equiv> reach sys_init (sys_step ref_packer ref_next ref_conv (add_processor Ok))"

lemma sender_next_ex: "in_order ev (sender h) \<Longrightarrow> is_ok (sender_exec ev (sender h)) \<Longrightarrow> sender_next ev h (ex_step ev h)"
  by (auto simp: sender_next_def ex_step_def is_ok_iff)

lemmas ex_sender = ex_step_def mk_sender_def send_message_def send_next_def queue_push_def queue_next_def
  async_send_on_def handle_disconnection_def is_ok_iff

lemma ex_create: "create_call 0 (\<lambda>i. Ok (OutRequest ''add'' i [MPosInt 1, MPosInt 2])) (mk_call_list 15000000000 5) =
    (Ok (5, ex_request, 0), ex_calls)"
  by (simp add: ex_calls_def ex_request_def create_call_eq create_entry_def mk_call_list_def generate_id_def
      add_time_def clock_ok_def Let_def)

lemma ex_called_reach: "ex_reach ex_called"
proof -
  have r: "ex_reach ex_start" by (intro reach_init) (auto simp: sys_init_def ex_start_def)
  let ?s = "ex_start\<lparr>sy_calls := ex_calls, sy_ids := sy_ids ex_start @ [5],
      sy_made := sy_made ex_start @ [(5, ''add'', [MPosInt 1, MPosInt 2], 0)]\<rparr>"
  let ?h = "ex_step (UserSend ex_request (Some 5)) (sy_sender ex_start)"
  have "create_call 0 (\<lambda>i. Ok (OutRequest ''add'' i [MPosInt 1, MPosInt 2])) (sy_calls ex_start) =
      (Ok (5, ex_request, 0), ex_calls)" by (simp add: ex_start_def ex_create)
  moreover have "can_send ex_request" by (simp add: ex_request_def can_send_def)
  moreover have "length ''add'' < name_bound" by (simp add: name_bound_def)
  moreover have "sender_next (UserSend ex_request (Some 5)) (sy_sender ex_start) ?h"
    by (rule sender_next_ex) (simp_all add: ex_start_def ex_sender)
  ultimately have "sys_step ref_packer ref_next ref_conv (add_processor Ok) ex_start (move_sender ref_packer ?h ?s)"
    by (rule sys_step.call)
  moreover have "move_sender ref_packer ?h ?s = ex_called"
    by (simp add: move_sender_def ex_called_def ex_start_def new_outbox_def ex_sender)
  ultimately show ?thesis using reach_step [OF r] by simp
qed

lemma read_one_message:
  assumes codec: "codec_ok pk next" and conv: "conv_ok cv" and out: "can_send out"
  shows "\<exists>ch'. channel_read next cv (channel_write pk out (mk_channel (length (wire pk out)))) ch' \<and>
    new_received (channel_write pk out (mk_channel (length (wire pk out)))) ch' = [sent_message out]"
proof -
  let ?ch = "channel_write pk out (mk_channel (length (wire pk out)))"
  have inv: "ch_inv pk ?ch" by (rule ch_write_inv [OF codec ch_inv_new out])
  have b: "ch_bytes ?ch = wire pk out @ []" "length (wire pk out) \<le> read_buffer_size (parser (ch_reader ?ch))"
    by (simp_all add: channel_write_def mk_channel_def async_read_next_def conn_start_def mk_connection_def
        handle_start_request_def prepare_buffer_def handle_processing_started_def mk_parser_def)
  obtain ch' where ch': "channel_read next cv ?ch ch'" "ch_bytes ch' = []"
    using ch_can_read [OF codec conv inv b(1) wire_nonempty [OF codec out] b(2)] by blast
  have "ch_inv pk ch'" "ch_sent ch' = [out]" using ch_read_step [OF codec conv inv ch'(1)] by simp_all
  then have "ch_received ch' = [sent_message out]" using ch_all_read [OF codec _ ch'(2)] by simp
  then show ?thesis using ch'(1) by (auto simp: new_received_def)
qed

text \<open>A new connection carries the queued request to the server, which runs the method.\<close>

definition ex_done :: "nat \<Rightarrow> (nat, outgoing) sc_history" where
  "ex_done n = \<lparr>sconn = (mk_server_connection (Suc n))\<lparr>computed := [OutResult 5 (MPosInt 3)]\<rparr>,
     answers = [OutResult 5 (MPosInt 3)], pushed = [], lost = [], written = 0\<rparr>"

lemma ex_run_request: "sc_local Ok (add_processor Ok)
    (with_app n (receive_all [sent_message ex_request] (server_side (mk_link k a b)))) (ex_done n)"
proof -
  let ?h = "with_app n (receive_all [sent_message ex_request] (server_side (mk_link k a b)))"
  have m: "sent_message ex_request = PRequest (add_request [MPosInt 1, MPosInt 2])"
    by (simp add: ex_request_def add_request_def)
  have s: "sconn ?h = (mk_server_connection n)\<lparr>posted := [TRequest (add_request [MPosInt 1, MPosInt 2])]\<rparr>"
    by (simp add: m with_app_def mk_link_def on_received_def mk_server_connection_def)
  let ?s = "(mk_server_connection (Suc n))\<lparr>computed := [OutResult 5 (MPosInt 3)]\<rparr>"
  have p: "0 < length (posted (sconn ?h))" "posted (sconn ?h) ! 0 = TRequest (add_request [MPosInt 1, MPosInt 2])"
    by (simp_all only: s) simp_all
  have r: "run_request Ok (add_processor Ok) (add_request [MPosInt 1, MPosInt 2])
      ((sconn ?h)\<lparr>posted := take 0 (posted (sconn ?h)) @ drop (Suc 0) (posted (sconn ?h))\<rparr>) = (Ok (), ?s)"
    unfolding s by (simp add: run_request_def add_call mk_server_connection_def)
  have "?h\<lparr>sconn := ?s, answers := answers ?h @ drop (length (computed (sconn ?h))) (computed ?s)\<rparr> = ex_done n"
    unfolding s by (simp add: ex_done_def m with_app_def mk_link_def mk_server_connection_def)
  then show ?thesis using sc_local.run_req [OF p r refl] by simp
qed

definition ex_connected :: "nat \<Rightarrow> nat system \<Rightarrow> nat link \<Rightarrow> nat system" where
  "ex_connected c s l = s\<lparr>sy_sender := ex_step (Connected c) (sy_sender s), sy_links := (sy_links s)(c \<mapsto> l),
     sy_app := Suc (sy_app s)\<rparr>"

lemma ex_served:
  assumes reach: "ex_reach s" and free: "sy_links s c = None" "c \<notin> fst ` set (outbox (sender (sy_sender s)))"
    and queue: "connection (sender (sy_sender s)) = None" "sent_messages (sender (sy_sender s)) = [(ex_request, Some 5)]"
      "\<not> is_sending (sender (sy_sender s))"
  shows "\<exists>l. ex_reach (ex_connected c s l) \<and> to_client l = mk_channel k \<and> server_side l = ex_done (sy_app s)"
proof -
  let ?h = "sy_sender s" and ?h' = "ex_step (Connected c) (sy_sender s)" and ?n = "length (wire ref_packer ex_request)"
  let ?mp = "add_processor Ok :: (nat, outgoing) method_processor"
  have send: "can_send ex_request" by (simp add: ex_request_def can_send_def)
  let ?s = "s\<lparr>sy_links := (sy_links s)(c \<mapsto> mk_link (sy_app s) ?n k)\<rparr>"
  have "sender_next (Connected c) ?h ?h'"
    by (rule sender_next_ex) (use free(2) queue in \<open>simp_all add: ex_sender\<close>)
  then have r1: "ex_reach (move_sender ref_packer ?h' ?s)" by (rule reach_step [OF reach sys_step.connect [OF free(1)]])
  have new: "new_outbox ?h ?h' = [(c, ex_request)]" using queue by (simp add: new_outbox_def ex_sender)
  let ?ch = "channel_write ref_packer ex_request (mk_channel ?n)"
  let ?l1 = "(mk_link (sy_app s) ?n k)\<lparr>to_server := ?ch\<rparr>"
  have m1: "move_sender ref_packer ?h' ?s = s\<lparr>sy_sender := ?h', sy_links := (sy_links s)(c \<mapsto> ?l1)\<rparr>"
    by (simp add: move_sender_def new write_one_def mk_link_def)
  obtain ch' where ch': "channel_read ref_next ref_conv ?ch ch'" "new_received ?ch ch' = [sent_message ex_request]"
    using read_one_message [OF codec_ok_ref conv_ok_ref send] by blast
  let ?s1 = "s\<lparr>sy_sender := ?h', sy_links := (sy_links s)(c \<mapsto> ?l1)\<rparr>"
  let ?l2 = "?l1\<lparr>to_server := ch', server_side := receive_all [sent_message ex_request] (server_side ?l1)\<rparr>"
  have r1': "ex_reach ?s1" using r1 unfolding m1 .
  have l1: "sy_links ?s1 c = Some ?l1" "channel_read ref_next ref_conv (to_server ?l1) ch'" using ch'(1) by simp_all
  have "sys_step ref_packer ref_next ref_conv ?mp ?s1 (?s1\<lparr>sy_links := (sy_links ?s1)(c \<mapsto> ?l1\<lparr>to_server := ch',
      server_side := receive_all (new_received (to_server ?l1) ch') (server_side ?l1)\<rparr>)\<rparr>)"
    by (rule sys_step.server_reads [OF l1])
  then have r2: "ex_reach (?s1\<lparr>sy_links := (sy_links ?s1)(c \<mapsto> ?l2)\<rparr>)"
    using reach_step [OF r1'] ch'(2) by simp
  obtain l2 where l2: "l2 = ?l2" by blast
  let ?s2 = "?s1\<lparr>sy_links := (sy_links ?s1)(c \<mapsto> l2)\<rparr>"
  have r2': "ex_reach ?s2" unfolding l2 by (rule r2)
  have link: "sy_links ?s2 c = Some l2" by simp
  have run: "sc_local Ok ?mp (with_app (sy_app ?s2) (server_side l2)) (ex_done (sy_app s))"
    using ex_run_request [of "sy_app s" "sy_app s" ?n k] by (simp add: l2)
  have to: "ex_reach (?s2\<lparr>sy_app := app (sconn (ex_done (sy_app s))), sy_links := (sy_links ?s2)(c \<mapsto>
      move_server ref_packer (ex_done (sy_app s)) l2)\<rparr>)"
    by (rule reach_step [OF r2']) (rule sys_step.server_works [where s = ?s2 and c = c and l = l2, OF link run])
  have a: "app (sconn (ex_done (sy_app s))) = Suc (sy_app s)" by (simp add: ex_done_def mk_server_connection_def)
  have eq: "?s2\<lparr>sy_app := Suc (sy_app s), sy_links := (sy_links ?s2)(c \<mapsto> l)\<rparr> = ex_connected c s l" for l
    unfolding ex_connected_def by simp
  have out: "out_box (sconn (ex_done (sy_app s))) = []" by (simp add: ex_done_def mk_server_connection_def)
  let ?l3 = "move_server ref_packer (ex_done (sy_app s)) l2"
  have f: "to_client ?l3 = mk_channel k" "server_side ?l3 = ex_done (sy_app s)"
    by (simp_all add: move_server_def out l2 mk_link_def)
  have "ex_reach (ex_connected c s ?l3)" using to unfolding a eq .
  then show ?thesis using f by (intro exI [of _ ?l3] conjI)
qed

lemma ex_called_facts:
  "sy_links ex_called c = None" "outbox (sender (sy_sender ex_called)) = []" "connection (sender (sy_sender ex_called)) = None"
  "sent_messages (sender (sy_sender ex_called)) = [(ex_request, Some 5)]" "\<not> is_sending (sender (sy_sender ex_called))"
  "sy_app ex_called = 0" "sy_ids ex_called = [5]" "sy_made ex_called = [(5, ''add'', [MPosInt 1, MPosInt 2], 0)]"
  "sy_calls ex_called = ex_calls"
  by (simp_all add: ex_called_def ex_start_def ex_sender)

lemma ex_first_connection:
  "\<exists>l. ex_reach (ex_connected 0 ex_called l) \<and> to_client l = mk_channel k \<and> server_side l = ex_done 0"
  using ex_served [OF ex_called_reach, of 0 k] by (simp add: ex_called_facts)

text \<open>The response is queued, sent and read by the client.\<close>

abbreviation ex_answer :: outgoing where
  "ex_answer \<equiv> OutResult 5 (MPosInt 3)"

definition ex_pushed :: "(nat, outgoing) sc_history" where
  "ex_pushed = (ex_done 0)\<lparr>sconn := push_response 0 (sconn (ex_done 0)), pushed := [ex_answer]\<rparr>"

definition ex_sent :: "(nat, outgoing) sc_history" where
  "ex_sent = ex_pushed\<lparr>sconn := owed_send (sconn ex_pushed)\<rparr>"

lemmas ex_server = ex_done_def ex_pushed_def ex_sent_def mk_server_connection_def push_response_def owed_send_def
  send_next_if_exists_def with_app_def

lemma ex_push: "sc_local Ok (add_processor Ok) (with_app 1 (ex_done 0)) ex_pushed"
proof -
  have e: "with_app 1 (ex_done 0) = ex_done 0" by (simp add: ex_server)
  have "0 < length (computed (sconn (ex_done 0)))" by (simp add: ex_server)
  from sc_local.push [OF this refl, of Ok "add_processor Ok"] show ?thesis
    unfolding e ex_pushed_def by (simp add: ex_done_def)
qed

lemma ex_send: "sc_local Ok (add_processor Ok) (with_app 1 ex_pushed) ex_sent"
proof -
  have e: "with_app 1 ex_pushed = ex_pushed" by (simp add: ex_server)
  have "0 < owed (sconn ex_pushed)" by (simp add: ex_server)
  from sc_local.send [OF this refl, of Ok "add_processor Ok"] show ?thesis
    unfolding e ex_sent_def by (simp add: ex_server)
qed

lemma ex_boxes: "out_box (sconn (ex_done 0)) = []" "out_box (sconn ex_pushed) = []" "out_box (sconn ex_sent) = [ex_answer]"
    "app (sconn ex_pushed) = 1" "app (sconn ex_sent) = 1"
  by (simp_all add: ex_server)

lemma server_works_link:
  assumes r: "reach sys_init (sys_step pk next cv mp) s" and l: "sy_links s c = Some l" and a: "app (sconn h') = sy_app s"
    and local: "sc_local Ok mp (with_app (sy_app s) (server_side l)) h'"
  shows "reach sys_init (sys_step pk next cv mp) (s\<lparr>sy_links := (sy_links s)(c \<mapsto> move_server pk h' l)\<rparr>)"
proof -
  have e: "s\<lparr>sy_app := sy_app s, sy_links := L\<rparr> = s\<lparr>sy_links := L\<rparr>" for L by simp
  show ?thesis using reach_step [OF r sys_step.server_works [OF l local]] unfolding a e .
qed

lemma ex_answered: "\<exists>s. ex_reach s \<and> sy_ids s = [5] \<and> sy_made s = [(5, ''add'', [MPosInt 1, MPosInt 2], 0)] \<and>
    sy_calls s = snd (process_received (sent_message ex_answer) ex_calls)"
proof -
  let ?n = "length (wire ref_packer ex_answer)"
  obtain l where r1: "ex_reach (ex_connected 0 ex_called l)" and l: "to_client l = mk_channel ?n" "server_side l = ex_done 0"
    using ex_first_connection [of ?n] by blast
  obtain s1 where s1: "s1 = ex_connected 0 ex_called l" by blast
  have f1: "sy_app s1 = 1" "sy_links s1 0 = Some l" "sy_ids s1 = [5]" "sy_calls s1 = ex_calls"
      "sy_made s1 = [(5, ''add'', [MPosInt 1, MPosInt 2], 0)]"
    by (simp_all add: s1 ex_connected_def ex_called_facts)
  let ?l2 = "move_server ref_packer ex_pushed l"
  let ?s2 = "s1\<lparr>sy_links := (sy_links s1)(0 \<mapsto> ?l2)\<rparr>"
  have p: "sc_local Ok (add_processor Ok) (with_app (sy_app s1) (server_side l)) ex_pushed"
    unfolding f1(1) l(2) by (rule ex_push)
  have r2: "ex_reach ?s2"
    by (rule server_works_link [OF r1 [folded s1] f1(2) _ p]) (simp add: f1(1) ex_boxes)
  obtain s2 where s2: "s2 = ?s2" by blast
  have l2: "server_side ?l2 = ex_pushed" "to_client ?l2 = mk_channel ?n" by (simp_all add: move_server_def ex_boxes l)
  have f2: "sy_app s2 = 1" "sy_links s2 0 = Some ?l2" using f1 by (simp_all add: s2)
  let ?l3 = "move_server ref_packer ex_sent ?l2"
  have p: "sc_local Ok (add_processor Ok) (with_app (sy_app s2) (server_side ?l2)) ex_sent"
    unfolding f2(1) l2(1) by (rule ex_send)
  have r3: "ex_reach (s2\<lparr>sy_links := (sy_links s2)(0 \<mapsto> ?l3)\<rparr>)"
    by (rule server_works_link [OF r2 [folded s2] f2(2) _ p]) (simp add: f2(1) ex_boxes)
  obtain s3 where s3: "s3 = s2\<lparr>sy_links := (sy_links s2)(0 \<mapsto> ?l3)\<rparr>" by blast
  have l3: "sy_links s3 0 = Some ?l3" "to_client ?l3 = channel_write ref_packer ex_answer (mk_channel ?n)"
    unfolding move_server_def [of _ ex_sent] l2 by (simp_all add: s3 move_server_def [of _ ex_sent] l2 ex_boxes)
  obtain ch' where ch': "channel_read ref_next ref_conv (to_client ?l3) ch'"
      "new_received (to_client ?l3) ch' = [sent_message ex_answer]"
    using read_one_message [OF codec_ok_ref conv_ok_ref, of ex_answer] unfolding l3(2) by (auto simp: can_send_def)
  have r4: "ex_reach (s3\<lparr>sy_links := (sy_links s3)(0 \<mapsto> ?l3\<lparr>to_client := ch'\<rparr>),
      sy_calls := process_all [sent_message ex_answer] (sy_calls s3)\<rparr>)"
    using reach_step [OF r3 [folded s3] sys_step.client_reads [OF l3(1) ch'(1)]] unfolding ch'(2) .
  have "sy_calls s3 = ex_calls" "sy_ids s3 = [5]" "sy_made s3 = [(5, ''add'', [MPosInt 1, MPosInt 2], 0)]"
    using f1(3-5) by (simp_all add: s3 s2)
  then show ?thesis
    by (intro exI [of _ "s3\<lparr>sy_links := (sy_links s3)(0 \<mapsto> ?l3\<lparr>to_client := ch'\<rparr>),
      sy_calls := process_all [sent_message ex_answer] (sy_calls s3)\<rparr>"] conjI r4) simp_all
qed

section \<open>Properties\<close>

text \<open>
  C2. No cross-talk: in every run of a client and a server over any number of connections, with all
  calls, writes, partial reads, callbacks, timeouts and reconnections interleaved, the result a
  future holds is the response the server's methods gave to the very request of that call, as long
  as the client has generated no more ids than there are.
\<close>

theorem no_cross_talk:
  assumes codec: "codec_ok pk next" "conv_ok cv" and methods: "\<forall>nm m. methods mp nm = Some m \<longrightarrow> method_ok m"
    and reach: "reach sys_init (sys_step pk next cv mp) s" and few: "length (sy_ids s) \<le> 2 ^ 32"
    and made: "(i, nm, ps, f) \<in> set (sy_made s)" and result: "fut_result (futures (sy_calls s) f) = Some r"
  shows "\<exists>out a a'.
    processor_call Ok mp \<lparr>req_id = i, req_method = nm, req_params = \<lparr>params_object = MArray ps\<rparr>\<rparr> a = (Ok out, a') \<and>
    sent_message out = PResponse \<lparr>resp_id = i, resp_result = r\<rparr>"
proof -
  have "sys_inv pk mp s" using remote_sys.reach_inv [OF reach] codec answers_ok_methods [OF methods] by blast
  then have "results_right mp (sy_calls s) (sy_made s)" using few by (rule sys_invD(6) [rule_format])
  then have "right_result mp i nm ps r" using made result unfolding results_right_def by blast
  then show ?thesis unfolding right_result_def request_of_def .
qed

theorem no_cross_talk_witness:
  "\<exists>(s :: nat system). reach sys_init (sys_step ref_packer ref_next ref_conv (add_processor Ok)) s \<and>
     fut_result (futures (sy_calls s) 0) = Some (create_result (MPosInt 3)) \<and>
     (\<exists>out a a'. processor_call Ok (add_processor Ok) (add_request [MPosInt 1, MPosInt 2]) a = (Ok out, a') \<and>
        sent_message out = PResponse \<lparr>resp_id = 5, resp_result = create_result (MPosInt 3)\<rparr>)"
proof -
  obtain s :: "nat system" where s: "ex_reach s" "sy_ids s = [5]" "sy_made s = [(5, ''add'', [MPosInt 1, MPosInt 2], 0)]"
      "sy_calls s = snd (process_received (sent_message ex_answer) ex_calls)"
    using ex_answered by blast
  have r: "fut_result (futures (sy_calls s) 0) = Some (create_result (MPosInt 3))"
    by (simp add: s(4) ex_calls_def create_call_eq create_entry_def mk_call_list_def generate_id_def add_time_def clock_ok_def
        process_received_def handle_response_def set_result_def mk_future_def Let_def)
  have "length (sy_ids s) \<le> 2 ^ 32" "(5, ''add'', [MPosInt 1, MPosInt 2], 0) \<in> set (sy_made s)" by (simp_all add: s(2,3))
  from no_cross_talk [OF codec_ok_ref conv_ok_ref add_method_ok s(1) this r] show ?thesis
    using s(1) r unfolding add_request_def [symmetric] by blast
qed



text \<open>
  Over two connections a method can run twice for one call: when the connection is lost before
  the end of the write is reported, the request is sent again on the next connection, although the
  server may have received it and run the method.
\<close>

theorem request_repeated_after_reconnection:
  "\<exists>(s :: nat system) l0 l1. reach sys_init (sys_step ref_packer ref_next ref_conv (add_processor Ok)) s \<and>
     sy_made s = [(5, ''add'', [MPosInt 1, MPosInt 2], 0)] \<and> sy_links s 0 = Some l0 \<and> sy_links s 1 = Some l1 \<and>
     answers (server_side l0) = [OutResult 5 (MPosInt 3)] \<and> answers (server_side l1) = [OutResult 5 (MPosInt 3)] \<and>
     sy_app s = 2"
proof -
  obtain l where r: "ex_reach (ex_connected 0 ex_called l)" and l: "server_side l = ex_done 0"
    using ex_first_connection by blast
  obtain s1 where s1: "s1 = ex_connected 0 ex_called l" by blast
  have f1: "sy_app s1 = 1" "sy_links s1 = [0 \<mapsto> l]" "sy_made s1 = [(5, ''add'', [MPosInt 1, MPosInt 2], 0)]"
    "sender (sy_sender s1) = \<lparr>sent_messages = [(ex_request, Some 5)], is_sending = True, connection = Some 0, outbox = [(0, ex_request)]\<rparr>"
    by (simp_all add: s1 ex_connected_def ex_called_facts) (simp_all add: ex_called_def ex_start_def ex_sender)
  let ?h = "ex_step Disconnected (sy_sender s1)"
  have "sender_next Disconnected (sy_sender s1) ?h" by (rule sender_next_ex) (simp_all add: f1(4) ex_sender)
  from reach_step [OF r [folded s1] sys_step.connection_lost [OF this]] have r2: "ex_reach (move_sender ref_packer ?h s1)" .
  obtain s2 where s2: "s2 = move_sender ref_packer ?h s1" by blast
  have f2: "sy_app s2 = 1" "sy_links s2 = [0 \<mapsto> l]" "sy_made s2 = [(5, ''add'', [MPosInt 1, MPosInt 2], 0)]"
    "sender (sy_sender s2) = \<lparr>sent_messages = [(ex_request, Some 5)], is_sending = False, connection = None, outbox = [(0, ex_request)]\<rparr>"
    by (simp_all add: s2 f1 move_sender_def new_outbox_def ex_sender)
  obtain l2 where r3: "ex_reach (ex_connected 1 s2 l2)" and l2: "server_side l2 = ex_done 1"
    using ex_served [OF r2 [folded s2], of 1] by (auto simp: f2)
  have "sy_links (ex_connected 1 s2 l2) 0 = Some l" "sy_links (ex_connected 1 s2 l2) 1 = Some l2"
    "sy_made (ex_connected 1 s2 l2) = [(5, ''add'', [MPosInt 1, MPosInt 2], 0)]" "sy_app (ex_connected 1 s2 l2) = 2"
    by (simp_all add: ex_connected_def f2)
  moreover have "answers (server_side l) = [OutResult 5 (MPosInt 3)]" "answers (server_side l2) = [OutResult 5 (MPosInt 3)]"
    by (simp_all add: l l2 ex_done_def)
  ultimately show ?thesis using r3 by blast
qed

end
