(* ===== verification/Remote_Progress.thy ===== *)
theory Remote_Progress
  imports Remote_Safety
begin

text \<open>
  Progress of the composed system: whatever happened before, connections lost and writes in flight
  included, a call whose request is still in the queue of the sender can be answered, over a new
  connection that carries the queue up to this request.
\<close>

section \<open>The sender empties its queue\<close>

text \<open>The state \<open>t\<close>, in which connection \<open>c\<close> has been given the messages of the queue \<open>q\<close> up to position \<open>j\<close>.\<close>

definition carried where
  "carried pk c n m q ob j s t \<longleftrightarrow>
     sender (sy_sender t) = \<lparr>sent_messages = drop j q, is_sending = True, connection = Some c,
       outbox = ob @ map (Pair c) (take (Suc j) (map fst q))\<rparr> \<and>
     sy_app t = sy_app s \<and> sy_calls t = sy_calls s \<and>
     sy_links t c = Some ((mk_link (sy_app s) n m)\<lparr>to_server :=
       fold (channel_write pk) (take (Suc j) (map fst q)) (mk_channel n)\<rparr>)"

lemma sender_next_exec:
  "in_order ev (sender h) \<Longrightarrow> sender_exec ev (sender h) = Ok s' \<Longrightarrow>
     sender_next ev h \<lparr>sender = s', accepted = accepted h @ accepted_by ev, completed = completed h @ completed_by ev (sender h)\<rparr>"
  by (simp add: sender_next_def)

lemma carry_first:
  assumes s: "sender (sy_sender s) = \<lparr>sent_messages = q, is_sending = False, connection = None, outbox = ob\<rparr>"
    and free: "sy_links s c = None" "c \<notin> fst ` set ob" and q: "q \<noteq> []"
  shows "\<exists>t. sys_step pk next cv mp s t \<and> carried pk c n m q ob 0 s t"
proof -
  obtain msg i r where q': "q = (msg, i) # r" using q by (cases q) auto
  let ?s' = "\<lparr>sent_messages = q, is_sending = True, connection = Some c, outbox = ob @ [(c, msg)]\<rparr>"
  have "in_order (Connected c) (sender (sy_sender s))" "sender_exec (Connected c) (sender (sy_sender s)) = Ok ?s'"
    using free(2) by (simp_all add: s q' send_next_def queue_next_def async_send_on_def)
  from sender_next_exec [OF this] obtain h' where h': "sender_next (Connected c) (sy_sender s) h'" "sender h' = ?s'" by simp
  have new: "new_outbox (sy_sender s) h' = [(c, msg)]" by (simp add: new_outbox_def s h'(2))
  let ?u = "s\<lparr>sy_links := (sy_links s)(c \<mapsto> mk_link (sy_app s) n m)\<rparr>"
  have "carried pk c n m q ob 0 s (move_sender pk h' ?u)"
    by (simp add: carried_def move_sender_def new h'(2) q' write_one_def) (simp add: mk_link_def)
  then show ?thesis using sys_step.connect [OF free(1) h'(1)] by blast
qed

lemma carry_next:
  assumes c: "carried pk c n m q ob j s t" and j: "Suc j < length q"
  shows "\<exists>u. sys_step pk next cv mp t u \<and> carried pk c n m q ob (Suc j) s u"
proof -
  let ?l = "\<lambda>j. (mk_link (sy_app s) n m)\<lparr>to_server := fold (channel_write pk) (take (Suc j) (map fst q)) (mk_channel n)\<rparr>"
  have t: "sender (sy_sender t) = \<lparr>sent_messages = drop j q, is_sending = True, connection = Some c,
      outbox = ob @ map (Pair c) (take (Suc j) (map fst q))\<rparr>" "sy_links t c = Some (?l j)"
    "sy_app t = sy_app s" "sy_calls t = sy_calls s"
    using c unfolding carried_def by blast+
  obtain msg i where msg: "q ! Suc j = (msg, i)" by (cases "q ! Suc j")
  have d: "drop j q = q ! j # drop (Suc j) q" "drop (Suc j) q = (msg, i) # drop (Suc (Suc j)) q"
    using j msg Cons_nth_drop_Suc [of j q] Cons_nth_drop_Suc [of "Suc j" q] by simp_all
  have more: "take (Suc (Suc j)) (map fst q) = take (Suc j) (map fst q) @ [msg]"
    using j msg by (simp add: take_Suc_conv_app_nth)
  let ?s' = "\<lparr>sent_messages = drop (Suc j) q, is_sending = True, connection = Some c,
      outbox = ob @ map (Pair c) (take (Suc (Suc j)) (map fst q))\<rparr>"
  have "in_order (WriteDone c) (sender (sy_sender t))" by (simp add: t(1))
  moreover have "sender_exec (WriteDone c) (sender (sy_sender t)) = Ok ?s'"
    unfolding more by (simp add: t(1) handle_sent_message_def queue_pop_def d send_next_def queue_next_def async_send_on_def)
  ultimately obtain h' where h': "sender_next (WriteDone c) (sy_sender t) h'" "sender h' = ?s'"
    using sender_next_exec by (metis sender_history.select_convs(1))
  have new: "new_outbox (sy_sender t) h' = [(c, msg)]" unfolding new_outbox_def h'(2) more t(1) by simp
  have "sy_links (move_sender pk h' t) c = Some (?l (Suc j))"
    unfolding more by (simp add: move_sender_def new t(2) write_one_def)
  then have "carried pk c n m q ob (Suc j) s (move_sender pk h' t)"
    using t(3,4) unfolding carried_def by (simp add: h'(2) move_sender_def)
  then show ?thesis using sys_step.write_done [OF h'(1)] by blast
qed

lemma carry_to:
  assumes s: "sender (sy_sender s) = \<lparr>sent_messages = q, is_sending = False, connection = None, outbox = ob\<rparr>"
    and free: "sy_links s c = None" "c \<notin> fst ` set ob" and p: "p < length q"
  shows "\<exists>t. (sys_step pk next cv mp)\<^sup>*\<^sup>* s t \<and> carried pk c n m q ob p s t"
  using p
proof (induction p)
  case 0
  then obtain t where "sys_step pk next cv mp s t" "carried pk c n m q ob 0 s t"
    using carry_first [OF s free] by blast
  then show ?case by blast
next
  case (Suc p)
  then obtain t where t: "(sys_step pk next cv mp)\<^sup>*\<^sup>* s t" "carried pk c n m q ob p s t" by auto
  obtain u where "sys_step pk next cv mp t u" "carried pk c n m q ob (Suc p) s u"
    using carry_next [OF t(2)] Suc.prems by blast
  then show ?case using rtranclp.rtrancl_into_rtrancl [OF t(1)] by blast
qed

text \<open>There is always an unused number for a new connection.\<close>

lemma write_to_dom: "dom (write_to pk box ls) = dom ls"
  by (auto simp: write_to_eq dom_def)

lemma links_finite: "reach sys_init (sys_step pk next cv mp) s \<Longrightarrow> finite (dom (sy_links s))"
proof (induction rule: reach.induct)
  case (reach_init s)
  then show ?case by (auto simp: sys_init_def)
next
  case (reach_step s t)
  from reach_step(2) show ?case using reach_step(3) by cases (simp_all add: write_to_dom del: fun_upd_apply)
qed

lemma free_connection:
  assumes "reach sys_init (sys_step pk next cv mp) s"
  obtains c where "sy_links s c = None" "c \<notin> fst ` set (outbox (sender (sy_sender s)))"
proof -
  have "finite (dom (sy_links s) \<union> fst ` set (outbox (sender (sy_sender s))))"
    using links_finite [OF assms] by simp
  then obtain c where "c \<notin> dom (sy_links s) \<union> fst ` set (outbox (sender (sy_sender s)))"
    using ex_new_if_finite infinite_UNIV_nat by blast
  then show ?thesis using that by blast
qed

section \<open>The server takes the request and answers\<close>

lemma reads_all:
  assumes codec: "codec_ok pk next" and conv: "conv_ok cv" and send: "\<forall>out \<in> set outs. can_send out" and outs: "outs \<noteq> []"
    and n: "n = length (stream pk outs)"
  shows "\<exists>ch'. channel_read next cv (fold (channel_write pk) outs (mk_channel n)) ch' \<and>
    new_received (fold (channel_write pk) outs (mk_channel n)) ch' = map sent_message outs"
proof -
  let ?ch = "fold (channel_write pk) outs (mk_channel n)"
  have fields: "ch_bytes (fold (channel_write pk) xs ch) = ch_bytes ch @ stream pk xs \<and>
      ch_reader (fold (channel_write pk) xs ch) = ch_reader ch" for xs ch
    by (induction xs arbitrary: ch) (simp_all add: stream_def channel_write_def)
  have w: "ch_inv pk ?ch" "ch_sent ?ch = outs" "ch_received ?ch = []"
    using write_all_inv [OF codec ch_inv_new send] by simp_all
  have b: "ch_bytes ?ch = stream pk outs @ []" "length (stream pk outs) \<le> read_buffer_size (parser (ch_reader ?ch))"
    using fields [of outs "mk_channel n"] n
    by (simp_all add: mk_channel_def async_read_next_def conn_start_def mk_connection_def handle_start_request_def
        prepare_buffer_def handle_processing_started_def mk_parser_def)
  have "stream pk outs \<noteq> []"
    using outs send wire_nonempty [OF codec] by (cases outs) (auto simp: stream_def)
  then obtain ch' where ch': "channel_read next cv ?ch ch'" "ch_bytes ch' = []"
    using ch_can_read [OF codec conv w(1) b(1) _ b(2)] by blast
  have "ch_inv pk ch'" "ch_sent ch' = outs" using ch_read_step [OF codec conv w(1) ch'(1)] w(2) by simp_all
  then have "ch_received ch' = map sent_message outs" using ch_all_read [OF codec _ ch'(2)] by simp
  then show ?thesis using ch'(1) w(3) by (auto simp: new_received_def)
qed

text \<open>What receiving messages leaves alone, and what it posts.\<close>

lemma receive_all_sconn:
  "sconn (receive_all ms h) = fold on_received ms (sconn h) \<and> answers (receive_all ms h) = answers h \<and>
   pushed (receive_all ms h) = pushed h \<and> lost (receive_all ms h) = lost h \<and> written (receive_all ms h) = written h"
  by (induction ms arbitrary: h) simp_all

lemma fold_received_frame:
  "computed (fold on_received ms s) = computed s \<and> connected (fold on_received ms s) = connected s \<and>
   out_box (fold on_received ms s) = out_box s \<and> message_queue (fold on_received ms s) = message_queue s \<and>
   sc_is_sending (fold on_received ms s) = sc_is_sending s \<and> owed (fold on_received ms s) = owed s \<and>
   set (posted s) \<union> {TRequest r | r. PRequest r \<in> set ms} \<subseteq> set (posted (fold on_received ms s))"
proof (induction ms arbitrary: s)
  case (Cons m ms)
  have "set (posted s) \<union> {TRequest r | r. PRequest r = m} \<subseteq> set (posted (on_received m s))"
    by (cases m) (auto simp: receive_one_tasks)
  then show ?case using Cons.IH [of "on_received m s"] on_received_frame [of m s] by auto
qed simp

lemma fold_received_posted: "PRequest r \<in> set ms \<Longrightarrow> TRequest r \<in> set (posted (fold on_received ms s))"
  using fold_received_frame [of ms s] by blast

lemma receive_all_frame:
  "computed (sconn (receive_all ms h)) = computed (sconn h)" "connected (sconn (receive_all ms h)) = connected (sconn h)"
  "message_queue (sconn (receive_all ms h)) = message_queue (sconn h)"
  "sc_is_sending (sconn (receive_all ms h)) = sc_is_sending (sconn h)"
  by (simp_all add: receive_all_sconn fold_received_frame)

lemma run_request_ok:
  assumes task: "TRequest r \<in> set (posted (sconn h))" and call: "processor_call Ok mp r (app (sconn h)) = (Ok out, a')"
  shows "\<exists>h'. sc_local Ok mp h h' \<and> computed (sconn h') = computed (sconn h) @ [out] \<and> app (sconn h') = a' \<and>
    connected (sconn h') = connected (sconn h) \<and> out_box (sconn h') = out_box (sconn h) \<and>
    message_queue (sconn h') = message_queue (sconn h) \<and> sc_is_sending (sconn h') = sc_is_sending (sconn h)"
proof -
  let ?s = "sconn h"
  obtain k where k: "k < length (posted ?s)" "posted ?s ! k = TRequest r" using task by (auto simp: in_set_conv_nth)
  let ?u = "?s\<lparr>posted := take k (posted ?s) @ drop (Suc k) (posted ?s)\<rparr>"
  have run: "run_request Ok mp r ?u = (Ok (), ?u\<lparr>app := a', computed := computed ?s @ [out]\<rparr>)"
    using call by (simp add: run_request_def)
  show ?thesis using sc_local.run_req [OF k run refl] by auto
qed

lemma push_ok:
  assumes "computed (sconn h) = [out]" "message_queue (sconn h) = []"
  shows "\<exists>h'. sc_local ser mp h h' \<and> message_queue (sconn h') = [out] \<and> app (sconn h') = app (sconn h) \<and>
    connected (sconn h') = connected (sconn h) \<and> out_box (sconn h') = out_box (sconn h) \<and>
    sc_is_sending (sconn h') = sc_is_sending (sconn h) \<and> 0 < owed (sconn h')"
proof -
  have "0 < length (computed (sconn h))" by (simp add: assms(1))
  from sc_local.push [OF this refl, of ser mp]
  obtain h' where h': "sc_local ser mp h h'" "sconn h' = push_response 0 (sconn h)" by simp
  show ?thesis using assms by (intro exI [of _ h'] conjI h'(1)) (simp_all add: h'(2) push_response_def)
qed

lemma send_ok:
  assumes "message_queue (sconn h) = [out]" "connected (sconn h)" "\<not> sc_is_sending (sconn h)" "0 < owed (sconn h)"
  shows "\<exists>h'. sc_local ser mp h h' \<and> app (sconn h') = app (sconn h) \<and> out_box (sconn h') = out_box (sconn h) @ [out]"
proof -
  from sc_local.send [OF assms(4) refl, of ser mp]
  obtain h' where h': "sc_local ser mp h h'" "sconn h' = owed_send (sconn h)" by simp
  show ?thesis using assms(1-3)
    by (intro exI [of _ h'] conjI h'(1)) (simp_all add: h'(2) owed_send_def send_next_if_exists_def)
qed

lemma works_step:
  assumes "sy_links s c = Some l" and "sc_local Ok mp (with_app (sy_app s) (server_side l)) h'"
  shows "\<exists>t. sys_step pk next cv mp s t \<and> sy_calls t = sy_calls s \<and> sy_app t = app (sconn h') \<and>
    sy_links t c = Some (move_server pk h' l)"
  by (intro exI [of _ "s\<lparr>sy_app := app (sconn h'), sy_links := (sy_links s)(c \<mapsto> move_server pk h' l)\<rparr>"] conjI
      sys_step.server_works [OF assms]) simp_all

lemma with_app_sconn [simp]:
  "app (sconn (with_app a h)) = a" "computed (sconn (with_app a h)) = computed (sconn h)"
  "message_queue (sconn (with_app a h)) = message_queue (sconn h)" "connected (sconn (with_app a h)) = connected (sconn h)"
  "sc_is_sending (sconn (with_app a h)) = sc_is_sending (sconn h)" "owed (sconn (with_app a h)) = owed (sconn h)"
  by (simp_all add: with_app_def)

lemma move_server_simps [simp]:
  "server_side (move_server pk h l) = h"
  "out_box (sconn h) = out_box (sconn (server_side l)) \<Longrightarrow> to_client (move_server pk h l) = to_client l"
  "out_box (sconn h) = out_box (sconn (server_side l)) @ [out] \<Longrightarrow>
     to_client (move_server pk h l) = channel_write pk out (to_client l)"
  by (simp_all add: move_server_def)

lemma server_answers:
  assumes link: "sy_links s c = Some l" and task: "TRequest r \<in> set (posted (sconn (server_side l)))"
    and idle: "computed (sconn (server_side l)) = []" "message_queue (sconn (server_side l)) = []"
      "\<not> sc_is_sending (sconn (server_side l))" "connected (sconn (server_side l))"
    and call: "processor_call Ok mp r (sy_app s) = (Ok out, a')"
  shows "\<exists>t l'. (sys_step pk next cv mp)\<^sup>*\<^sup>* s t \<and> sy_calls t = sy_calls s \<and> sy_links t c = Some l' \<and>
    to_client l' = channel_write pk out (to_client l)"
proof -
  let ?R = "sys_step pk next cv mp"
  obtain h1 where h1: "sc_local Ok mp (with_app (sy_app s) (server_side l)) h1" "computed (sconn h1) = [out]"
      "connected (sconn h1)" "out_box (sconn h1) = out_box (sconn (server_side l))" "message_queue (sconn h1) = []"
      "\<not> sc_is_sending (sconn h1)"
    using run_request_ok [of r "with_app (sy_app s) (server_side l)" mp out a'] task call idle by auto
  obtain s1 where s1: "?R s s1" "sy_calls s1 = sy_calls s" "sy_links s1 c = Some (move_server pk h1 l)"
    using works_step [OF link h1(1)] by blast
  let ?h = "with_app (sy_app s1) (server_side (move_server pk h1 l))"
  obtain h2 where h2: "sc_local Ok mp ?h h2" "message_queue (sconn h2) = [out]" "connected (sconn h2)"
      "out_box (sconn h2) = out_box (sconn (server_side l))" "\<not> sc_is_sending (sconn h2)" "0 < owed (sconn h2)"
    using push_ok [of ?h out Ok mp] h1 by auto
  obtain s2 where s2: "?R s1 s2" "sy_calls s2 = sy_calls s1"
      "sy_links s2 c = Some (move_server pk h2 (move_server pk h1 l))"
    using works_step [OF s1(3) h2(1)] by blast
  let ?g = "with_app (sy_app s2) (server_side (move_server pk h2 (move_server pk h1 l)))"
  obtain h3 where h3: "sc_local Ok mp ?g h3" "out_box (sconn h3) = out_box (sconn (server_side l)) @ [out]"
    using send_ok [of ?g out Ok mp] h2 by auto
  obtain s3 where s3: "?R s2 s3" "sy_calls s3 = sy_calls s2"
      "sy_links s3 c = Some (move_server pk h3 (move_server pk h2 (move_server pk h1 l)))"
    using works_step [OF s2(3) h3(1)] by blast
  have "?R\<^sup>*\<^sup>* s s3"
    using s1(1) s2(1) s3(1) by (meson converse_rtranclp_into_rtranclp rtranclp.rtrancl_refl)
  moreover have "to_client (move_server pk h3 (move_server pk h2 (move_server pk h1 l))) = channel_write pk out (to_client l)"
    using h1(4) h2(4) h3(2) by simp
  ultimately show ?thesis using s1(2) s2(2) s3(2,3) by auto
qed

lemma disconnected_first:
  assumes "sender_inv (sy_sender s)"
  shows "\<exists>t. (sys_step pk next cv mp)\<^sup>*\<^sup>* s t \<and> sy_calls t = sy_calls s \<and> sy_app t = sy_app s \<and>
    sender (sy_sender t) = \<lparr>sent_messages = sent_messages (sender (sy_sender s)), is_sending = False, connection = None,
      outbox = outbox (sender (sy_sender s))\<rparr>"
proof (cases "connection (sender (sy_sender s))")
  case None
  then have "\<not> is_sending (sender (sy_sender s))" using assms by (auto simp: sender_inv_def Let_def)
  then show ?thesis using None by (intro exI [of _ s]) simp
next
  case (Some c)
  let ?s' = "\<lparr>sent_messages = sent_messages (sender (sy_sender s)), is_sending = False, connection = None,
      outbox = outbox (sender (sy_sender s))\<rparr>"
  have "in_order Disconnected (sender (sy_sender s))" "sender_exec Disconnected (sender (sy_sender s)) = Ok ?s'"
    using Some by (simp_all add: handle_disconnection_def)
  from sender_next_exec [OF this] obtain h' where h': "sender_next Disconnected (sy_sender s) h'" "sender h' = ?s'" by simp
  show ?thesis using sys_step.connection_lost [OF h'(1)] by (intro exI [of _ "move_sender pk h' s"]) (auto simp: h'(2) move_sender_def)
qed

lemma queue_own:
  assumes "sys_inv pk mp s"
  shows "\<forall>out \<in> set (map fst (sent_messages (sender (sy_sender s)))). own_message (sy_made s) out"
proof -
  note d = sys_invD [OF assms]
  have "accepted (sy_sender s) = completed (sy_sender s) @ map fst (sent_messages (sender (sy_sender s)))"
    using d(2) by (simp add: sender_inv_def Let_def)
  then show ?thesis using d(3) by simp
qed

text \<open>The server reads all that the connection carried and posts the request.\<close>

lemma server_gets_request:
  assumes codec: "codec_ok pk next" "conv_ok cv" and carried: "carried pk c n m q ob p s1 s2"
    and n: "n = length (stream pk (take (Suc p) (map fst q)))"
    and send: "\<forall>out \<in> set (take (Suc p) (map fst q)). can_send out"
    and p: "p < length q" "fst (q ! p) = OutRequest nm i ps"
  shows "\<exists>s3 l. sys_step pk next cv mp s2 s3 \<and> sy_app s3 = sy_app s1 \<and> sy_calls s3 = sy_calls s1 \<and> sy_links s3 c = Some l \<and>
    to_client l = mk_channel m \<and> computed (sconn (server_side l)) = [] \<and> message_queue (sconn (server_side l)) = [] \<and>
    \<not> sc_is_sending (sconn (server_side l)) \<and> connected (sconn (server_side l)) \<and>
    TRequest \<lparr>req_id = i, req_method = nm, req_params = \<lparr>params_object = MArray ps\<rparr>\<rparr> \<in> set (posted (sconn (server_side l)))"
proof -
  let ?outs = "take (Suc p) (map fst q)"
  let ?l = "(mk_link (sy_app s1) n m)\<lparr>to_server := fold (channel_write pk) ?outs (mk_channel n)\<rparr>"
  have l: "sy_links s2 c = Some ?l" "sy_app s2 = sy_app s1" "sy_calls s2 = sy_calls s1"
    using carried unfolding carried_def by simp_all
  have "?outs \<noteq> []" using p(1) by auto
  from reads_all [OF codec send this n]
  obtain ch' where ch': "channel_read next cv (to_server ?l) ch'" "new_received (to_server ?l) ch' = map sent_message ?outs"
    by auto
  define h where "h = receive_all (map sent_message ?outs) (server_side ?l)"
  let ?t = "s2\<lparr>sy_links := (sy_links s2)(c \<mapsto> ?l\<lparr>to_server := ch', server_side := h\<rparr>)\<rparr>"
  have step: "sys_step pk next cv mp s2 ?t" using sys_step.server_reads [OF l(1) ch'(1)] unfolding ch'(2) h_def .
  have sc: "sconn (server_side ?l) = mk_server_connection (sy_app s1)" by (simp add: mk_link_def)
  have "OutRequest nm i ps = ?outs ! p" using p by simp
  then have "OutRequest nm i ps \<in> set ?outs" using p(1) nth_mem [of p ?outs] by simp
  then have "sent_message (OutRequest nm i ps) \<in> set (map sent_message ?outs)" by (metis image_eqI set_map)
  then have task: "TRequest \<lparr>req_id = i, req_method = nm, req_params = \<lparr>params_object = MArray ps\<rparr>\<rparr> \<in> set (posted (sconn h))"
    unfolding h_def receive_all_sconn [THEN conjunct1] sent_message.simps by (rule fold_received_posted)
  have idle: "computed (sconn h) = []" "message_queue (sconn h) = []" "\<not> sc_is_sending (sconn h)" "connected (sconn h)"
    unfolding h_def receive_all_frame sc by (simp_all add: mk_server_connection_def)
  show ?thesis
    by (intro exI [of _ ?t] exI [of _ "?l\<lparr>to_server := ch', server_side := h\<rparr>"] conjI step)
      (use l task idle in \<open>simp_all add: mk_link_def\<close>)
qed

section \<open>Properties\<close>



end
