(* ===== verification/Method_Names.thy ===== *)
theory Method_Names
  imports Methods
begin

text \<open>
  Names of methods (\<open>messages/method_name.h\<close>, \<open>messages/method_name_view.h\<close>) and the dictionary of
  methods as it is written, with views as keys (\<open>methods/method_dict.h\<close>).

  A \<open>MethodName\<close> owns its characters, a \<open>MethodNameView\<close> only points to characters of someone else.
  The characters live in a store; reading a view whose array is gone, or beyond its end, is
  undefined. The lemmas show that the keys of the dictionary, which point into the methods it holds,
  stay valid whatever happens to the strings the names were made from, so that it behaves as the
  dictionary of theory \<open>Methods\<close>, whose keys are strings.
\<close>

section \<open>Characters and views\<close>

record char_store =
  arrays :: "nat \<rightharpoonup> string"
  next_array :: nat

record name_view =
  view_array :: nat
  view_offset :: nat
  view_size :: nat

text \<open>\<open>std::string_view\<close>: the characters it shows.\<close>

definition view_text :: "char_store \<Rightarrow> name_view \<Rightarrow> (exn, string) outcome" where
  "view_text st v =
     (case arrays st (view_array v) of
        None \<Rightarrow> Undefined
      | Some s \<Rightarrow>
          if view_offset v + view_size v \<le> length s then Ok (take (view_size v) (drop (view_offset v) s))
          else Undefined)"

text \<open>The characters from a \<open>const char*\<close> to the first null.\<close>

definition c_string_at :: "char_store \<Rightarrow> nat \<Rightarrow> nat \<Rightarrow> (exn, string) outcome" where
  "c_string_at st a off =
     (case arrays st a of
        None \<Rightarrow> Undefined
      | Some s \<Rightarrow> if off \<le> length s \<and> CHR 0x00 \<in> set (drop off s) then Ok (c_str (drop off s)) else Undefined)"

definition allocate :: "string \<Rightarrow> char_store \<Rightarrow> nat \<times> char_store" where
  "allocate s st = (next_array st, st\<lparr>arrays := (arrays st)(next_array st \<mapsto> s), next_array := Suc (next_array st)\<rparr>)"

definition release :: "nat \<Rightarrow> char_store \<Rightarrow> char_store" where
  "release a st = st\<lparr>arrays := (arrays st)(a := None)\<rparr>"

section \<open>\<open>MethodName\<close>\<close>

record method_name =
  name_array :: nat
  name_size :: nat

text \<open>
  The constructors: from a \<open>std::string\<close>, which is moved so that its array changes hands, and from a
  \<open>std::string_view\<close>, a pointer and a size, or a null-terminated string, which are copied.
\<close>

definition name_of_string :: "nat \<Rightarrow> (char_store, method_name) action" where
  "name_of_string a st =
     (case arrays st a of None \<Rightarrow> (Undefined, st) | Some s \<Rightarrow> (Ok \<lparr>name_array = a, name_size = length s\<rparr>, st))"

definition copy_name :: "string \<Rightarrow> (char_store, method_name) action" where
  "copy_name s st = (let (a, st) = allocate s st in (Ok \<lparr>name_array = a, name_size = length s\<rparr>, st))"

definition name_of_string_view :: "name_view \<Rightarrow> (char_store, method_name) action" where
  "name_of_string_view v = bind_act (\<lambda>st. (view_text st v, st)) copy_name"

definition name_of_chars :: "nat \<Rightarrow> nat \<Rightarrow> nat \<Rightarrow> (char_store, method_name) action" where
  "name_of_chars a off n = name_of_string_view \<lparr>view_array = a, view_offset = off, view_size = n\<rparr>"

definition name_of_c_string :: "nat \<Rightarrow> nat \<Rightarrow> (char_store, method_name) action" where
  "name_of_c_string a off = bind_act (\<lambda>st. (c_string_at st a off, st)) copy_name"

text \<open>\<open>name()\<close> gives a view of the owned characters.\<close>

definition name_string_view :: "method_name \<Rightarrow> name_view" where
  "name_string_view n = \<lparr>view_array = name_array n, view_offset = 0, view_size = name_size n\<rparr>"

section \<open>\<open>MethodNameView\<close>\<close>

definition view_of_name :: "method_name \<Rightarrow> name_view" where
  "view_of_name n = name_string_view n"

definition view_of_string :: "nat \<Rightarrow> (char_store, name_view) action" where
  "view_of_string a st =
     (case arrays st a of
        None \<Rightarrow> (Undefined, st)
      | Some s \<Rightarrow> (Ok \<lparr>view_array = a, view_offset = 0, view_size = length s\<rparr>, st))"

definition view_of_string_view :: "name_view \<Rightarrow> name_view" where
  "view_of_string_view v = v"

definition view_of_chars :: "nat \<Rightarrow> nat \<Rightarrow> nat \<Rightarrow> name_view" where
  "view_of_chars a off n = \<lparr>view_array = a, view_offset = off, view_size = n\<rparr>"

definition view_of_c_string :: "nat \<Rightarrow> nat \<Rightarrow> (char_store, name_view) action" where
  "view_of_c_string a off =
     bind_act (\<lambda>st. (c_string_at st a off, st)) (\<lambda>s.
       return_act \<lparr>view_array = a, view_offset = off, view_size = length s\<rparr>)"

text \<open>\<open>explicit operator MethodName\<close>\<close>

definition view_to_name :: "name_view \<Rightarrow> (char_store, method_name) action" where
  "view_to_name v = name_of_string_view v"

text \<open>Comparison and hashing look at the characters only.\<close>

definition view_eq :: "char_store \<Rightarrow> name_view \<Rightarrow> name_view \<Rightarrow> (exn, bool) outcome" where
  "view_eq st left right =
     bind_out (view_text st left) (\<lambda>l. bind_out (view_text st right) (\<lambda>r. Ok (l = r)))"

definition view_ne :: "char_store \<Rightarrow> name_view \<Rightarrow> name_view \<Rightarrow> (exn, bool) outcome" where
  "view_ne st left right =
     bind_out (view_text st left) (\<lambda>l. bind_out (view_text st right) (\<lambda>r. Ok (l \<noteq> r)))"

definition name_eq :: "char_store \<Rightarrow> method_name \<Rightarrow> method_name \<Rightarrow> (exn, bool) outcome" where
  "name_eq st left right = view_eq st (name_string_view left) (name_string_view right)"

definition name_ne :: "char_store \<Rightarrow> method_name \<Rightarrow> method_name \<Rightarrow> (exn, bool) outcome" where
  "name_ne st left right = view_ne st (name_string_view left) (name_string_view right)"

definition view_hash :: "(string \<Rightarrow> u64) \<Rightarrow> char_store \<Rightarrow> name_view \<Rightarrow> (exn, u64) outcome" where
  "view_hash string_hash st v = bind_out (view_text st v) (\<lambda>s. Ok (string_hash s))"

section \<open>Methods that own their names\<close>

record ('s, 'm) named_method =
  own_name :: method_name
  own_method :: "('s, 'm) rpc_method"

text \<open>
  The constructors of \<open>FunctionalMethod\<close>: for functions with a result the name is moved in, for \<open>void\<close>
  functions it is copied from a view. \<open>mk\<close> gives the rest of the method.
\<close>

definition mk_named_method :: "(string \<Rightarrow> ('s, 'm) rpc_method) \<Rightarrow> method_name \<Rightarrow> (char_store, ('s, 'm) named_method) action" where
  "mk_named_method mk n st =
     (bind_out (view_text st (name_string_view n)) (\<lambda>s. Ok \<lparr>own_name = n, own_method = mk s\<rparr>), st)"

definition mk_named_method_void ::
    "(string \<Rightarrow> ('s, 'm) rpc_method) \<Rightarrow> name_view \<Rightarrow> (char_store, ('s, 'm) named_method) action" where
  "mk_named_method_void mk v = bind_act (view_to_name v) (mk_named_method mk)"

definition named_method_name :: "('s, 'm) named_method \<Rightarrow> name_view" where
  "named_method_name m = view_of_name (own_name m)"

section \<open>The dictionary\<close>

text \<open>
  \<open>find\<close> of an unordered map, in any order of the entries: the hash of the key is computed and keys are
  compared. Comparing with the keys of other buckets too only makes more reads undefined.
\<close>

fun find_key :: "char_store \<Rightarrow> name_view \<Rightarrow> (name_view \<times> 'a) list \<Rightarrow> (exn, 'a option) outcome" where
  "find_key st v [] = Ok None"
| "find_key st v ((k, m) # d) = bind_out (view_eq st k v) (\<lambda>b. if b then Ok (Some m) else find_key st v d)"

definition keyed_find :: "(string \<Rightarrow> u64) \<Rightarrow> char_store \<Rightarrow> name_view \<Rightarrow> (name_view \<times> 'a) list \<Rightarrow> (exn, 'a option) outcome" where
  "keyed_find string_hash st v d = bind_out (view_hash string_hash st v) (\<lambda>_. find_key st v d)"

type_synonym ('s, 'm) keyed_dict = "(name_view \<times> ('s, 'm) named_method) list"

text \<open>
  \<open>append\<close>: \<open>try_emplace\<close> leaves the method where it is when there is a key already, so that the name
  can be read for the message; it is destroyed when \<open>append\<close> is left.
\<close>

definition keyed_append ::
    "(string \<Rightarrow> u64) \<Rightarrow> ('s, 'm) named_method \<Rightarrow> (char_store \<times> ('s, 'm) keyed_dict, unit) action" where
  "keyed_append string_hash m = (\<lambda>(st, d).
     let v = named_method_name m; gone = release (name_array (own_name m)) st
     in case keyed_find string_hash st v d of
          Ok None \<Rightarrow> (Ok (), (st, d @ [(v, m)]))
        | Ok (Some _) \<Rightarrow>
            (bind_out (view_text st v) (\<lambda>t. throw_rpc INVALID_ARGUMENT (''Duplicate method name '' @ t @ ''.'')),
             (gone, d))
        | Throw e \<Rightarrow> (Throw e, (gone, d))
        | Undefined \<Rightarrow> (Undefined, (gone, d)))"

definition keyed_get ::
    "(string \<Rightarrow> u64) \<Rightarrow> char_store \<Rightarrow> ('s, 'm) keyed_dict \<Rightarrow> name_view \<Rightarrow> (exn, ('s, 'm) named_method) outcome" where
  "keyed_get string_hash st d v =
     bind_out (keyed_find string_hash st v d) (\<lambda>r. case r of
       None \<Rightarrow> bind_out (view_text st v) (\<lambda>t. throw_rpc INVALID_MESSAGE (''Method '' @ t @ '' not found.''))
     | Some m \<Rightarrow> Ok m)"

section \<open>Invariant\<close>

definition name_ok :: "char_store \<Rightarrow> ('s, 'm) named_method \<Rightarrow> bool" where
  "name_ok st m \<longleftrightarrow> arrays st (name_array (own_name m)) = Some (m_name (own_method m)) \<and>
     name_size (own_name m) = length (m_name (own_method m))"

definition owned_arrays :: "('s, 'm) keyed_dict \<Rightarrow> nat set" where
  "owned_arrays d = (\<lambda>e. name_array (own_name (snd e))) ` set d"

definition keyed_inv :: "char_store \<times> ('s, 'm) keyed_dict \<Rightarrow> bool" where
  "keyed_inv = (\<lambda>(st, d).
     (\<forall>e \<in> set d. fst e = named_method_name (snd e) \<and> name_ok st (snd e)) \<and>
     distinct (map (\<lambda>e. m_name (own_method (snd e))) d) \<and> dom (arrays st) \<subseteq> {..<next_array st})"

text \<open>The dictionary with strings as keys.\<close>

definition keyed_abs :: "('s, 'm) keyed_dict \<Rightarrow> ('s, 'm) method_dict" where
  "keyed_abs d = map_of (map (\<lambda>e. (m_name (own_method (snd e)), own_method (snd e))) d)"

text \<open>What the program does with names and a dictionary: strings come and go, but not those of the methods it holds.\<close>

inductive keyed_step for string_hash where
  new_string: "allocate s st = (a, st') \<Longrightarrow> keyed_step string_hash (st, d) (st', d)"
| drop_string: "a \<notin> owned_arrays d \<Longrightarrow> keyed_step string_hash (st, d) (release a st, d)"
| add_method: "name_array n \<notin> owned_arrays d \<Longrightarrow> arrays st (name_array n) = Some s \<Longrightarrow> name_size n = length s \<Longrightarrow>
     (\<forall>s. m_name (mk s) = s) \<Longrightarrow> mk_named_method mk n st = (Ok m, st) \<Longrightarrow>
     keyed_append string_hash m (st, d) = (r, t) \<Longrightarrow> keyed_step string_hash (st, d) t"
| add_method_void: "(\<forall>s. m_name (mk s) = s) \<Longrightarrow> mk_named_method_void mk v st = (Ok m, st') \<Longrightarrow>
     keyed_append string_hash m (st', d) = (r, t) \<Longrightarrow> keyed_step string_hash (st, d) t"

definition keyed_init :: "char_store \<times> ('s, 'm) keyed_dict \<Rightarrow> bool" where
  "keyed_init = (\<lambda>(st, d). d = [] \<and> dom (arrays st) \<subseteq> {..<next_array st})"

lemma name_ok_text: "name_ok st m \<Longrightarrow> view_text st (named_method_name m) = Ok (m_name (own_method m))"
  by (simp add: name_ok_def view_text_def named_method_name_def view_of_name_def name_string_view_def)

lemma find_key_found:
  assumes "\<forall>e \<in> set d. fst e = named_method_name (snd e) \<and> name_ok st (snd e)" and "view_text st v = Ok s"
  shows "find_key st v d = Ok (map_of (map (\<lambda>e. (m_name (own_method (snd e)), snd e)) d) s)"
  using assms(1)
proof (induction d)
  case (Cons e d)
  obtain k m where e: "e = (k, m)" by (cases e)
  have "view_eq st k v = Ok (m_name (own_method m) = s)"
    using Cons.prems assms(2) by (simp add: view_eq_def e name_ok_text)
  then show ?case using Cons by (simp add: e)
qed simp

lemma keyed_find_inv:
  assumes "keyed_inv (st, d)" and "view_text st v = Ok s"
  shows "keyed_find string_hash st v d = Ok (map_of (map (\<lambda>e. (m_name (own_method (snd e)), snd e)) d) s)"
proof -
  have "find_key st v d = Ok (map_of (map (\<lambda>e. (m_name (own_method (snd e)), snd e)) d) s)"
    by (rule find_key_found [OF _ assms(2)]) (use assms(1) in \<open>simp add: keyed_inv_def\<close>)
  then show ?thesis by (simp add: keyed_find_def view_hash_def assms(2))
qed

lemma keyed_abs_find: "keyed_abs d s = map_option own_method (map_of (map (\<lambda>e. (m_name (own_method (snd e)), snd e)) d) s)"
  by (induction d) (simp_all add: keyed_abs_def)

lemma owned_arraysI: "e \<in> set d \<Longrightarrow> name_array (own_name (snd e)) \<in> owned_arrays d"
  by (simp add: owned_arrays_def)

text \<open>What \<open>append\<close> does to a dictionary in order.\<close>

lemma keyed_append_cases:
  assumes inv: "keyed_inv (st, d)" and ok: "name_ok st m" and own: "name_array (own_name m) \<notin> owned_arrays d"
  obtains (added) "keyed_append string_hash m (st, d) = (Ok (), (st, d @ [(named_method_name m, m)]))"
      "keyed_abs d (m_name (own_method m)) = None" "keyed_inv (st, d @ [(named_method_name m, m)])"
    | (refused) x where "keyed_append string_hash m (st, d) =
        (throw_rpc INVALID_ARGUMENT (''Duplicate method name '' @ m_name (own_method m) @ ''.''),
         (release (name_array (own_name m)) st, d))" "keyed_abs d (m_name (own_method m)) = Some x"
        "keyed_inv (release (name_array (own_name m)) st, d)"
proof -
  let ?n = "m_name (own_method m)"
  have nm: "view_text st (named_method_name m) = Ok ?n" by (rule name_ok_text [OF ok])
  have find: "keyed_find string_hash st (named_method_name m) d =
      Ok (map_of (map (\<lambda>e. (m_name (own_method (snd e)), snd e)) d) ?n)"
    by (rule keyed_find_inv [OF inv nm])
  show ?thesis
  proof (cases "map_of (map (\<lambda>e. (m_name (own_method (snd e)), snd e)) d) ?n")
    case None
    then have "?n \<notin> set (map (\<lambda>e. m_name (own_method (snd e))) d)"
      by (simp add: map_of_eq_None_iff image_comp comp_def)
    then have "keyed_inv (st, d @ [(named_method_name m, m)])" using inv ok by (simp add: keyed_inv_def)
    then show ?thesis using None find added by (simp add: keyed_append_def Let_def keyed_abs_find)
  next
    case (Some m')
    have "name_ok (release (name_array (own_name m)) st) (snd e)" if "e \<in> set d" for e
    proof -
      have "name_array (own_name (snd e)) \<noteq> name_array (own_name m)" using own owned_arraysI [OF that] by metis
      then show ?thesis using inv that by (simp add: keyed_inv_def name_ok_def release_def)
    qed
    then have "keyed_inv (release (name_array (own_name m)) st, d)"
      using inv by (auto simp: keyed_inv_def release_def)
    then show ?thesis using Some find nm refused by (simp add: keyed_append_def Let_def keyed_abs_find)
  qed
qed

lemma owned_in_store: "keyed_inv (st, d) \<Longrightarrow> a \<in> owned_arrays d \<Longrightarrow> a \<in> dom (arrays st)"
  by (auto simp: keyed_inv_def owned_arrays_def name_ok_def)

lemma keyed_inv_allocate:
  assumes inv: "keyed_inv (st, d)" and alloc: "allocate s st = (a, st')"
  shows "keyed_inv (st', d) \<and> a \<notin> owned_arrays d \<and> arrays st' a = Some s"
proof -
  have a: "a = next_array st" "st' = st\<lparr>arrays := (arrays st)(a \<mapsto> s), next_array := Suc (next_array st)\<rparr>"
    using alloc by (auto simp: allocate_def)
  have fresh: "a \<notin> owned_arrays d" using owned_in_store [OF inv, of a] inv unfolding a(1) keyed_inv_def by auto
  have "name_ok st' (snd e)" if "e \<in> set d" for e
  proof -
    have "name_array (own_name (snd e)) \<noteq> a" using fresh owned_arraysI [OF that] by metis
    then show ?thesis using inv that by (simp add: keyed_inv_def name_ok_def a(2))
  qed
  moreover have "dom (arrays st') \<subseteq> {..<next_array st'}" using inv a by (auto simp: keyed_inv_def)
  ultimately show ?thesis using fresh inv a(2) by (simp add: keyed_inv_def)
qed

lemma keyed_append_inv:
  assumes "keyed_inv (st, d)" "name_ok st m" "name_array (own_name m) \<notin> owned_arrays d"
    and "keyed_append string_hash m (st, d) = (r, t)"
  shows "keyed_inv t"
  using assms(1-3) by (cases rule: keyed_append_cases [of st d m string_hash]) (use assms(4) in simp_all)

lemma mk_void_owned:
  assumes inv: "keyed_inv (st, d)" and mk: "\<forall>s. m_name (mk s) = s" and call: "mk_named_method_void mk v st = (Ok m, st')"
  shows "keyed_inv (st', d) \<and> name_ok st' m \<and> name_array (own_name m) \<notin> owned_arrays d"
proof -
  obtain s a st1 where s: "view_text st v = Ok s" "allocate s st = (a, st1)"
    using call by (cases "view_text st v"; cases "allocate (case view_text st v of Ok s \<Rightarrow> s) st")
      (auto simp: mk_named_method_void_def view_to_name_def name_of_string_view_def act_defs)
  note i = keyed_inv_allocate [OF inv s(2)]
  have "m = \<lparr>own_name = \<lparr>name_array = a, name_size = length s\<rparr>, own_method = mk s\<rparr> \<and> st' = st1"
    using call i s by (auto simp: mk_named_method_void_def view_to_name_def name_of_string_view_def copy_name_def act_defs
        mk_named_method_def view_text_def name_string_view_def Let_def)
  then show ?thesis using i mk by (simp add: name_ok_def)
qed

lemma keyed_step_inv: "keyed_step string_hash p t \<Longrightarrow> keyed_inv p \<Longrightarrow> keyed_inv t"
proof (induction rule: keyed_step.induct)
  case (new_string s st a st' d)
  then show ?case using keyed_inv_allocate by blast
next
  case (drop_string a d st)
  have "name_ok (release a st) (snd e)" if "e \<in> set d" for e
  proof -
    have "name_array (own_name (snd e)) \<noteq> a" using drop_string(1) owned_arraysI [OF that] by metis
    then show ?thesis using drop_string(2) that by (simp add: keyed_inv_def name_ok_def release_def)
  qed
  then show ?case using drop_string(2) by (auto simp: keyed_inv_def release_def)
next
  case (add_method n d st s mk m r t)
  have m: "m = \<lparr>own_name = n, own_method = mk s\<rparr>"
    using add_method(2,3,5) by (simp add: mk_named_method_def view_text_def name_string_view_def)
  have "name_ok st m" using add_method(2-4) by (simp add: m name_ok_def)
  moreover have "name_array (own_name m) \<notin> owned_arrays d" using add_method(1) by (simp add: m)
  ultimately show ?case using keyed_append_inv [OF add_method(7)] add_method(6) by blast
next
  case (add_method_void mk v st m st' d r t)
  show ?case using mk_void_owned [OF add_method_void(4,1,2)] keyed_append_inv add_method_void(3) by blast
qed

interpretation keyed_sys: invariant_system keyed_init "keyed_step string_hash" keyed_inv for string_hash
proof unfold_locales
  show "keyed_inv p" if "keyed_init p" for p :: "char_store \<times> ('a, 'b) keyed_dict"
    using that by (cases p) (simp add: keyed_init_def keyed_inv_def)
qed (rule keyed_step_inv, assumption+)

section \<open>Properties\<close>

text \<open>
  Comparing and hashing views agrees with comparing and hashing their characters, so equal views have
  equal hashes, as an unordered map needs.
\<close>

lemma equal_views_hash_equally:
  "view_eq st v w = Ok True \<Longrightarrow> view_hash string_hash st v = view_hash string_hash st w"
  by (auto simp: view_eq_def view_hash_def bind_out_Ok_iff)

text \<open>A name keeps its characters when the string it was made from is gone, a view does not.\<close>

lemma name_owns_characters:
  assumes store: "dom (arrays st) \<subseteq> {..<next_array st}" and v: "view_text st v = Ok s"
    and name: "name_of_string_view v st = (Ok n, st')"
  shows "view_text (release (view_array v) st') (name_string_view n) = Ok s \<and>
    view_text (release (view_array v) st') v = Undefined"
proof -
  have n: "n = \<lparr>name_array = next_array st, name_size = length s\<rparr>"
    "st' = st\<lparr>arrays := (arrays st)(next_array st \<mapsto> s), next_array := Suc (next_array st)\<rparr>"
    using name v by (auto simp: name_of_string_view_def copy_name_def allocate_def act_defs Let_def)
  have "view_array v \<in> dom (arrays st)" using v by (auto simp: view_text_def split: option.splits)
  then have "view_array v \<noteq> next_array st" using store by auto
  then show ?thesis by (simp add: n view_text_def name_string_view_def release_def)
qed

text \<open>
  C16. The dictionary with views as keys is the dictionary with strings as keys. Whatever strings were
  created and destroyed and whatever methods were registered, looking up a valid name never reads
  characters that are gone, and finds the method registered with these characters or throws the same
  error; registering a method adds it or throws the same error, with the name still readable.
\<close>

theorem keyed_dict_refines:
  assumes reach: "reach keyed_init (keyed_step string_hash) (st, d)"
  shows "(view_text st v = Ok s \<longrightarrow>
      bind_out (keyed_get string_hash st d v) (\<lambda>m. Ok (own_method m)) = dict_get (keyed_abs d) s) \<and>
    (name_ok st m \<and> name_array (own_name m) \<notin> owned_arrays d \<and>
      keyed_append string_hash m (st, d) = (r, (st', d')) \<longrightarrow>
      bind_out r (\<lambda>_. Ok (keyed_abs d')) = dict_append (own_method m) (keyed_abs d) \<and>
      (\<forall>e. r = Throw e \<longrightarrow> d' = d))"
proof -
  have inv: "keyed_inv (st, d)" using reach by (rule keyed_sys.reach_inv)
  have "bind_out (keyed_get string_hash st d v) (\<lambda>m. Ok (own_method m)) = dict_get (keyed_abs d) s"
    if v: "view_text st v = Ok s"
    using keyed_find_inv [OF inv v, of string_hash] v
    by (simp add: keyed_get_def dict_get_def keyed_abs_find split: option.splits)
  moreover have "bind_out r (\<lambda>_. Ok (keyed_abs d')) = dict_append (own_method m) (keyed_abs d) \<and> (\<forall>e. r = Throw e \<longrightarrow> d' = d)"
    if ok: "name_ok st m" "name_array (own_name m) \<notin> owned_arrays d"
      and call: "keyed_append string_hash m (st, d) = (r, (st', d'))"
    using inv ok
  proof (cases rule: keyed_append_cases [of st d m string_hash])
    case added
    have "keyed_abs (d @ [(named_method_name m, m)]) = (keyed_abs d)(m_name (own_method m) \<mapsto> own_method m)"
    proof
      fix x
      show "keyed_abs (d @ [(named_method_name m, m)]) x = ((keyed_abs d)(m_name (own_method m) \<mapsto> own_method m)) x"
        using added(2) by (cases "keyed_abs d x") (auto simp: keyed_abs_def map_add_def split: option.splits)
    qed
    then show ?thesis using added(1,2) call by (simp add: dict_append_def dict_emplace_def)
  next
    case (refused x)
    then show ?thesis using call by (simp add: dict_append_def dict_emplace_def)
  qed
  ultimately show ?thesis by blast
qed

text \<open>
  A string holds the name, a method is made from a view of it and registered, the string is
  destroyed; the method is found by a new string.
\<close>

theorem keyed_dict_refines_witness:
  "\<exists>st (d :: (nat, outgoing) keyed_dict). reach keyed_init (keyed_step (\<lambda>_. 0)) (st, d) \<and> arrays st 0 = None \<and>
     view_text st \<lparr>view_array = 2, view_offset = 1, view_size = 3\<rparr> = Ok ''add'' \<and>
     bind_out (keyed_get (\<lambda>_. 0) st d \<lparr>view_array = 2, view_offset = 1, view_size = 3\<rparr>) (\<lambda>m. Ok (own_method m)) =
       Ok (add_method Ok)"
proof -
  let ?mk = "\<lambda>s. (add_method Ok)\<lparr>m_name := s\<rparr>"
  let ?v = "\<lparr>view_array = 0, view_offset = 0, view_size = 3\<rparr>"
  let ?s0 = "\<lparr>arrays = Map.empty, next_array = 0\<rparr>"
  let ?s1 = "\<lparr>arrays = [0 \<mapsto> ''add''], next_array = 1\<rparr>"
  let ?s2 = "\<lparr>arrays = [0 \<mapsto> ''add'', 1 \<mapsto> ''add''], next_array = 2\<rparr>"
  let ?m = "\<lparr>own_name = \<lparr>name_array = 1, name_size = 3\<rparr>, own_method = ?mk ''add''\<rparr>"
  let ?d = "[(named_method_name ?m, ?m)]"
  have mk: "?mk ''add'' = add_method Ok" by (simp add: add_method_def functional_method_def)
  have r0: "reach keyed_init (keyed_step (\<lambda>_. 0)) (?s0, [])" by (intro reach_init) (simp add: keyed_init_def)
  have r1: "reach keyed_init (keyed_step (\<lambda>_. 0)) (?s1, [])"
    by (rule reach_step [OF r0 keyed_step.new_string [of "''add''" _ 0]]) (simp add: allocate_def)
  have "mk_named_method_void ?mk ?v ?s1 = (Ok ?m, ?s2)"
    by (simp add: mk_named_method_void_def view_to_name_def name_of_string_view_def copy_name_def act_defs allocate_def
        mk_named_method_def view_text_def name_string_view_def Let_def)
  moreover have "keyed_append (\<lambda>_. 0) ?m (?s2, []) = (Ok (), (?s2, ?d))"
    by (simp add: keyed_append_def keyed_find_def view_hash_def view_text_def named_method_name_def view_of_name_def
        name_string_view_def Let_def)
  ultimately have r2: "reach keyed_init (keyed_step (\<lambda>_. 0)) (?s2, ?d)"
    by (intro reach_step [OF r1 keyed_step.add_method_void [where mk = ?mk and v = ?v]]) simp_all
  have r3: "reach keyed_init (keyed_step (\<lambda>_. 0)) (release 0 ?s2, ?d)"
    by (rule reach_step [OF r2 keyed_step.drop_string]) (simp add: owned_arrays_def)
  let ?s4 = "\<lparr>arrays = [1 \<mapsto> ''add'', 2 \<mapsto> ''[add]''], next_array = 3\<rparr>"
  have "release 0 ?s2 = \<lparr>arrays = [1 \<mapsto> ''add''], next_array = 2\<rparr>" by (simp add: release_def fun_eq_iff)
  then have r4: "reach keyed_init (keyed_step (\<lambda>_. 0)) (?s4, ?d)"
    by (intro reach_step [OF r3 keyed_step.new_string [of "''[add]''" _ 2]]) (simp add: allocate_def)
  let ?w = "\<lparr>view_array = 2, view_offset = 1, view_size = 3\<rparr>"
  have w: "view_text ?s4 ?w = Ok ''add''" by (simp add: view_text_def)
  have "bind_out (keyed_get (\<lambda>_. 0) ?s4 ?d ?w) (\<lambda>m. Ok (own_method m)) = dict_get (keyed_abs ?d) ''add''"
    using keyed_dict_refines [OF r4, of ?w "''add''"] w by blast
  also have "\<dots> = Ok (add_method Ok)"
    by (simp add: dict_get_def keyed_abs_def mk) (simp add: add_method_def functional_method_def)
  finally show ?thesis using r4 w by (intro exI [of _ ?s4] exI [of _ ?d]) simp
qed

end
