(* ===== verification/Call_Timers.thy ===== *)
theory Call_Timers
  imports Client_Calls
begin

text \<open>
  Timers (\<open>executors/timer.h\<close>) and the list of calls with them (\<open>clients/impl/call.h\<close>,
  \<open>clients/impl/call_list.h\<close>): every call has a timer whose handler ends it with \<open>TIMEOUT\<close>.

  What asio does with a wait is an event: it completes the wait of a timer without an error when its
  time has come, or with an error when the timer is set again, cancelled or destroyed before that, and
  the handler then waits in the queue of the executor. A handler that is queued runs also when its
  call has been answered in the meantime.
\<close>

section \<open>Timers\<close>

text \<open>The time a timer is set to and the functions of the waits in progress.\<close>

record 'f timer =
  wait_expiry :: int
  wait_handlers :: "'f list"

definition mk_timer :: "'f timer" where
  "mk_timer = \<lparr>wait_expiry = 0, wait_handlers = []\<rparr>"

text \<open>The operations also return the waits they end with an error.\<close>

definition async_sleep_until :: "int \<Rightarrow> 'f \<Rightarrow> 'f timer \<Rightarrow> 'f list \<times> 'f timer" where
  "async_sleep_until time function t = (wait_handlers t, \<lparr>wait_expiry = time, wait_handlers = [function]\<rparr>)"

definition async_sleep_for :: "int \<Rightarrow> int \<Rightarrow> 'f \<Rightarrow> 'f timer \<Rightarrow> 'f list \<times> 'f timer" where
  "async_sleep_for now duration function t =
     (wait_handlers t, \<lparr>wait_expiry = now + duration, wait_handlers = [function]\<rparr>)"

definition timer_cancel :: "'f timer \<Rightarrow> 'f list \<times> 'f timer" where
  "timer_cancel t = (wait_handlers t, t\<lparr>wait_handlers := []\<rparr>)"

text \<open>The handler given to asio calls the function unless there is an error.\<close>

definition timer_handler :: "bool \<Rightarrow> ('s \<Rightarrow> 's) \<Rightarrow> 's \<Rightarrow> 's" where
  "timer_handler error function s = (if \<not> error then function s else s)"

section \<open>Calls with their timers\<close>

text \<open>
  \<open>tc_timers\<close> has the timer of every \<open>Call\<close> object, under the number of its future; \<open>tc_ready\<close> the
  handlers in the queue of the executor, with the request id they have captured. \<open>tc_made\<close> and
  \<open>tc_count\<close> record the calls made and the number of ids generated.
\<close>

record timed_calls =
  tc_calls :: call_list
  tc_now :: int
  tc_timers :: "nat \<rightharpoonup> u32 timer"
  tc_ready :: "(bool \<times> u32) list"
  tc_made :: "(u32 \<times> nat) list"
  tc_count :: nat

text \<open>\<open>Call::set_timeout\<close>\<close>

definition set_timeout :: "int \<Rightarrow> u32 \<Rightarrow> u32 timer \<Rightarrow> u32 timer" where
  "set_timeout deadline request_id timeout_timer = snd (async_sleep_until deadline request_id timeout_timer)"

text \<open>Erasing a call destroys its timer, which ends the wait with an error.\<close>

definition erase_call :: "u32 \<Rightarrow> timed_calls \<Rightarrow> timed_calls" where
  "erase_call i s =
     (case calls (tc_calls s) i of
        None \<Rightarrow> s
      | Some f \<Rightarrow>
          s\<lparr>tc_timers := (tc_timers s)(f := None),
            tc_ready := tc_ready s @ (case tc_timers s f of None \<Rightarrow> [] | Some t \<Rightarrow> map (Pair True) (wait_handlers t))\<rparr>)"

definition timed_create :: "(u32 \<Rightarrow> (exn, 'm) outcome) \<Rightarrow> (timed_calls, u32 \<times> 'm \<times> nat) action" where
  "timed_create ser s =
     (case create_call (tc_now s) ser (tc_calls s) of
        (Ok (i, msg, f), cl) \<Rightarrow>
          (Ok (i, msg, f), s\<lparr>tc_calls := cl, tc_timers := (tc_timers s)(f \<mapsto>
             set_timeout (tc_now s + call_timeout (tc_calls s)) i mk_timer)\<rparr>)
      | (Throw e, cl) \<Rightarrow> (Throw e, s\<lparr>tc_calls := cl\<rparr>)
      | (Undefined, cl) \<Rightarrow> (Undefined, s\<lparr>tc_calls := cl\<rparr>))"

definition timed_handle :: "parsed_response \<Rightarrow> timed_calls \<Rightarrow> timed_calls" where
  "timed_handle response s =
     (erase_call (resp_id response) s)\<lparr>tc_calls := snd (handle_response response (tc_calls s))\<rparr>"

definition timed_timeout :: "u32 \<Rightarrow> timed_calls \<Rightarrow> timed_calls" where
  "timed_timeout i s = (erase_call i s)\<lparr>tc_calls := snd (on_timeout i (tc_calls s))\<rparr>"

inductive timed_step :: "timed_calls \<Rightarrow> timed_calls \<Rightarrow> bool" where
  create: "timed_create (ser :: u32 \<Rightarrow> (exn, outgoing) outcome) s = (Ok (i, msg, f), s') \<Longrightarrow>
     timed_step s (s'\<lparr>tc_made := tc_made s' @ [(i, f)], tc_count := Suc (tc_count s')\<rparr>)"
| refused: "timed_create (ser :: u32 \<Rightarrow> (exn, outgoing) outcome) s = (Throw e, s') \<Longrightarrow>
     timed_step s (s'\<lparr>tc_count := Suc (tc_count s')\<rparr>)"
| response: "timed_step s (timed_handle response s)"
| time_passes: "tc_now s \<le> t \<Longrightarrow> timed_step s (s\<lparr>tc_now := t\<rparr>)"
| expires: "tc_timers s f = Some t \<Longrightarrow> wait_handlers t = [i] \<Longrightarrow> wait_expiry t \<le> tc_now s \<Longrightarrow>
     timed_step s (s\<lparr>tc_timers := (tc_timers s)(f \<mapsto> t\<lparr>wait_handlers := []\<rparr>), tc_ready := tc_ready s @ [(False, i)]\<rparr>)"
| handler: "tc_ready s = xs @ (error, i) # ys \<Longrightarrow>
     timed_step s (timer_handler error (timed_timeout i) (s\<lparr>tc_ready := xs @ ys\<rparr>))"

definition timed_init :: "timed_calls \<Rightarrow> bool" where
  "timed_init s \<longleftrightarrow> (\<exists>t g now. s = \<lparr>tc_calls = mk_call_list t g, tc_now = now, tc_timers = Map.empty,
     tc_ready = [], tc_made = [], tc_count = 0\<rparr>)"

section \<open>Invariant\<close>

text \<open>Every call in the list has its timer, set to its deadline and running, or its handler is queued.\<close>

definition timers_inv :: "timed_calls \<Rightarrow> bool" where
  "timers_inv s \<longleftrightarrow> calls_ok (tc_calls s) \<and>
     (\<forall>i f. calls (tc_calls s) i = Some f \<longrightarrow> (\<exists>t. tc_timers s f = Some t \<and>
        wait_expiry t = fut_deadline (futures (tc_calls s) f) \<and>
        (wait_handlers t = [i] \<or> wait_handlers t = [] \<and> (False, i) \<in> set (tc_ready s)))) \<and>
     (\<forall>f. tc_timers s f \<noteq> None \<longrightarrow> (\<exists>i. calls (tc_calls s) i = Some f))"

text \<open>The ids generated so far are consecutive, and as long as they differ a queued handler is of its own call.\<close>

definition ids_inv :: "timed_calls \<Rightarrow> bool" where
  "ids_inv s \<longleftrightarrow>
     (\<exists>g. next_id (tc_calls s) = g + of_nat (tc_count s) \<and> fst ` set (tc_made s) \<subseteq> (\<lambda>k. g + of_nat k) ` {..<tc_count s}) \<and>
     (\<forall>i f. calls (tc_calls s) i = Some f \<longrightarrow> (i, f) \<in> set (tc_made s)) \<and>
     (\<forall>c \<in> set (tc_made s). snd c < next_future (tc_calls s))"

definition times_inv :: "timed_calls \<Rightarrow> bool" where
  "times_inv s \<longleftrightarrow>
     (\<forall>i f f'. (i, f) \<in> set (tc_made s) \<longrightarrow> (i, f') \<in> set (tc_made s) \<longrightarrow> f = f') \<and>
     (\<forall>i. (False, i) \<in> set (tc_ready s) \<longrightarrow>
        (\<exists>f. (i, f) \<in> set (tc_made s) \<and> fut_deadline (futures (tc_calls s) f) \<le> tc_now s)) \<and>
     (\<forall>f < next_future (tc_calls s). code_of (fut_status (futures (tc_calls s) f)) = TIMEOUT \<longrightarrow>
        fut_deadline (futures (tc_calls s) f) \<le> tc_now s)"

definition timed_inv :: "timed_calls \<Rightarrow> bool" where
  "timed_inv s \<longleftrightarrow> timers_inv s \<and> ids_inv s \<and> (tc_count s \<le> 2 ^ 32 \<longrightarrow> times_inv s)"

lemma timed_inv_init: "timed_init s \<Longrightarrow> timed_inv s"
  by (auto simp: timed_init_def timed_inv_def timers_inv_def ids_inv_def times_inv_def mk_call_list_def calls_ok_def)

text \<open>The answer of a call, whichever it is.\<close>

definition answer_timed :: "u32 \<Rightarrow> call_result + status \<Rightarrow> timed_calls \<Rightarrow> timed_calls" where
  "answer_timed i a s = (erase_call i s)\<lparr>tc_calls := answer_call i a (tc_calls s)\<rparr>"

lemma timed_handle_eq: "calls_ok (tc_calls s) \<Longrightarrow> timed_handle r s = answer_timed (resp_id r) (Inl (resp_result r)) s"
  by (simp add: timed_handle_def answer_timed_def handle_response_eq)

lemma timed_timeout_eq:
  "calls_ok (tc_calls s) \<Longrightarrow> timed_timeout i s = answer_timed i (Inr (mk_status TIMEOUT timeout_message)) s"
  by (simp add: timed_timeout_def answer_timed_def on_timeout_answer)

lemma answer_timed_none: "calls (tc_calls s) i = None \<Longrightarrow> answer_timed i a s = s"
  by (simp add: answer_timed_def erase_call_def answer_call_def)

lemma answer_timed_some:
  assumes "calls (tc_calls s) i = Some f" "tc_timers s f = Some t"
  shows "answer_timed i a s = s\<lparr>tc_timers := (tc_timers s)(f := None), tc_ready := tc_ready s @ map (Pair True) (wait_handlers t),
    tc_calls := (tc_calls s)\<lparr>futures := (futures (tc_calls s))(f := answered a (futures (tc_calls s) f)),
      calls := (calls (tc_calls s))(i := None)\<rparr>\<rparr>"
  by (simp add: answer_timed_def erase_call_def answer_call_def assms)

lemma answered_deadline [simp]: "fut_deadline (answered a f) = fut_deadline f"
  by (simp add: answered_def split: sum.splits)

lemma timers_invD:
  assumes "timers_inv s"
  shows "calls_ok (tc_calls s)"
    "calls (tc_calls s) i = Some f \<Longrightarrow> \<exists>t. tc_timers s f = Some t \<and> wait_expiry t = fut_deadline (futures (tc_calls s) f) \<and>
        (wait_handlers t = [i] \<or> wait_handlers t = [] \<and> (False, i) \<in> set (tc_ready s))"
    "tc_timers s f = Some t \<Longrightarrow> \<exists>i. calls (tc_calls s) i = Some f"
  using assms unfolding timers_inv_def by blast+

text \<open>The call about to be answered needs no running timer.\<close>

definition timers_but :: "u32 \<Rightarrow> timed_calls \<Rightarrow> bool" where
  "timers_but i s \<longleftrightarrow> calls_ok (tc_calls s) \<and>
     (\<forall>j f. calls (tc_calls s) j = Some f \<longrightarrow> (\<exists>t. tc_timers s f = Some t \<and>
        (j \<noteq> i \<longrightarrow> wait_expiry t = fut_deadline (futures (tc_calls s) f) \<and>
          (wait_handlers t = [j] \<or> wait_handlers t = [] \<and> (False, j) \<in> set (tc_ready s))))) \<and>
     (\<forall>f. tc_timers s f \<noteq> None \<longrightarrow> (\<exists>i. calls (tc_calls s) i = Some f))"

lemma timers_inv_but: "timers_inv s \<Longrightarrow> timers_but i s"
  unfolding timers_inv_def timers_but_def by blast

lemma timers_butD:
  assumes "timers_but i s"
  shows "calls_ok (tc_calls s)" "calls (tc_calls s) j = Some f \<Longrightarrow> \<exists>t. tc_timers s f = Some t"
    "calls (tc_calls s) j = Some f \<Longrightarrow> j \<noteq> i \<Longrightarrow> \<exists>t. tc_timers s f = Some t \<and>
        wait_expiry t = fut_deadline (futures (tc_calls s) f) \<and>
        (wait_handlers t = [j] \<or> wait_handlers t = [] \<and> (False, j) \<in> set (tc_ready s))"
    "tc_timers s f = Some t \<Longrightarrow> \<exists>i. calls (tc_calls s) i = Some f"
  using assms unfolding timers_but_def by blast+

lemma timers_but_none:
  assumes "timers_but i s" and "calls (tc_calls s) i = None"
  shows "timers_inv s"
proof -
  have "\<exists>t. tc_timers s f = Some t \<and> wait_expiry t = fut_deadline (futures (tc_calls s) f) \<and>
      (wait_handlers t = [j] \<or> wait_handlers t = [] \<and> (False, j) \<in> set (tc_ready s))"
    if j: "calls (tc_calls s) j = Some f" for j f
  proof -
    have "j \<noteq> i" using j assms(2) by auto
    then show ?thesis by (rule timers_butD(3) [OF assms(1) j])
  qed
  then show ?thesis using assms(1) unfolding timers_inv_def timers_but_def by blast
qed

lemma answer_timers_inv:
  assumes inv: "timers_but i s"
  shows "timers_inv (answer_timed i a s)"
proof (cases "calls (tc_calls s) i")
  case None
  then show ?thesis using timers_but_none [OF inv] by (simp add: answer_timed_none)
next
  case (Some f)
  obtain t where t: "tc_timers s f = Some t" using timers_butD(2) [OF inv Some] by blast
  note e = answer_timed_some [OF Some t, of a]
  have ne: "calls (tc_calls s) j = Some g \<Longrightarrow> j \<noteq> i \<Longrightarrow> g \<noteq> f" for j g
    using calls_okD(3) [OF timers_butD(1) [OF inv] Some, of j] by blast
  have "calls_ok (tc_calls (answer_timed i a s))"
    using calls_ok_answer [OF timers_butD(1) [OF inv]] by (simp add: answer_timed_def)
  moreover have "\<exists>t. tc_timers (answer_timed i a s) g = Some t \<and>
        wait_expiry t = fut_deadline (futures (tc_calls (answer_timed i a s)) g) \<and>
        (wait_handlers t = [j] \<or> wait_handlers t = [] \<and> (False, j) \<in> set (tc_ready (answer_timed i a s)))"
    if "calls (tc_calls (answer_timed i a s)) j = Some g" for j g
  proof -
    have j: "calls (tc_calls s) j = Some g" "j \<noteq> i" using that unfolding e by (auto split: if_splits)
    then show ?thesis using timers_butD(3) [OF inv j] ne [OF j] unfolding e by auto
  qed
  moreover have "\<exists>j. calls (tc_calls (answer_timed i a s)) j = Some g" if g: "tc_timers (answer_timed i a s) g \<noteq> None" for g
  proof -
    have "g \<noteq> f" "tc_timers s g \<noteq> None" using g unfolding e by (auto split: if_splits)
    then obtain j where "calls (tc_calls s) j = Some g" using timers_butD(4) [OF inv] by blast
    then have "calls (tc_calls (answer_timed i a s)) j = Some g" using \<open>g \<noteq> f\<close> Some unfolding e by auto
    then show ?thesis by blast
  qed
  ultimately show ?thesis unfolding timers_inv_def by blast
qed

lemma answer_ids_inv:
  assumes inv: "timers_but i s" and ids: "ids_inv s"
  shows "ids_inv (answer_timed i a s)"
proof (cases "calls (tc_calls s) i")
  case None
  then show ?thesis using ids by (simp add: answer_timed_none)
next
  case (Some f)
  obtain t where t: "tc_timers s f = Some t" using timers_butD(2) [OF inv Some] by blast
  show ?thesis using ids unfolding answer_timed_some [OF Some t] ids_inv_def by (simp split: if_splits)
qed

text \<open>Only an answer that is a timeout needs the deadline to be over.\<close>

lemma answer_times_inv:
  assumes inv: "timers_but i s" and times: "times_inv s"
    and over: "\<And>f. calls (tc_calls s) i = Some f \<Longrightarrow> (case a of Inl r \<Rightarrow> True | Inr e \<Rightarrow>
      fut_deadline (futures (tc_calls s) f) \<le> tc_now s)"
  shows "times_inv (answer_timed i a s)"
proof (cases "calls (tc_calls s) i")
  case None
  then show ?thesis using times by (simp add: answer_timed_none)
next
  case (Some f)
  obtain t where t: "tc_timers s f = Some t" using timers_butD(2) [OF inv Some] by blast
  note e = answer_timed_some [OF Some t, of a]
  have dl: "fut_deadline (futures (tc_calls (answer_timed i a s)) g) = fut_deadline (futures (tc_calls s) g)" for g
    unfolding e by simp
  have "fut_deadline (futures (tc_calls s) g) \<le> tc_now s"
    if g: "g < next_future (tc_calls s)" "code_of (fut_status (futures (tc_calls (answer_timed i a s)) g)) = TIMEOUT" for g
  proof (cases "g = f \<and> (\<exists>x. a = Inr x)")
    case True
    then show ?thesis using over [OF Some] by auto
  next
    case False
    then have "code_of (fut_status (futures (tc_calls s) g)) = TIMEOUT"
      using g(2) unfolding e by (auto simp: answered_def split: if_splits sum.splits)
    then show ?thesis using times g(1) unfolding times_inv_def by blast
  qed
  moreover have "(False, j) \<in> set (tc_ready (answer_timed i a s)) \<longleftrightarrow> (False, j) \<in> set (tc_ready s)" for j unfolding e by auto
  moreover have "tc_made (answer_timed i a s) = tc_made s" "tc_now (answer_timed i a s) = tc_now s"
    "next_future (tc_calls (answer_timed i a s)) = next_future (tc_calls s)" unfolding e by simp_all
  ultimately show ?thesis using times dl unfolding times_inv_def by simp
qed

section \<open>Preservation\<close>

lemma timed_create_Ok:
  assumes "timed_create ser s = (Ok (i, msg, f), s')"
  shows "i = next_id (tc_calls s)" and "f = next_future (tc_calls s)" and "calls (tc_calls s) (next_id (tc_calls s)) = None"
    and "s' = s\<lparr>tc_calls := (tc_calls s)\<lparr>next_id := next_id (tc_calls s) + 1, calls := (calls (tc_calls s))(i \<mapsto> f),
          futures := (futures (tc_calls s))(f := mk_future (tc_now s + call_timeout (tc_calls s))), next_future := Suc f\<rparr>,
        tc_timers := (tc_timers s)(f \<mapsto> \<lparr>wait_expiry = tc_now s + call_timeout (tc_calls s), wait_handlers = [i]\<rparr>)\<rparr>"
proof -
  have "i = next_id (tc_calls s) \<and> f = next_future (tc_calls s) \<and> calls (tc_calls s) (next_id (tc_calls s)) = None \<and>
    s' = s\<lparr>tc_calls := (tc_calls s)\<lparr>next_id := next_id (tc_calls s) + 1, calls := (calls (tc_calls s))(i \<mapsto> f),
          futures := (futures (tc_calls s))(f := mk_future (tc_now s + call_timeout (tc_calls s))), next_future := Suc f\<rparr>,
        tc_timers := (tc_timers s)(f \<mapsto> \<lparr>wait_expiry = tc_now s + call_timeout (tc_calls s), wait_handlers = [i]\<rparr>)\<rparr>"
  proof (cases rule: create_call_cases [of "tc_now s" ser "tc_calls s"])
    case (ok m d)
    then show ?thesis using assms
      by (auto simp: timed_create_def set_timeout_def async_sleep_until_def mk_timer_def)
  qed (use assms in \<open>simp_all add: timed_create_def\<close>)
  then show "i = next_id (tc_calls s)" "f = next_future (tc_calls s)" "calls (tc_calls s) (next_id (tc_calls s)) = None"
    "s' = s\<lparr>tc_calls := (tc_calls s)\<lparr>next_id := next_id (tc_calls s) + 1, calls := (calls (tc_calls s))(i \<mapsto> f),
          futures := (futures (tc_calls s))(f := mk_future (tc_now s + call_timeout (tc_calls s))), next_future := Suc f\<rparr>,
        tc_timers := (tc_timers s)(f \<mapsto> \<lparr>wait_expiry = tc_now s + call_timeout (tc_calls s), wait_handlers = [i]\<rparr>)\<rparr>" by blast+
qed

lemma timed_create_Throw:
  "timed_create ser s = (Throw e, s') \<Longrightarrow> s' = s\<lparr>tc_calls := (tc_calls s)\<lparr>next_id := next_id (tc_calls s) + 1\<rparr>\<rparr>"
  by (auto simp: timed_create_def dest: create_call_refused split: prod.splits outcome.splits)

lemma create_timers_inv:
  assumes inv: "timers_inv s" and create: "timed_create ser s = (Ok (i, msg, f), s')"
  shows "timers_inv s'"
proof -
  note c = timed_create_Ok [OF create]
  note d = timers_invD [OF inv]
  have lt: "calls (tc_calls s) j = Some g \<Longrightarrow> g \<noteq> f" for j g using calls_okD(1) [OF d(1), of j g] c by auto
  have "calls_ok (tc_calls s')" using calls_ok_new [OF d(1) c(3)] by (simp add: c)
  moreover have "\<exists>t. tc_timers s' g = Some t \<and> wait_expiry t = fut_deadline (futures (tc_calls s') g) \<and>
        (wait_handlers t = [j] \<or> wait_handlers t = [] \<and> (False, j) \<in> set (tc_ready s'))"
    if "calls (tc_calls s') j = Some g" for j g
  proof (cases "j = i")
    case True
    then show ?thesis using that c by (simp add: mk_future_def)
  next
    case False
    then have j: "calls (tc_calls s) j = Some g" using that c by simp
    then show ?thesis using d(2) [OF j] lt [OF j] c by simp
  qed
  moreover have "\<exists>j. calls (tc_calls s') j = Some g" if g: "tc_timers s' g \<noteq> None" for g
  proof (cases "g = f")
    case True
    then show ?thesis using c by auto
  next
    case False
    then have "tc_timers s g \<noteq> None" using g c by simp
    then obtain j where j: "calls (tc_calls s) j = Some g" using d(3) by blast
    moreover have "j \<noteq> i" using j c by auto
    ultimately have "calls (tc_calls s') j = Some g" using c by simp
    then show ?thesis by blast
  qed
  ultimately show ?thesis unfolding timers_inv_def by blast
qed

text \<open>A new id is none of the ids before it, as long as there are ids left.\<close>

lemma create_ids_inv:
  assumes ids: "ids_inv s" and create: "timed_create ser s = (Ok (i, msg, f), s')"
  shows "ids_inv (s'\<lparr>tc_made := tc_made s' @ [(i, f)], tc_count := Suc (tc_count s')\<rparr>) \<and>
    (Suc (tc_count s) \<le> 2 ^ 32 \<longrightarrow> i \<notin> fst ` set (tc_made s))"
proof -
  note c = timed_create_Ok [OF create]
  obtain g where g: "next_id (tc_calls s) = g + of_nat (tc_count s)"
      "fst ` set (tc_made s) \<subseteq> (\<lambda>k. g + of_nat k) ` {..<tc_count s}"
    using ids unfolding ids_inv_def by blast
  have new: "i = g + of_nat (tc_count s)" using c g(1) by simp
  have "fst ` set (tc_made s @ [(i, f)]) \<subseteq> (\<lambda>k. g + of_nat k) ` {..<Suc (tc_count s)}"
    using g(2) by (auto simp: new lessThan_Suc)
  moreover have "next_id (tc_calls s') = g + of_nat (Suc (tc_count s))" using c g(1) by (simp add: add.assoc add.commute)
  moreover have "(j, h) \<in> set (tc_made s @ [(i, f)])" if "calls (tc_calls s') j = Some h" for j h
    using that ids c unfolding ids_inv_def by (auto split: if_splits)
  moreover have "snd x < Suc f" if "x \<in> set (tc_made s @ [(i, f)])" for x
    using that ids c unfolding ids_inv_def by (auto intro: less_SucI)
  moreover have "i \<notin> fst ` set (tc_made s)" if "Suc (tc_count s) \<le> 2 ^ 32"
  proof
    assume "i \<in> fst ` set (tc_made s)"
    then obtain k where k: "k < tc_count s" "i = g + of_nat k" using g(2) by blast
    then have "(of_nat k :: u32) = of_nat (tc_count s)" using new by simp
    then show False using of_nat_word_eq [of k "tc_count s"] k(1) that by simp
  qed
  ultimately show ?thesis using c unfolding ids_inv_def
    by (intro conjI exI [of _ g]) simp_all
qed

lemma create_times_inv:
  assumes ids: "ids_inv s" and times: "times_inv s" and create: "timed_create ser s = (Ok (i, msg, f), s')"
    and new: "i \<notin> fst ` set (tc_made s)"
  shows "times_inv (s'\<lparr>tc_made := tc_made s' @ [(i, f)], tc_count := n\<rparr>)"
proof -
  note c = timed_create_Ok [OF create]
  have lt: "(j, h) \<in> set (tc_made s) \<Longrightarrow> h \<noteq> f" for j h using ids c unfolding ids_inv_def by fastforce
  have "h = h'" if "(j, h) \<in> set (tc_made s @ [(i, f)])" "(j, h') \<in> set (tc_made s @ [(i, f)])" for j h h'
    using that times new unfolding times_inv_def by (auto simp: image_iff)
  moreover have "\<exists>h. (j, h) \<in> set (tc_made s @ [(i, f)]) \<and> fut_deadline (futures (tc_calls s') h) \<le> tc_now s"
    if r: "(False, j) \<in> set (tc_ready s)" for j
  proof -
    obtain h where h: "(j, h) \<in> set (tc_made s)" "fut_deadline (futures (tc_calls s) h) \<le> tc_now s"
      using times r unfolding times_inv_def by blast
    then show ?thesis using lt [OF h(1)] c by (intro exI [of _ h]) simp
  qed
  moreover have "fut_deadline (futures (tc_calls s') h) \<le> tc_now s"
    if "h < Suc f" "code_of (fut_status (futures (tc_calls s') h)) = TIMEOUT" for h
  proof (cases "h = f")
    case True
    then show ?thesis using that c by (simp add: mk_future_def)
  next
    case False
    then show ?thesis using that times c unfolding times_inv_def by simp
  qed
  moreover have "next_future (tc_calls s') = Suc f" using c by simp
  ultimately show ?thesis using c unfolding times_inv_def by simp
qed

lemma timed_invI: "timers_inv s \<Longrightarrow> ids_inv s \<Longrightarrow> (tc_count s \<le> 2 ^ 32 \<Longrightarrow> times_inv s) \<Longrightarrow> timed_inv s"
  by (simp add: timed_inv_def)

lemma answer_fields [simp]: "tc_count (answer_timed i a s) = tc_count s" "tc_now (answer_timed i a s) = tc_now s"
  by (simp_all add: answer_timed_def erase_call_def split: option.splits)

lemma answer_timed_inv:
  assumes "timers_but i s" "ids_inv s" "tc_count s \<le> 2 ^ 32 \<longrightarrow> times_inv s"
    and "\<And>f e. calls (tc_calls s) i = Some f \<Longrightarrow> a = Inr e \<Longrightarrow> tc_count s \<le> 2 ^ 32 \<Longrightarrow>
      fut_deadline (futures (tc_calls s) f) \<le> tc_now s"
  shows "timed_inv (answer_timed i a s)"
proof (rule timed_invI)
  show "timers_inv (answer_timed i a s)" by (rule answer_timers_inv [OF assms(1)])
  show "ids_inv (answer_timed i a s)" by (rule answer_ids_inv [OF assms(1,2)])
  show "times_inv (answer_timed i a s)" if "tc_count (answer_timed i a s) \<le> 2 ^ 32"
    by (rule answer_times_inv [OF assms(1)]) (use that assms(3,4) in \<open>auto split: sum.splits\<close>)
qed

lemma create_timed_inv:
  assumes inv: "timed_inv s" and create: "timed_create ser s = (Ok (i, msg, f), s')"
  shows "timed_inv (s'\<lparr>tc_made := tc_made s' @ [(i, f)], tc_count := Suc (tc_count s')\<rparr>)" (is "timed_inv ?s")
proof (rule timed_invI)
  have d: "timers_inv s" "ids_inv s" "tc_count s \<le> 2 ^ 32 \<Longrightarrow> times_inv s" using inv by (simp_all add: timed_inv_def)
  have n: "tc_count s' = tc_count s" using timed_create_Ok(4) [OF create] by simp
  show "timers_inv ?s" using create_timers_inv [OF d(1) create] by (simp add: timers_inv_def)
  show "ids_inv ?s" using create_ids_inv [OF d(2) create] by blast
  show "times_inv ?s" if few: "tc_count ?s \<le> 2 ^ 32"
  proof (rule create_times_inv [OF d(2) _ create])
    show "times_inv s" by (rule d(3)) (use few n in simp)
    show "i \<notin> fst ` set (tc_made s)" using create_ids_inv [OF d(2) create] few n by simp
  qed
qed

lemma expire_timers_inv:
  assumes inv: "timers_inv s" and t: "tc_timers s f = Some t" "wait_handlers t = [i]"
  shows "calls (tc_calls s) i = Some f \<and> fut_deadline (futures (tc_calls s) f) = wait_expiry t \<and>
    timers_inv (s\<lparr>tc_timers := (tc_timers s)(f \<mapsto> t\<lparr>wait_handlers := []\<rparr>), tc_ready := tc_ready s @ [(False, i)]\<rparr>)"
    (is "_ \<and> _ \<and> timers_inv ?s")
proof -
  note d = timers_invD [OF inv]
  obtain j where j: "calls (tc_calls s) j = Some f" using d(3) [OF t(1)] by blast
  have e: "j = i" "wait_expiry t = fut_deadline (futures (tc_calls s) f)" using d(2) [OF j] t by auto
  have "\<exists>u. tc_timers ?s h = Some u \<and> wait_expiry u = fut_deadline (futures (tc_calls ?s) h) \<and>
        (wait_handlers u = [k] \<or> wait_handlers u = [] \<and> (False, k) \<in> set (tc_ready ?s))"
    if k: "calls (tc_calls ?s) k = Some h" for k h
  proof (cases "h = f")
    case True
    then have "k = i" using calls_okD(3) [OF d(1), of k h i] k j e(1) by simp
    then show ?thesis using True e(2) by simp
  next
    case False
    then show ?thesis using d(2) [of k h] k by auto
  qed
  moreover have "\<exists>k. calls (tc_calls ?s) k = Some h" if "tc_timers ?s h \<noteq> None" for h
    using that d(3) j by (cases "h = f") auto
  ultimately show ?thesis using j e d(1) unfolding timers_inv_def by simp
qed

lemma times_inv_later:
  assumes "times_inv s" and le: "tc_now s \<le> t"
  shows "times_inv (s\<lparr>tc_now := t\<rparr>)"
proof -
  have "x \<le> tc_now s \<Longrightarrow> x \<le> t" for x using le by simp
  then show ?thesis using assms(1) unfolding times_inv_def by simp blast
qed

lemma timed_step_inv: "timed_step s t \<Longrightarrow> timed_inv s \<Longrightarrow> timed_inv t"
proof (induction rule: timed_step.induct)
  case (create ser s i msg f s')
  show ?case by (rule create_timed_inv [OF create(2,1)])
next
  case (refused ser s e s')
  have s': "s' = s\<lparr>tc_calls := (tc_calls s)\<lparr>next_id := next_id (tc_calls s) + 1\<rparr>\<rparr>" by (rule timed_create_Throw [OF refused(1)])
  obtain g where g: "next_id (tc_calls s) = g + of_nat (tc_count s)"
      "fst ` set (tc_made s) \<subseteq> (\<lambda>k. g + of_nat k) ` {..<tc_count s}"
    using refused(2) unfolding timed_inv_def ids_inv_def by blast
  have "fst ` set (tc_made s) \<subseteq> (\<lambda>k. g + of_nat k) ` {..<Suc (tc_count s)}" using g(2) by (auto simp: lessThan_Suc)
  moreover have "g + of_nat (tc_count s) + 1 = g + of_nat (Suc (tc_count s))" by (simp add: add.assoc add.commute)
  ultimately have "ids_inv (s'\<lparr>tc_count := Suc (tc_count s')\<rparr>)"
    using refused(2) g(1) unfolding s' timed_inv_def ids_inv_def by (intro conjI exI [of _ g]) simp_all
  then show ?case using refused(2) by (simp add: s' timed_inv_def timers_inv_def times_inv_def calls_ok_id)
next
  case (response s r)
  have "timers_inv s" using response by (simp add: timed_inv_def)
  then show ?case using response answer_timed_inv [OF timers_inv_but, of s "resp_id r" "Inl (resp_result r)"]
    by (simp add: timed_handle_eq timers_invD(1) timed_inv_def [of s])
next
  case (time_passes s t)
  then have "times_inv (s\<lparr>tc_now := t\<rparr>)" if "tc_count s \<le> 2 ^ 32"
    using that times_inv_later by (simp add: timed_inv_def)
  then show ?case using time_passes(2) by (simp add: timed_inv_def timers_inv_def ids_inv_def)
next
  case (expires s f t i)
  note e = expire_timers_inv [OF _ expires(1,2)]
  have d: "timers_inv s" "ids_inv s" using expires(4) by (simp_all add: timed_inv_def)
  have "(i, f) \<in> set (tc_made s)" "fut_deadline (futures (tc_calls s) f) \<le> tc_now s"
    using e [OF d(1)] d(2) expires(3) unfolding ids_inv_def by auto
  then have "times_inv (s\<lparr>tc_timers := (tc_timers s)(f \<mapsto> t\<lparr>wait_handlers := []\<rparr>), tc_ready := tc_ready s @ [(False, i)]\<rparr>)"
    if "tc_count s \<le> 2 ^ 32"
    using that expires(4) unfolding timed_inv_def times_inv_def by auto
  then show ?case using e [OF d(1)] d(2) by (simp add: timed_inv_def ids_inv_def)
next
  case (handler s xs error i ys)
  let ?s = "s\<lparr>tc_ready := xs @ ys\<rparr>"
  have d: "timers_inv s" "ids_inv ?s" using handler(2) by (simp_all add: timed_inv_def ids_inv_def)
  have times: "times_inv ?s" if "tc_count s \<le> 2 ^ 32"
    using that handler unfolding timed_inv_def times_inv_def by simp
  show ?case
  proof (cases error)
    case True
    have "timers_inv ?s" using d(1) handler(1) True by (simp add: timers_inv_def)
    then show ?thesis using True d(2) times by (simp add: timer_handler_def timed_inv_def)
  next
    case False
    have but: "timers_but i ?s"
      using timers_inv_but [OF d(1), of i] handler(1) unfolding timers_but_def by auto
    have over: "fut_deadline (futures (tc_calls s) f) \<le> tc_now s"
      if f: "calls (tc_calls s) i = Some f" and few: "tc_count s \<le> 2 ^ 32" for f
    proof -
      have m: "(i, f) \<in> set (tc_made s)" using d(2) f unfolding ids_inv_def by simp
      have t: "times_inv s" using handler(2) few by (simp add: timed_inv_def)
      have "(False, i) \<in> set (tc_ready s)" using handler(1) False by simp
      then obtain h where h: "(i, h) \<in> set (tc_made s)" "fut_deadline (futures (tc_calls s) h) \<le> tc_now s"
        using t unfolding times_inv_def by blast
      then have "h = f" using t m unfolding times_inv_def by blast
      then show ?thesis using h(2) by simp
    qed
    have "timed_inv (answer_timed i (Inr (mk_status TIMEOUT timeout_message)) ?s)"
      by (rule answer_timed_inv [OF but d(2)]) (use times over in simp_all)
    then show ?thesis using False d(1) by (simp add: timer_handler_def timed_timeout_eq timers_invD(1))
  qed
qed

interpretation timed_sys: invariant_system timed_init timed_step timed_inv
  by unfold_locales (rule timed_inv_init, assumption, rule timed_step_inv, assumption+)

section \<open>Properties\<close>

text \<open>
  C8. No call waits forever and none times out early. In every run of calls, responses, timers and handlers
  in any order: each call without an answer has its own timer running for its own deadline, or the
  handler of that timer is queued; from there the call can always end with \<open>TIMEOUT\<close> without anything
  but time passing; and as long as ids do not repeat no future gets \<open>TIMEOUT\<close> before its deadline.
\<close>

theorem timeouts_are_timely:
  assumes reach: "reach timed_init timed_step s"
  shows "(\<forall>i f. calls (tc_calls s) i = Some f \<longrightarrow>
      (\<exists>t. tc_timers s f = Some t \<and> wait_expiry t = fut_deadline (futures (tc_calls s) f) \<and>
        (wait_handlers t = [i] \<or> (False, i) \<in> set (tc_ready s))) \<and>
      (\<exists>s'. timed_step\<^sup>*\<^sup>* s s' \<and> futures (tc_calls s') f =
        (futures (tc_calls s) f)\<lparr>fut_status := mk_status TIMEOUT timeout_message, fut_set := True\<rparr>)) \<and>
    (tc_count s \<le> 2 ^ 32 \<longrightarrow> (\<forall>f < next_future (tc_calls s).
      code_of (fut_status (futures (tc_calls s) f)) = TIMEOUT \<longrightarrow> fut_deadline (futures (tc_calls s) f) \<le> tc_now s))"
proof -
  have inv: "timed_inv s" using reach by (rule timed_sys.reach_inv)
  have d: "timers_inv s" using inv by (simp add: timed_inv_def)
  have run: "\<exists>s'. timed_step\<^sup>*\<^sup>* s s' \<and> futures (tc_calls s') f =
      (futures (tc_calls s) f)\<lparr>fut_status := mk_status TIMEOUT timeout_message, fut_set := True\<rparr>"
    if f: "calls (tc_calls s) i = Some f" for i f
  proof -
    obtain s1 where s1: "timed_step\<^sup>*\<^sup>* s s1" "tc_calls s1 = tc_calls s" "(False, i) \<in> set (tc_ready s1)"
    proof -
      obtain t where t: "tc_timers s f = Some t" "wait_handlers t = [i] \<or> (False, i) \<in> set (tc_ready s)"
        using timers_invD(2) [OF d f] by blast
      show ?thesis
      proof (cases "(False, i) \<in> set (tc_ready s)")
        case True
        then show ?thesis using that [of s] by simp
      next
        case False
        let ?s = "s\<lparr>tc_now := max (tc_now s) (wait_expiry t)\<rparr>"
        have "timed_step s ?s" by (rule timed_step.time_passes) simp
        moreover have "timed_step ?s (?s\<lparr>tc_timers := (tc_timers ?s)(f \<mapsto> t\<lparr>wait_handlers := []\<rparr>),
            tc_ready := tc_ready ?s @ [(False, i)]\<rparr>)"
          by (rule timed_step.expires) (use t False in simp_all)
        ultimately have "timed_step\<^sup>*\<^sup>* s (?s\<lparr>tc_timers := (tc_timers ?s)(f \<mapsto> t\<lparr>wait_handlers := []\<rparr>),
            tc_ready := tc_ready ?s @ [(False, i)]\<rparr>)"
          by (rule converse_rtranclp_into_rtranclp [OF _ r_into_rtranclp])
        then show ?thesis by (rule that) simp_all
      qed
    qed
    obtain xs ys where q: "tc_ready s1 = xs @ (False, i) # ys" using split_list [OF s1(3)] by blast
    let ?s2 = "timer_handler False (timed_timeout i) (s1\<lparr>tc_ready := xs @ ys\<rparr>)"
    have "timed_step s1 ?s2" by (rule timed_step.handler [OF q])
    moreover have "tc_calls ?s2 = answer_call i (Inr (mk_status TIMEOUT timeout_message)) (tc_calls s)"
      using timers_invD(1) [OF d] by (simp add: timer_handler_def timed_timeout_def s1(2) on_timeout_answer)
    then have "futures (tc_calls ?s2) f =
        (futures (tc_calls s) f)\<lparr>fut_status := mk_status TIMEOUT timeout_message, fut_set := True\<rparr>"
      using f by (simp add: answer_call_def answered_def)
    ultimately show ?thesis using rtranclp.rtrancl_into_rtrancl [OF s1(1)] by blast
  qed
  have timer: "\<exists>t. tc_timers s f = Some t \<and> wait_expiry t = fut_deadline (futures (tc_calls s) f) \<and>
        (wait_handlers t = [i] \<or> (False, i) \<in> set (tc_ready s))" if "calls (tc_calls s) i = Some f" for i f
    using timers_invD(2) [OF d that] by blast
  have "fut_deadline (futures (tc_calls s) f) \<le> tc_now s"
    if "tc_count s \<le> 2 ^ 32" "f < next_future (tc_calls s)" "code_of (fut_status (futures (tc_calls s) f)) = TIMEOUT" for f
    using inv that unfolding timed_inv_def times_inv_def by blast
  then show ?thesis using run timer by blast
qed

theorem timeouts_are_timely_witness:
  "\<exists>s s'. reach timed_init timed_step s \<and> calls (tc_calls s) 5 = Some 0 \<and> tc_now s = 0 \<and>
     tc_timers s 0 = Some \<lparr>wait_expiry = 10, wait_handlers = [5]\<rparr> \<and>
     timed_step\<^sup>*\<^sup>* s s' \<and> code_of (fut_status (futures (tc_calls s') 0)) = TIMEOUT"
proof -
  let ?ser = "\<lambda>i. Ok (OutRequest ''f'' i []) :: (exn, outgoing) outcome"
  let ?s0 = "\<lparr>tc_calls = mk_call_list 10 5, tc_now = 0, tc_timers = Map.empty, tc_ready = [], tc_made = [], tc_count = 0\<rparr>"
  have r0: "reach timed_init timed_step ?s0" by (intro reach_init) (auto simp: timed_init_def)
  obtain s1 where s1: "timed_create ?ser ?s0 = (Ok (5, OutRequest ''f'' 5 [], 0), s1)"
    by (simp add: timed_create_def create_call_eq create_entry_def mk_call_list_def generate_id_def add_time_def
        clock_ok_def Let_def)
  note c = timed_create_Ok(4) [OF s1]
  let ?s = "s1\<lparr>tc_made := tc_made s1 @ [(5, 0)], tc_count := Suc (tc_count s1)\<rparr>"
  have r1: "reach timed_init timed_step ?s" by (rule reach_step [OF r0 timed_step.create [OF s1]])
  have f: "calls (tc_calls ?s) 5 = Some 0" "tc_now ?s = 0" "tc_timers ?s 0 = Some \<lparr>wait_expiry = 10, wait_handlers = [5]\<rparr>"
    using c by (simp_all add: mk_call_list_def)
  obtain s' where "timed_step\<^sup>*\<^sup>* ?s s'" "futures (tc_calls s') 0 =
      (futures (tc_calls ?s) 0)\<lparr>fut_status := mk_status TIMEOUT timeout_message, fut_set := True\<rparr>"
    using timeouts_are_timely [OF r1] f(1) by blast
  then show ?thesis using r1 f by (intro exI [of _ ?s] exI [of _ s']) simp
qed

end
