(* ===== verification/Signal_Wait.thy ===== *)
theory Signal_Wait
  imports Exceptions
begin

text \<open>
  The handler of stop signals (\<open>servers/stop_signal_handler.h\<close>), the wait of \<open>run_until_signal\<close>
  (\<open>servers/impl/server_impl.h\<close>) and the threads of the executor that end it when one of them fails
  (\<open>run_in_thread\<close> of \<open>executors/general_executor.cpp\<close>, in its parts between two locks), and the small
  executors: the single-threaded one, the wrapper and \<open>async_invoke\<close>.

  Of \<open>asio::io_context\<close> and \<open>asio::signal_set\<close> the code uses what their documentation says: \<open>run\<close> returns
  when the context has no work left or was stopped, also when it was stopped before the call; a
  signal that arrives before the wait is kept for it.
\<close>

section \<open>The handler of signals\<close>

record stop_signal_handler =
  sh_stopped :: bool
  sh_waits :: nat
  sh_pending :: nat

definition mk_stop_signal_handler :: stop_signal_handler where
  "mk_stop_signal_handler = \<lparr>sh_stopped = False, sh_waits = 0, sh_pending = 0\<rparr>"

text \<open>\<open>wait\<close> up to the call of \<open>context_.run()\<close>, and when that call can return.\<close>

definition handler_wait :: "stop_signal_handler \<Rightarrow> stop_signal_handler" where
  "handler_wait h = h\<lparr>sh_waits := Suc (sh_waits h)\<rparr>"

definition handler_run_ends :: "stop_signal_handler \<Rightarrow> bool" where
  "handler_run_ends h \<longleftrightarrow> sh_stopped h \<or> sh_waits h \<le> sh_pending h"

definition handler_stop :: "stop_signal_handler \<Rightarrow> stop_signal_handler" where
  "handler_stop h = h\<lparr>sh_stopped := True\<rparr>"

section \<open>Waiting while the threads run\<close>

text \<open>
  A thread whose \<open>context.run()\<close> throws stores the exception, then stops all contexts, then calls the
  callbacks, of which the one of the server stops the handler.
\<close>

datatype thread_phase = Thread_runs | Exception_stored exn | Threads_interrupted exn | Thread_finished

datatype main_phase = Before_wait | In_run | After_wait | Read_exception "exn option"

record signal_world =
  sw_handler :: stop_signal_handler
  sw_exception :: "exn option"
  sw_threads :: "thread_phase list"
  sw_interrupted :: bool
  sw_main :: main_phase
  sw_signals :: nat

fun store_exception :: "exn \<Rightarrow> signal_world \<Rightarrow> signal_world" where
  "store_exception e w = w\<lparr>sw_exception := Some e\<rparr>"

fun interrupt_all :: "signal_world \<Rightarrow> signal_world" where
  "interrupt_all w = w\<lparr>sw_interrupted := True\<rparr>"

fun call_exception_callback :: "signal_world \<Rightarrow> signal_world" where
  "call_exception_callback w = w\<lparr>sw_handler := handler_stop (sw_handler w)\<rparr>"

fun set_phase :: "nat \<Rightarrow> thread_phase \<Rightarrow> signal_world \<Rightarrow> signal_world" where
  "set_phase k p w = w\<lparr>sw_threads := (sw_threads w)[k := p]\<rparr>"

inductive signal_step where
  throws: "k < length (sw_threads w) \<Longrightarrow> sw_threads w ! k = Thread_runs \<Longrightarrow> is_std_exception e \<Longrightarrow>
     signal_step w (set_phase k (Exception_stored e) (store_exception e w))"
| interrupts: "k < length (sw_threads w) \<Longrightarrow> sw_threads w ! k = Exception_stored e \<Longrightarrow>
     signal_step w (set_phase k (Threads_interrupted e) (interrupt_all w))"
| calls_back: "k < length (sw_threads w) \<Longrightarrow> sw_threads w ! k = Threads_interrupted e \<Longrightarrow>
     signal_step w (set_phase k Thread_finished (call_exception_callback w))"
| returns: "k < length (sw_threads w) \<Longrightarrow> sw_threads w ! k = Thread_runs \<Longrightarrow> sw_interrupted w \<Longrightarrow>
     signal_step w (set_phase k Thread_finished w)"
| signal: "signal_step w (w\<lparr>sw_signals := Suc (sw_signals w),
     sw_handler := (sw_handler w)\<lparr>sh_pending := Suc (sh_pending (sw_handler w))\<rparr>\<rparr>)"
| main_waits: "sw_main w = Before_wait \<Longrightarrow>
     signal_step w (w\<lparr>sw_main := In_run, sw_handler := handler_wait (sw_handler w)\<rparr>)"
| main_returns: "sw_main w = In_run \<Longrightarrow> handler_run_ends (sw_handler w) \<Longrightarrow> signal_step w (w\<lparr>sw_main := After_wait\<rparr>)"
| main_reads: "sw_main w = After_wait \<Longrightarrow> signal_step w (w\<lparr>sw_main := Read_exception (sw_exception w)\<rparr>)"

definition signal_init :: "signal_world \<Rightarrow> bool" where
  "signal_init w \<longleftrightarrow> (\<exists>n. w = \<lparr>sw_handler = mk_stop_signal_handler, sw_exception = None,
     sw_threads = replicate n Thread_runs, sw_interrupted = False, sw_main = Before_wait, sw_signals = 0\<rparr>)"

text \<open>A thread between storing its exception and calling the callbacks.\<close>

fun fails :: "thread_phase \<Rightarrow> bool" where
  "fails (Exception_stored e) = True"
| "fails (Threads_interrupted e) = True"
| "fails _ = False"

definition failing :: "thread_phase list \<Rightarrow> bool" where
  "failing ts \<longleftrightarrow> (\<exists>k < length ts. fails (ts ! k))"

lemma failing_new: "k < length ts \<Longrightarrow> fails p \<Longrightarrow> failing (ts[k := p])"
  by (auto simp: failing_def)

lemma failing_old: "k < length ts \<Longrightarrow> \<not> fails (ts ! k) \<Longrightarrow> \<not> fails p \<Longrightarrow> failing (ts[k := p]) = failing ts"
  unfolding failing_def by (metis length_list_update nth_list_update)

lemma failing_at: "k < length ts \<Longrightarrow> fails (ts ! k) \<Longrightarrow> failing ts"
  by (auto simp: failing_def)

definition signal_inv :: "signal_world \<Rightarrow> bool" where
  "signal_inv w \<longleftrightarrow>
     sh_pending (sw_handler w) = sw_signals w \<and>
     sh_waits (sw_handler w) = (if sw_main w = Before_wait then 0 else 1) \<and>
     (sw_exception w \<noteq> None \<longleftrightarrow> sh_stopped (sw_handler w) \<or> failing (sw_threads w)) \<and>
     (\<forall>e. sw_exception w = Some e \<longrightarrow> is_std_exception e) \<and>
     (sw_main w = After_wait \<longrightarrow> sw_exception w \<noteq> None \<or> 0 < sw_signals w) \<and>
     (\<forall>x. sw_main w = Read_exception x \<longrightarrow> (x = None \<longrightarrow> 0 < sw_signals w) \<and> (\<forall>e. x = Some e \<longrightarrow> is_std_exception e))"

lemma signal_inv_init: "signal_init w \<Longrightarrow> signal_inv w"
  by (auto simp: signal_init_def signal_inv_def mk_stop_signal_handler_def failing_def)

lemma signal_inv_step: "signal_step w w' \<Longrightarrow> signal_inv w \<Longrightarrow> signal_inv w'"
proof (induction rule: signal_step.induct)
  case (throws k w e)
  then show ?case using failing_new [of k "sw_threads w" "Exception_stored e"] by (simp add: signal_inv_def)
next
  case (interrupts k w e)
  then show ?case
    using failing_new [of k "sw_threads w" "Threads_interrupted e"] failing_at [of k "sw_threads w"]
    by (simp add: signal_inv_def)
next
  case (calls_back k w e)
  then show ?case using failing_at [of k "sw_threads w"] by (simp add: signal_inv_def handler_stop_def)
next
  case (returns k w)
  then show ?case using failing_old [of k "sw_threads w" Thread_finished] by (auto simp: signal_inv_def)
next
  case (signal w)
  then show ?case by (simp add: signal_inv_def)
next
  case (main_waits w)
  then show ?case by (simp add: signal_inv_def handler_wait_def)
next
  case (main_returns w)
  then show ?case by (auto simp: signal_inv_def handler_run_ends_def)
next
  case (main_reads w)
  then show ?case by (auto simp: signal_inv_def)
qed

interpretation signal_sys: invariant_system signal_init signal_step signal_inv
  by unfold_locales (rule signal_inv_init, assumption, rule signal_inv_step, assumption+)

section \<open>Properties\<close>

text \<open>
  C39. Waiting for a signal loses no wake-up and reports every failure. When the wait of the server returns,
  a signal arrived or a thread failed, and what is rethrown is nothing only if a signal arrived, and
  otherwise an exception a thread threw; and once a signal has arrived or a thread has called the
  callbacks, whether before or during the wait, the main thread can return from it without anyone
  else; a thread that has stored its exception can always get there.
\<close>

theorem wait_for_signal_ends:
  assumes reach: "reach signal_init signal_step w"
  shows "(sw_main w = After_wait \<longrightarrow> 0 < sw_signals w \<or> sw_exception w \<noteq> None) \<and>
    (\<forall>x. sw_main w = Read_exception x \<longrightarrow> (x = None \<longrightarrow> 0 < sw_signals w) \<and> (\<forall>e. x = Some e \<longrightarrow> is_std_exception e)) \<and>
    (sw_main w = In_run \<and> (0 < sw_signals w \<or> sh_stopped (sw_handler w)) \<longrightarrow> signal_step w (w\<lparr>sw_main := After_wait\<rparr>)) \<and>
    (sw_main w = Before_wait \<and> (0 < sw_signals w \<or> sh_stopped (sw_handler w)) \<longrightarrow>
      signal_step\<^sup>*\<^sup>* w (w\<lparr>sw_handler := handler_wait (sw_handler w), sw_main := After_wait\<rparr>)) \<and>
    (sw_exception w \<noteq> None \<longrightarrow> (\<exists>w'. signal_step\<^sup>*\<^sup>* w w' \<and> sh_stopped (sw_handler w') \<and> sw_main w' = sw_main w))"
proof -
  have inv: "signal_inv w" using reach by (rule signal_sys.reach_inv)
  have run: "signal_step w (w\<lparr>sw_main := After_wait\<rparr>)"
    if "sw_main w = In_run" "0 < sw_signals w \<or> sh_stopped (sw_handler w)"
    by (rule signal_step.main_returns) (use that inv in \<open>auto simp: handler_run_ends_def signal_inv_def\<close>)
  have before: "signal_step\<^sup>*\<^sup>* w (w\<lparr>sw_handler := handler_wait (sw_handler w), sw_main := After_wait\<rparr>)"
    if b: "sw_main w = Before_wait" "0 < sw_signals w \<or> sh_stopped (sw_handler w)"
  proof -
    let ?w = "w\<lparr>sw_main := In_run, sw_handler := handler_wait (sw_handler w)\<rparr>"
    have "signal_step w ?w" by (rule signal_step.main_waits [OF b(1)])
    moreover have "signal_step ?w (?w\<lparr>sw_main := After_wait\<rparr>)"
      by (rule signal_step.main_returns)
        (use b inv in \<open>auto simp: handler_run_ends_def handler_wait_def signal_inv_def\<close>)
    ultimately have "signal_step\<^sup>*\<^sup>* w (?w\<lparr>sw_main := After_wait\<rparr>)"
      by (rule converse_rtranclp_into_rtranclp [OF _ r_into_rtranclp])
    then show ?thesis by simp
  qed
  have stops: "\<exists>w'. signal_step\<^sup>*\<^sup>* w w' \<and> sh_stopped (sw_handler w') \<and> sw_main w' = sw_main w" if "sw_exception w \<noteq> None"
  proof (cases "sh_stopped (sw_handler w)")
    case True
    then show ?thesis by blast
  next
    case False
    then have "failing (sw_threads w)" using inv that unfolding signal_inv_def by blast
    then obtain k where k: "k < length (sw_threads w)" "fails (sw_threads w ! k)" unfolding failing_def by blast
    have last: "\<exists>w'. signal_step\<^sup>*\<^sup>* v w' \<and> sh_stopped (sw_handler w') \<and> sw_main w' = sw_main v"
      if "k < length (sw_threads v)" "sw_threads v ! k = Threads_interrupted e" for v e
      using signal_step.calls_back [OF that]
      by (intro exI [of _ "set_phase k Thread_finished (call_exception_callback v)"]) (simp add: handler_stop_def)
    show ?thesis
    proof (cases "sw_threads w ! k")
      case (Exception_stored e)
      let ?v = "set_phase k (Threads_interrupted e) (interrupt_all w)"
      have "signal_step w ?v" by (rule signal_step.interrupts [OF k(1) Exception_stored])
      moreover have "\<exists>w'. signal_step\<^sup>*\<^sup>* ?v w' \<and> sh_stopped (sw_handler w') \<and> sw_main w' = sw_main ?v"
        by (rule last [of _ e]) (use k(1) in simp_all)
      ultimately show ?thesis using converse_rtranclp_into_rtranclp [of signal_step w ?v] by auto
    next
      case (Threads_interrupted e)
      then show ?thesis using last k(1) by blast
    qed (use k(2) in simp_all)
  qed
  show ?thesis using inv run before stops unfolding signal_inv_def by blast
qed

theorem wait_for_signal_ends_witness:
  "\<exists>w. reach signal_init signal_step w \<and> sw_main w = Read_exception (Some (StdException ''e'')) \<and> sw_signals w = 0"
proof -
  let ?h = "\<lparr>sh_stopped = False, sh_waits = 0, sh_pending = 0\<rparr>"
  let ?w = "\<lambda>h x ts b m. \<lparr>sw_handler = h, sw_exception = x, sw_threads = ts, sw_interrupted = b, sw_main = m, sw_signals = 0\<rparr>"
  let ?e = "StdException ''e''"
  have r0: "reach signal_init signal_step (?w ?h None [Thread_runs] False Before_wait)"
    by (intro reach_init) (auto simp: signal_init_def mk_stop_signal_handler_def intro!: exI [of _ 1])
  have r1: "reach signal_init signal_step (?w ?h (Some ?e) [Exception_stored ?e] False Before_wait)"
    using reach_step [OF r0 signal_step.throws [of 0 _ ?e]] by simp
  have r2: "reach signal_init signal_step (?w ?h (Some ?e) [Threads_interrupted ?e] True Before_wait)"
    using reach_step [OF r1 signal_step.interrupts [of 0 _ ?e]] by simp
  have r3: "reach signal_init signal_step (?w (?h\<lparr>sh_stopped := True\<rparr>) (Some ?e) [Thread_finished] True Before_wait)"
    using reach_step [OF r2 signal_step.calls_back [of 0 _ ?e]] by (simp add: handler_stop_def)
  have "signal_step\<^sup>*\<^sup>* (?w (?h\<lparr>sh_stopped := True\<rparr>) (Some ?e) [Thread_finished] True Before_wait)
      (?w (?h\<lparr>sh_stopped := True, sh_waits := 1\<rparr>) (Some ?e) [Thread_finished] True After_wait)"
    using wait_for_signal_ends [OF r3] by (simp add: handler_wait_def)
  from reach_steps [OF this r3]
  have r4: "reach signal_init signal_step (?w (?h\<lparr>sh_stopped := True, sh_waits := 1\<rparr>) (Some ?e) [Thread_finished] True After_wait)" .
  have "reach signal_init signal_step
      (?w (?h\<lparr>sh_stopped := True, sh_waits := 1\<rparr>) (Some ?e) [Thread_finished] True (Read_exception (Some ?e)))"
    using reach_step [OF r4 signal_step.main_reads] by simp
  then show ?thesis by (intro exI conjI, assumption) simp_all
qed

section \<open>Small executors\<close>

text \<open>
  \<open>SingleThreadExecutor::run\<close> in the thread of the caller; \<open>context_run\<close> is \<open>context_.run()\<close>. It logs the
  start and the end, or the failure, which it passes on; the log is the list of lines.
\<close>

definition single_thread_run :: "('s \<Rightarrow> (exn, unit) outcome \<times> 's) \<Rightarrow> ('s \<times> string list, unit) action" where
  "single_thread_run context_run = (\<lambda>(s, log).
     let (r, s') = context_run s; log = log @ [''Start an executor.'']
     in case r of
          Ok _ \<Rightarrow> (Ok (), (s', log @ [''Executor run stopped normally.'']))
        | Throw e \<Rightarrow>
            (Throw e, (s', if is_std_exception e then log @ [''Executor stopped due to an exception: '' @ what e] else log))
        | Undefined \<Rightarrow> (Undefined, (s', log)))"

text \<open>
  \<open>WrappingExecutor\<close> gives out the contexts of the executor it wraps, whatever \<open>get_context\<close> does for
  it, and answers everything else itself.
\<close>

record 'ctx wrapping_executor =
  wrapped_context :: "nat \<Rightarrow> 'ctx"

definition wrapper_context :: "'ctx wrapping_executor \<Rightarrow> nat \<Rightarrow> 'ctx" where
  "wrapper_context w type = wrapped_context w type"

definition wrapper_start :: "('ctx wrapping_executor, unit) action" where
  "wrapper_start w = (Ok (), w)"

definition wrapper_stop :: "('ctx wrapping_executor, unit) action" where
  "wrapper_stop w = (Ok (), w)"

definition wrapper_last_exception :: "'ctx wrapping_executor \<Rightarrow> exn option" where
  "wrapper_last_exception w = None"

definition wrapper_on_exception :: "'cb \<Rightarrow> ('ctx wrapping_executor, unit) action" where
  "wrapper_on_exception callback w = (Ok (), w)"

definition wrapper_is_running :: "'ctx wrapping_executor \<Rightarrow> bool" where
  "wrapper_is_running w = True"

text \<open>\<open>async_invoke\<close> posts a function to the context the executor chooses.\<close>

definition async_invoke :: "'f \<Rightarrow> nat \<Rightarrow> (nat \<Rightarrow> 'f list) \<Rightarrow> nat \<Rightarrow> 'f list" where
  "async_invoke function context queues = queues(context := queues context @ [function])"

end
