(* ===== verification/Client_Link.thy ===== *)
theory Client_Link
  imports Message_Sender Client_Connector
begin

text \<open>
  The connector and the sender of a client joined the way \<open>ClientImpl::start\<close> joins them
  (\<open>src/msgpack_rpc/clients/impl/client_impl.h\<close>): the sender asks the connector for the connection, the
  connector calls the sender when there is a connection, a message was sent or the connection is lost.

  \<open>Message_Sender\<close> has the connection as a part of the sender and its events in order. Here the
  handlers of the connector are split where another thread can act: \<open>on_connection\<close> after the test of
  \<open>is_stopped_\<close> (\<open>accepting\<close>) and between the release of the lock and the call of \<open>on_connection_\<close>
  (\<open>notices\<close>), \<open>on_connection_closed\<close> between the reset of the connection and the call of \<open>on_closed_\<close>
  (\<open>losing\<close>). A simulation shows that the joined parts still behave like the sender on its own.
  A call of the sender is one step; its accesses one by one are in \<open>Message_Sender\<close>.
\<close>

section \<open>State\<close>

text \<open>
  \<open>connector_alive\<close>: the connector has not been destroyed, which the sender sees in its \<open>weak_ptr\<close>.
  \<open>write_on\<close>: the connection that writes a message given to it. \<open>taken\<close> and \<open>written\<close> record the
  messages accepted from the user and those reported as sent.
\<close>

record 'm client_link =
  lk_connector :: client_connector
  lk_sender :: "'m message_sender"
  connector_alive :: bool
  accepting :: "nat option"
  notices :: nat
  losing :: bool
  write_on :: "nat option"
  taken :: "'m list"
  written :: "'m list"

text \<open>\<open>get_connection\<close>: the sender with the connection it gets from the connector.\<close>

definition get_connection :: "'m client_link \<Rightarrow> nat option" where
  "get_connection l = (if connector_alive l then cn_connection (lk_connector l) else None)"

definition sender_view :: "'m client_link \<Rightarrow> 'm message_sender" where
  "sender_view l = (lk_sender l)\<lparr>connection := get_connection l\<rparr>"

text \<open>A call of the sender, and the write that begins when it calls \<open>async_send\<close>.\<close>

definition with_sender :: "'m message_sender \<Rightarrow> 'm client_link \<Rightarrow> 'm client_link" where
  "with_sender s l =
     l\<lparr>lk_sender := s, write_on := (if outbox s = outbox (lk_sender l) then write_on l else get_connection l)\<rparr>"

definition link_send_next :: "'m client_link \<Rightarrow> 'm client_link" where
  "link_send_next l = with_sender (send_next (sender_view l)) l"

definition link_send :: "'m \<Rightarrow> u32 option \<Rightarrow> 'm client_link \<Rightarrow> 'm client_link" where
  "link_send m i l = (with_sender (send_message m i (sender_view l)) l)\<lparr>taken := taken l @ [m]\<rparr>"

section \<open>The callbacks\<close>

text \<open>\<open>start\<close> of the connector, before any message can be given to the sender.\<close>

definition link_start :: "client_connector \<Rightarrow> 'm client_link" where
  "link_start connector =
     \<lparr>lk_connector = connector_start connector, lk_sender = mk_sender, connector_alive = True, accepting = None,
      notices = 0, losing = False, write_on = None, taken = [], written = []\<rparr>"

text \<open>\<open>on_connection\<close>: up to the test, under the lock, and the call of \<open>on_connection_\<close>, which is \<open>send_next\<close>.\<close>

definition link_connected :: "nat \<Rightarrow> 'm client_link \<Rightarrow> 'm client_link" where
  "link_connected c l =
     (let l = l\<lparr>lk_connector := (lk_connector l)\<lparr>connecting := False\<rparr>\<rparr>
      in if is_stopped (lk_connector l) then l else l\<lparr>accepting := Some c\<rparr>)"

definition link_accept :: "nat \<Rightarrow> 'm client_link \<Rightarrow> 'm client_link" where
  "link_accept c l =
     l\<lparr>lk_connector := on_connection_locked c (lk_connector l), accepting := None, notices := Suc (notices l)\<rparr>"

definition link_notify :: "'m client_link \<Rightarrow> 'm client_link" where
  "link_notify l = link_send_next (l\<lparr>notices := notices l - 1\<rparr>)"

text \<open>\<open>on_sent_\<close>: \<open>handle_sent_message\<close> and \<open>send_next\<close>.\<close>

definition link_sent :: "('m client_link, unit) action" where
  "link_sent l =
     (let l = l\<lparr>write_on := None\<rparr>
      in case handle_sent_message (lk_sender l) of
           Ok s \<Rightarrow> (Ok (), link_send_next (l\<lparr>lk_sender := s,
             written := written l @ map fst (take 1 (sent_messages (lk_sender l)))\<rparr>))
         | Throw e \<Rightarrow> (Throw e, l)
         | Undefined \<Rightarrow> (Undefined, l))"

text \<open>\<open>on_connection_closed\<close>: up to the release of the lock, then \<open>on_closed_\<close> and \<open>async_connect\<close>.\<close>

definition reset_connection :: "client_connector \<Rightarrow> client_connector" where
  "reset_connection s = record_action NotifyClosed (s\<lparr>cn_connection := None\<rparr>)"

definition link_lost :: "'m client_link \<Rightarrow> 'm client_link" where
  "link_lost l =
     (if is_stopped (lk_connector l) then l
      else l\<lparr>lk_connector := reset_connection (lk_connector l), losing := True\<rparr>)"

definition link_closed :: "'m client_link \<Rightarrow> 'm client_link" where
  "link_closed l =
     l\<lparr>lk_sender := handle_disconnection (lk_sender l), lk_connector := begin_connect (lk_connector l), losing := False\<rparr>"

text \<open>The parts of the two handlers in a row are the handlers of \<open>Client_Connector\<close>.\<close>

lemma handler_parts:
  "accepting l = None \<Longrightarrow>
     lk_connector (let l = link_connected c l in if accepting l = Some c then link_accept c l else l) =
     on_connection c ((lk_connector l)\<lparr>connecting := False\<rparr>)"
  "\<not> losing l \<Longrightarrow>
     lk_connector (let l = link_lost l in if losing l then link_closed l else l) = on_connection_closed (lk_connector l)"
  by (auto simp: link_connected_def link_accept_def on_connection_def link_lost_def link_closed_def
      reset_connection_def on_connection_closed_def Let_def)

section \<open>Events\<close>

datatype 'm link_event =
    LSend 'm "u32 option"
  | LAttempted "nat + int"
  | LAccept
  | LNotify
  | LSent
  | LLost
  | LClosed
  | LRetry
  | LStop
  | LRelease

fun link_exec :: "'m link_event \<Rightarrow> ('m client_link, unit) action" where
  "link_exec (LSend m i) l = (Ok (), link_send m i l)"
| "link_exec (LAttempted (Inl c)) l = (Ok (), link_connected c l)"
| "link_exec (LAttempted (Inr jitter)) l =
     (let (r, c) = on_connection_failure jitter ((lk_connector l)\<lparr>connecting := False\<rparr>) in (r, l\<lparr>lk_connector := c\<rparr>))"
| "link_exec LAccept l = (case accepting l of Some c \<Rightarrow> (Ok (), link_accept c l) | None \<Rightarrow> (Ok (), l))"
| "link_exec LNotify l = (Ok (), link_notify l)"
| "link_exec LSent l = link_sent l"
| "link_exec LLost l = (Ok (), link_lost l)"
| "link_exec LClosed l = (Ok (), link_closed l)"
| "link_exec LRetry l = (Ok (), l\<lparr>lk_connector := begin_connect ((lk_connector l)\<lparr>waiting := False\<rparr>)\<rparr>)"
| "link_exec LStop l = (Ok (), l\<lparr>lk_connector := connector_stop (lk_connector l)\<rparr>)"
| "link_exec LRelease l = (Ok (), l\<lparr>connector_alive := False\<rparr>)"

text \<open>
  When an event can come. A connection that is reported is a new object, so it has not been written
  to; the end of a write is reported before the end of its connection; the last pointer to the connector
  goes away when it was stopped and no handler holds another.
\<close>

fun link_can :: "'m link_event \<Rightarrow> 'm client_link \<Rightarrow> bool" where
  "link_can (LSend m i) l = True"
| "link_can (LAttempted (Inl c)) l = (connecting (lk_connector l) \<and> c \<notin> fst ` set (outbox (lk_sender l)))"
| "link_can (LAttempted (Inr jitter)) l =
     (connecting (lk_connector l) \<and> 0 \<le> jitter \<and> jitter \<le> rt_max_jitter (retry_timer (lk_connector l)))"
| "link_can LAccept l = (accepting l \<noteq> None)"
| "link_can LNotify l = (0 < notices l)"
| "link_can LSent l = (write_on l \<noteq> None \<and> connector_alive l \<and> cn_connection (lk_connector l) = write_on l)"
| "link_can LLost l = (cn_connection (lk_connector l) \<noteq> None \<or> is_stopped (lk_connector l))"
| "link_can LClosed l = losing l"
| "link_can LRetry l = waiting (lk_connector l)"
| "link_can LStop l = True"
| "link_can LRelease l =
     (is_stopped (lk_connector l) \<and> \<not> connecting (lk_connector l) \<and> accepting l = None \<and> notices l = 0 \<and> \<not> losing l)"

definition link_init :: "'m client_link \<Rightarrow> bool" where
  "link_init l \<longleftrightarrow> (\<exists>s. connector_init (connector_start s) \<and> l = link_start s)"

definition link_step :: "'m client_link \<Rightarrow> 'm client_link \<Rightarrow> bool" where
  "link_step l l' \<longleftrightarrow> (\<exists>ev r. link_can ev l \<and> link_exec ev l = (r, l'))"

section \<open>Invariant\<close>

text \<open>
  A connector that was not stopped does exactly one thing: it has a connection, connects, waits,
  accepts or loses a connection. When it was stopped it does at most one, and does not wait.
\<close>

definition activities :: "'m client_link \<Rightarrow> nat" where
  "activities l =
     of_bool (cn_connection (lk_connector l) \<noteq> None) + of_bool (connecting (lk_connector l)) +
     of_bool (waiting (lk_connector l)) + of_bool (accepting l \<noteq> None) + of_bool (losing l)"

definition link_inv :: "'m client_link \<Rightarrow> bool" where
  "link_inv l \<longleftrightarrow>
     timer_ok (retry_timer (lk_connector l)) \<and> activities l \<le> 1 \<and>
     (\<not> is_stopped (lk_connector l) \<longrightarrow> activities l = 1) \<and>
     (is_stopped (lk_connector l) \<longrightarrow> \<not> waiting (lk_connector l)) \<and>
     (\<not> connector_alive l \<longrightarrow> is_stopped (lk_connector l) \<and> \<not> connecting (lk_connector l) \<and> accepting l = None \<and>
        notices l = 0 \<and> \<not> losing l) \<and>
     (\<forall>c. accepting l = Some c \<longrightarrow> c \<notin> fst ` set (outbox (lk_sender l)))"

lemma send_next_gives:
  "outbox (send_next s) = outbox s \<or> (\<exists>c m. connection s = Some c \<and> outbox (send_next s) = outbox s @ [(c, m)])"
  by (cases "connection s"; cases "sent_messages s") (auto simp: send_next_def queue_next_def async_send_on_def)

lemma send_message_gives:
  "outbox (send_message m i s) = outbox s \<or>
     (\<exists>c x. connection s = Some c \<and> outbox (send_message m i s) = outbox s @ [(c, x)])"
  using send_next_gives [of "s\<lparr>sent_messages := queue_push m i (sent_messages s)\<rparr>"] by (simp add: send_message_def)

lemma with_sender_frame [simp]:
  "lk_connector (with_sender s l) = lk_connector l" "lk_sender (with_sender s l) = s"
  "connector_alive (with_sender s l) = connector_alive l" "accepting (with_sender s l) = accepting l"
  "notices (with_sender s l) = notices l" "losing (with_sender s l) = losing l"
  "taken (with_sender s l) = taken l" "written (with_sender s l) = written l"
  by (simp_all add: with_sender_def)

lemma sender_view_simps [simp]:
  "sent_messages (sender_view l) = sent_messages (lk_sender l)" "is_sending (sender_view l) = is_sending (lk_sender l)"
  "outbox (sender_view l) = outbox (lk_sender l)" "connection (sender_view l) = get_connection l"
  by (simp_all add: sender_view_def)

lemma get_connection_simps [simp]:
  "get_connection (with_sender s l) = get_connection l"
  "get_connection (l\<lparr>taken := t\<rparr>) = get_connection l"
  "get_connection (l\<lparr>written := t\<rparr>) = get_connection l"
  "get_connection (l\<lparr>write_on := w\<rparr>) = get_connection l"
  "get_connection (l\<lparr>notices := n\<rparr>) = get_connection l"
  "get_connection (l\<lparr>lk_sender := s\<rparr>) = get_connection l"
  by (simp_all add: get_connection_def)

lemma activities_simps [simp]:
  "activities (with_sender s l) = activities l"
  "activities (l\<lparr>taken := t\<rparr>) = activities l"
  "activities (l\<lparr>written := t\<rparr>) = activities l"
  "activities (l\<lparr>write_on := w\<rparr>) = activities l"
  "activities (l\<lparr>notices := n\<rparr>) = activities l"
  "activities (l\<lparr>lk_sender := s\<rparr>) = activities l"
  by (simp_all add: activities_def)

lemma accepting_no_connection:
  "link_inv l \<Longrightarrow> accepting l \<noteq> None \<Longrightarrow> get_connection l = None"
  by (auto simp: link_inv_def activities_def get_connection_def)

text \<open>A call of the sender changes nothing the connector sees.\<close>

lemma link_inv_with_sender:
  assumes inv: "link_inv l"
    and out: "outbox s = outbox (lk_sender l) \<or> (\<exists>c x. get_connection l = Some c \<and> outbox s = outbox (lk_sender l) @ [(c, x)])"
  shows "link_inv (with_sender s l)"
proof (cases "accepting l")
  case None
  then show ?thesis using inv by (simp add: link_inv_def)
next
  case (Some c)
  then have "outbox s = outbox (lk_sender l)" using accepting_no_connection [OF inv] out by simp
  then show ?thesis using inv by (simp add: link_inv_def)
qed

lemma link_inv_history [simp]:
  "link_inv (l\<lparr>taken := t\<rparr>) = link_inv l" "link_inv (l\<lparr>written := t\<rparr>) = link_inv l"
  "link_inv (l\<lparr>write_on := w\<rparr>) = link_inv l"
  by (simp_all add: link_inv_def)

lemma link_inv_send_next: "link_inv l \<Longrightarrow> link_inv (link_send_next l)"
  unfolding link_send_next_def using send_next_gives [of "sender_view l"]
  by (intro link_inv_with_sender) simp_all

lemma link_inv_sender:
  "link_inv l \<Longrightarrow> outbox s = outbox (lk_sender l) \<Longrightarrow> link_inv (l\<lparr>lk_sender := s\<rparr>)"
  by (simp add: link_inv_def)

lemma link_sent_inv: "link_inv l \<Longrightarrow> link_inv (snd (link_sent l))"
  by (auto simp: link_sent_def Let_def handle_sent_message_def queue_pop_def intro!: link_inv_send_next link_inv_sender)

lemma link_exec_inv:
  assumes inv: "link_inv l" and can: "link_can ev l"
  shows "link_inv (snd (link_exec ev l))"
proof (cases "(ev, l)" rule: link_exec.cases)
  case (1 m i l')
  then show ?thesis using inv link_inv_with_sender [OF inv, of "send_message m i (sender_view l)"]
      send_message_gives [of m i "sender_view l"] by (simp add: link_send_def)
next
  case (2 c l')
  then show ?thesis using inv can by (auto simp: link_inv_def link_connected_def activities_def Let_def)
next
  case (3 jitter l')
  let ?s = "(lk_connector l)\<lparr>connecting := False\<rparr>"
  show ?thesis
  proof (cases "is_stopped (lk_connector l)")
    case True
    then show ?thesis using 3 inv by (auto simp: link_inv_def on_connection_failure_def activities_def)
  next
    case False
    obtain t where t: "compute_waiting_time jitter (retry_timer ?s) = (Ok (next_wait_time (retry_timer ?s) + jitter), t)"
        "timer_ok t"
      using compute_ok [of "retry_timer ?s" jitter] 3 inv can by (auto simp: link_inv_def)
    then show ?thesis using 3 inv can False
      by (auto simp: link_inv_def on_connection_failure_def activities_def record_action_def)
  qed
next
  case (4 l')
  then obtain c where c: "accepting l = Some c" using can by auto
  have "timer_ok (retry_timer (lk_connector l))" using inv by (simp add: link_inv_def)
  then have "timer_ok (timer_reset (retry_timer (lk_connector l)))" by (simp add: timer_reset_def timer_ok_def)
  then show ?thesis using 4 inv c
    by (auto simp: link_inv_def link_accept_def on_connection_locked_def record_action_def activities_def)
next
  case (5 l')
  have "link_inv (l\<lparr>notices := notices l - 1\<rparr>)" using inv by (simp add: link_inv_def)
  then show ?thesis using 5 link_inv_send_next by (simp add: link_notify_def)
next
  case (6 l')
  then show ?thesis using link_sent_inv [OF inv] by simp
next
  case (7 l')
  then show ?thesis using inv can
    by (auto simp: link_inv_def link_lost_def reset_connection_def record_action_def activities_def)
next
  case (8 l')
  then show ?thesis using inv can
    by (auto simp: link_inv_def link_closed_def begin_connect_def record_action_def activities_def handle_disconnection_def)
next
  case (9 l')
  then show ?thesis using inv can
    by (auto simp: link_inv_def begin_connect_def record_action_def activities_def)
next
  case (10 l')
  then show ?thesis using inv
    by (auto simp: link_inv_def connector_stop_def record_action_def activities_def Let_def split: option.splits)
next
  case (11 l')
  then show ?thesis using inv can by (auto simp: link_inv_def activities_def)
qed

interpretation link_sys: invariant_system link_init link_step link_inv
proof
  fix l :: "'m client_link"
  assume "link_init l"
  then obtain s where s: "connector_init (connector_start s)" "l = link_start s" unfolding link_init_def by blast
  have i: "connector_inv (connector_start s)" using s(1) by (rule connector_sys.init_inv)
  have l: "accepting l = None" "losing l = False" "connector_alive l" "lk_connector l = connector_start s"
    by (simp_all add: s(2) link_start_def)
  have c: "connecting (connector_start s)" by (simp add: connector_start_def begin_connect_def record_action_def)
  define k where "k = connector_start s"
  have "activities l = of_bool (cn_connection k \<noteq> None) + 1 + of_bool (waiting k)"
    using c by (simp add: activities_def l k_def)
  then show "link_inv l" using i c l
    unfolding link_inv_def connector_inv_def l(4) k_def [symmetric] by (cases "is_stopped k") simp_all
next
  fix l l' :: "'m client_link"
  assume "link_inv l" "link_step l l'"
  then show "link_inv l'" using link_exec_inv by (fastforce simp: link_step_def)
qed

section \<open>Simulation\<close>

text \<open>
  The sender on its own sees a connection either when the joined sender does or when it first uses
  it; after the connection is gone its flag is already down, the joined one's until \<open>on_closed_\<close>.
\<close>

definition link_sim :: "'m client_link \<Rightarrow> 'm sender_history \<Rightarrow> bool" where
  "link_sim l h \<longleftrightarrow>
     taken l = accepted h \<and> written l = completed h \<and>
     sent_messages (lk_sender l) = sent_messages (sender h) \<and> outbox (lk_sender l) = outbox (sender h) \<and>
     (connection (sender h) = None \<or> connection (sender h) = get_connection l) \<and>
     (is_sending (sender h) \<longrightarrow>
        is_sending (lk_sender l) \<and> connection (sender h) \<noteq> None \<and> write_on l = connection (sender h)) \<and>
     (is_sending (lk_sender l) \<and> \<not> is_sending (sender h) \<longrightarrow>
        connection (sender h) = None \<and> (losing l \<or> is_stopped (lk_connector l))) \<and>
     (connection (sender h) = None \<longrightarrow> (\<forall>c. get_connection l = Some c \<longrightarrow> c \<notin> fst ` set (outbox (sender h)))) \<and>
     (write_on l \<noteq> None \<and> write_on l = get_connection l \<longrightarrow> is_sending (sender h)) \<and>
     (\<forall>c. write_on l = Some c \<longrightarrow> c \<in> fst ` set (outbox (sender h)))"

definition link_settled :: "'m client_link \<Rightarrow> 'm sender_history \<Rightarrow> bool" where
  "link_settled l h \<longleftrightarrow>
     (\<not> is_stopped (lk_connector l) \<and> get_connection l \<noteq> None \<and> notices l = 0 \<longrightarrow> connection (sender h) \<noteq> None)"

lemma link_simD:
  assumes "link_sim l h"
  shows "taken l = accepted h" "written l = completed h" "sent_messages (lk_sender l) = sent_messages (sender h)"
    "outbox (lk_sender l) = outbox (sender h)" "connection (sender h) = None \<or> connection (sender h) = get_connection l"
    "is_sending (sender h) \<Longrightarrow>
       is_sending (lk_sender l) \<and> connection (sender h) \<noteq> None \<and> write_on l = connection (sender h)"
    "is_sending (lk_sender l) \<Longrightarrow> \<not> is_sending (sender h) \<Longrightarrow>
       connection (sender h) = None \<and> (losing l \<or> is_stopped (lk_connector l))"
    "connection (sender h) = None \<Longrightarrow> get_connection l = Some c \<Longrightarrow> c \<notin> fst ` set (outbox (sender h))"
    "write_on l \<noteq> None \<Longrightarrow> write_on l = get_connection l \<Longrightarrow> is_sending (sender h)"
    "write_on l = Some c \<Longrightarrow> c \<in> fst ` set (outbox (sender h))"
  using assms unfolding link_sim_def by blast+

text \<open>The relation looks at the flags, the connections and the calls of \<open>async_send\<close>, and the same changes keep it.\<close>

lemma link_sim_cong:
  assumes "link_sim l h"
    and "get_connection l' = get_connection l" "write_on l' = write_on l"
      "is_sending (lk_sender l') = is_sending (lk_sender l)" "outbox (lk_sender l') = outbox (lk_sender l)"
      "connection (sender h') = connection (sender h)" "is_sending (sender h') = is_sending (sender h)"
      "outbox (sender h') = outbox (sender h)"
    and "taken l' = accepted h'" "written l' = completed h'" "sent_messages (lk_sender l') = sent_messages (sender h')"
    and "losing l \<or> is_stopped (lk_connector l) \<Longrightarrow> losing l' \<or> is_stopped (lk_connector l')"
  shows "link_sim l' h'"
  using assms(1,9-12) unfolding link_sim_def assms(2-8) by blast

lemma send_next_cases:
  obtains (same) "send_next s = s" "is_sending s \<or> connection s = None \<or> sent_messages s = []"
    | (sent) c m i q where "\<not> is_sending s" "connection s = Some c" "sent_messages s = (m, i) # q"
        "send_next s = async_send_on c m (s\<lparr>is_sending := True\<rparr>)"
  by (cases "is_sending s"; cases "connection s"; cases "sent_messages s")
    (auto simp: send_next_def queue_next_def)

lemma link_sim_send_next:
  assumes "connection s = get_connection l" "\<not> is_sending s" "outbox s = outbox (lk_sender l)" "sender h = send_next s"
    and "taken l = accepted h" "written l = completed h"
    and "\<And>c. write_on l = Some c \<Longrightarrow> c \<in> fst ` set (outbox s)" "write_on l = None \<or> write_on l \<noteq> get_connection l"
  shows "link_sim (with_sender (send_next s) l) h"
proof (cases rule: send_next_cases [of s])
  case same
  have w: "write_on (with_sender s l) = write_on l" using assms(3) by (simp add: with_sender_def)
  show ?thesis using assms unfolding same(1) by (auto simp: link_sim_def w)
next
  case (sent c m i q)
  have w: "write_on (with_sender (send_next s) l) = Some c"
    using assms(1,3) sent(2) by (simp add: with_sender_def sent(4) async_send_on_def)
  have "connection (send_next s) = Some c" "is_sending (send_next s)" "c \<in> fst ` set (outbox (send_next s))"
    by (simp_all add: sent(4) async_send_on_def sent(2))
  moreover have "get_connection l = Some c" using assms(1) sent(2) by simp
  ultimately show ?thesis using assms(4,5,6) by (simp add: link_sim_def w)
qed

lemma link_send_next_same:
  assumes "send_next (sender_view l) = sender_view l"
  shows "link_sim (link_send_next l) h = link_sim l h" "write_on (link_send_next l) = write_on l"
  by (simp_all add: link_send_next_def assms link_sim_def with_sender_def get_connection_def)

lemma link_send_next_frame [simp]:
  "lk_connector (link_send_next l) = lk_connector l" "get_connection (link_send_next l) = get_connection l"
  "notices (link_send_next l) = notices l" "sender_view (link_send_next l) = send_next (sender_view l)"
proof -
  have "connection (send_next (sender_view l)) = get_connection l"
    by (cases rule: send_next_cases [of "sender_view l"]) (simp_all add: async_send_on_def)
  then show "sender_view (link_send_next l) = send_next (sender_view l)"
    unfolding sender_view_def [of "link_send_next l"] by (simp add: link_send_next_def)
qed (simp_all add: link_send_next_def)

lemma link_send_next_match:
  assumes sim: "link_sim l h" and inv: "sender_inv h" and link: "link_inv l"
  shows "\<exists>h'. sender_step\<^sup>*\<^sup>* h h' \<and> link_sim (link_send_next l) h' \<and>
    (\<not> is_stopped (lk_connector l) \<and> get_connection l \<noteq> None \<longrightarrow> connection (sender h') \<noteq> None) \<and>
    (\<not> is_sending (sender_view (link_send_next l)) \<longrightarrow> sender_view (link_send_next l) = sender h')"
proof -
  let ?s = "sender_view l" and ?a = "sender h"
  have fields: "sent_messages ?s = sent_messages ?a" "outbox ?s = outbox ?a" "connection ?a = None \<or> connection ?a = connection ?s"
    using link_simD(3-5) [OF sim] by simp_all
  have idle: "\<not> is_sending ?a" if "\<not> is_sending ?s" using that link_simD(6) [OF sim] by auto
  consider (sending) "is_sending ?s" | (none) "\<not> is_sending ?s" "connection ?a = connection ?s"
    | (first) c where "\<not> is_sending ?s" "connection ?s = Some c" "connection ?a = None"
    using fields(3) by (cases "connection ?s") auto
  then show ?thesis
  proof cases
    case sending
    then have same: "send_next ?s = ?s" by (simp add: send_next_def)
    have "\<not> losing l" if "get_connection l \<noteq> None"
      using that link unfolding link_inv_def activities_def get_connection_def by (cases "losing l") (simp_all split: if_splits)
    then have "connection ?a \<noteq> None" if "\<not> is_stopped (lk_connector l) \<and> get_connection l \<noteq> None"
      using that sending link_simD(6,7) [OF sim] by auto
    then show ?thesis using sim sending by (intro exI [of _ h]) (simp add: link_send_next_same [OF same] same)
  next
    case none
    have eq: "?s = ?a" using fields none idle by (intro message_sender.equality) simp_all
    then have "connection ?s \<noteq> None \<longrightarrow> sent_messages ?s = []" using inv none(1) by (simp add: sender_inv_pre)
    then have same: "send_next ?s = ?s" by (cases rule: send_next_cases [of ?s]) auto
    have "connection ?a \<noteq> None" if "get_connection l \<noteq> None" using that none(2) by simp
    then show ?thesis using sim eq same [unfolded eq]
      by (intro exI [of _ h]) (simp add: link_send_next_same [OF same])
  next
    case first
    have eq: "?s = ?a\<lparr>connection := Some c\<rparr>" using fields first idle by (intro message_sender.equality) simp_all
    have fresh: "c \<notin> fst ` set (outbox ?a)" using link_simD(8) [OF sim] first(2,3) by simp
    let ?h = "\<lparr>sender = send_next ?s, accepted = accepted h @ accepted_by (Connected c),
        completed = completed h @ completed_by (Connected c) ?a\<rparr>"
    have step: "sender_step h ?h"
      by (rule sender_step.intros) (use first(3) fresh eq in simp_all)
    have c: "get_connection l = Some c" using first(2) by simp
    have "link_sim (link_send_next l) ?h"
      unfolding link_send_next_def
    proof (rule link_sim_send_next)
      show "write_on l = None \<or> write_on l \<noteq> get_connection l" using link_simD(10) [OF sim, of c] fresh c by auto
      show "c' \<in> fst ` set (outbox ?s)" if "write_on l = Some c'" for c'
        using link_simD(4,10) [OF sim] that by simp
    qed (use link_simD(1,2) [OF sim] first in simp_all)
    moreover have "connection (send_next ?s) = Some c"
      by (cases rule: send_next_cases [of ?s]) (simp_all add: async_send_on_def c)
    ultimately show ?thesis using step by (intro exI [of _ ?h]) auto
  qed
qed

text \<open>What a user's message does after a \<open>send_next\<close> is what it does without.\<close>

lemma send_message_after_send_next: "send_message m i (send_next s) = send_message m i s"
  by (cases rule: send_next_cases [of s])
    (auto simp: send_message_def send_next_def queue_push_def queue_next_def async_send_on_def)

lemma link_send_after_send_next: "link_send m i (link_send_next l) = link_send m i l"
proof -
  let ?s = "sender_view l"
  have "with_sender s (link_send_next l) = with_sender s l" if "s = send_message m i ?s" for s
  proof (cases rule: send_next_cases [of ?s])
    case same
    then show ?thesis by (simp add: link_send_next_def with_sender_def get_connection_def)
  next
    case (sent c x j q)
    have "outbox (send_message m i ?s) = outbox (lk_sender l) @ [(c, x)]"
      using sent(1-3) by (simp add: send_message_def send_next_def queue_push_def queue_next_def async_send_on_def)
    moreover have "outbox (send_next ?s) = outbox (lk_sender l) @ [(c, x)]" by (simp add: sent(4) async_send_on_def)
    ultimately show ?thesis by (simp add: that link_send_next_def with_sender_def get_connection_def)
  qed
  moreover have "taken (link_send_next l) = taken l" by (simp add: link_send_next_def)
  ultimately show ?thesis unfolding link_send_def by (simp add: send_message_after_send_next)
qed

lemma link_send_frame [simp]:
  "lk_connector (link_send m i l) = lk_connector l" "get_connection (link_send m i l) = get_connection l"
  "notices (link_send m i l) = notices l" "losing (link_send m i l) = losing l"
  "written (link_send m i l) = written l" "taken (link_send m i l) = taken l @ [m]"
  by (simp_all add: link_send_def)

lemma link_send_match:
  assumes sim: "link_sim l h" and idle: "\<not> is_sending (sender_view l) \<longrightarrow> sender_view l = sender h"
  shows "\<exists>h'. sender_step h h' \<and> link_sim (link_send m i l) h' \<and> connection (sender h') = connection (sender h)"
proof -
  let ?s = "sender_view l" and ?a = "sender h"
  let ?push = "\<lambda>s. s\<lparr>sent_messages := queue_push m i (sent_messages s)\<rparr>"
  let ?h = "\<lparr>sender = send_message m i ?a, accepted = accepted h @ accepted_by (UserSend m i),
        completed = completed h @ completed_by (UserSend m i) ?a\<rparr>"
  have step: "sender_step h ?h" by (rule sender_step.intros) simp_all
  have conn: "connection (send_next s) = connection s" for s :: "'a message_sender"
    by (cases rule: send_next_cases [of s]) (simp_all add: async_send_on_def)
  have "link_sim (link_send m i l) ?h"
  proof (cases "is_sending ?s")
    case True
    have s: "send_message m i ?s = ?push ?s" using True by (simp add: send_message_def send_next_def)
    have a: "send_message m i ?a = ?push ?a"
      using link_simD(7) [OF sim] True by (cases "is_sending ?a") (auto simp: send_message_def send_next_def)
    have l: "lk_sender (link_send m i l) = ?push ?s" "write_on (link_send m i l) = write_on l"
      by (simp_all add: link_send_def s with_sender_def)
    show ?thesis
      by (rule link_sim_cong [OF sim]) (use link_simD(1-3) [OF sim] in \<open>simp_all add: l a\<close>)
  next
    case False
    then have eq: "?s = ?a" using idle by simp
    have na: "\<not> is_sending ?a" using False eq by simp
    have "link_sim (with_sender (send_next (?push ?a)) (l\<lparr>taken := taken l @ [m]\<rparr>)) ?h"
    proof (rule link_sim_send_next)
      show "connection (?push ?a) = get_connection (l\<lparr>taken := taken l @ [m]\<rparr>)" using eq [symmetric] by simp
      show "write_on (l\<lparr>taken := taken l @ [m]\<rparr>) = None \<or>
          write_on (l\<lparr>taken := taken l @ [m]\<rparr>) \<noteq> get_connection (l\<lparr>taken := taken l @ [m]\<rparr>)"
        using link_simD(9) [OF sim] na by (cases "get_connection l") auto
      show "c \<in> fst ` set (outbox (?push ?a))" if "write_on (l\<lparr>taken := taken l @ [m]\<rparr>) = Some c" for c
        using link_simD(10) [OF sim] that by simp
    qed (use link_simD(1,2,4) [OF sim] na in \<open>simp_all add: send_message_def\<close>)
    moreover have "link_send m i l = with_sender (send_next (?push ?a)) (l\<lparr>taken := taken l @ [m]\<rparr>)"
      by (simp add: link_send_def eq send_message_def with_sender_def get_connection_def)
    ultimately show ?thesis by (simp only:)
  qed
  then show ?thesis using step by (intro exI [of _ ?h]) (simp add: send_message_def conn)
qed

text \<open>When the joined sender no longer sees the connection, the sender on its own is disconnected.\<close>

lemma link_drop_match:
  assumes sim: "link_sim l h" and gone: "get_connection l' = None" "losing l' \<or> is_stopped (lk_connector l')"
    and eqs: "lk_sender l' = lk_sender l" "write_on l' = write_on l" "taken l' = taken l" "written l' = written l"
  shows "\<exists>h'. sender_step\<^sup>*\<^sup>* h h' \<and> link_sim l' h'"
proof (cases "connection (sender h)")
  case None
  then have "\<not> is_sending (sender h)" using link_simD(6) [OF sim] by blast
  then have "link_sim l' h" using link_simD(1-4,10) [OF sim] None gone by (auto simp: link_sim_def eqs)
  then show ?thesis by blast
next
  case (Some c)
  let ?a = "sender h"
  let ?h = "\<lparr>sender = handle_disconnection (?a\<lparr>connection := None\<rparr>), accepted = accepted h @ accepted_by Disconnected,
        completed = completed h @ completed_by Disconnected ?a\<rparr>"
  have "sender_step h ?h" by (rule sender_step.intros) (simp_all add: Some)
  moreover have "link_sim l' ?h" using link_simD(1-4,10) [OF sim] gone
    by (auto simp: link_sim_def eqs handle_disconnection_def)
  ultimately show ?thesis by blast
qed

lemma link_sent_match:
  assumes sim: "link_sim l h" and inv: "sender_inv h"
    and wr: "write_on l = Some c" "get_connection l = Some c"
  shows "\<exists>l' h'. link_sent l = (Ok (), l') \<and> sender_step h h' \<and> link_sim l' h' \<and> connection (sender h') \<noteq> None"
proof -
  let ?s = "sender_view l" and ?a = "sender h"
  have a: "is_sending ?a" using link_simD(9) [OF sim] wr by simp
  then have c: "connection ?a = Some c" "is_sending (lk_sender l)" using link_simD(6) [OF sim] wr by simp_all
  obtain s' where s': "sender_exec (WriteDone c) ?a = Ok s'"
    using sender_exec_inv [OF inv, of "WriteDone c"] a c(1) by auto
  then obtain x q where q: "sent_messages ?a = x # q"
    by (cases "sent_messages ?a") (simp_all add: handle_sent_message_def queue_pop_def)
  let ?h = "\<lparr>sender = s', accepted = accepted h @ accepted_by (WriteDone c),
        completed = completed h @ completed_by (WriteDone c) ?a\<rparr>"
  have step: "sender_step h ?h" by (rule sender_step.intros) (use a c(1) s' in simp_all)
  let ?a1 = "?a\<lparr>sent_messages := q, is_sending := False\<rparr>"
  have s'_eq: "s' = send_next ?a1" using s' by (simp add: handle_sent_message_def queue_pop_def q)
  let ?l1 = "l\<lparr>write_on := None, lk_sender := (lk_sender l)\<lparr>sent_messages := q, is_sending := False\<rparr>,
      written := written l @ [fst x]\<rparr>"
  have l1: "link_sent l = (Ok (), link_send_next ?l1)"
    using link_simD(3) [OF sim] q by (simp add: link_sent_def handle_sent_message_def queue_pop_def Let_def)
  have k: "get_connection ?l1 = Some c" using wr(2) by (simp add: get_connection_def split: if_splits)
  have view: "sender_view ?l1 = ?a1"
    using link_simD(4) [OF sim] c(1) k by (intro message_sender.equality) simp_all
  have "link_sim (with_sender (send_next ?a1) ?l1) ?h"
  proof (rule link_sim_send_next)
    show "connection ?a1 = get_connection ?l1" using c(1) k by simp
    show "d \<in> fst ` set (outbox ?a1)" if "write_on ?l1 = Some d" for d using that by simp
  qed (use link_simD(1,2,4) [OF sim] q k s'_eq in simp_all)
  moreover have "link_send_next ?l1 = with_sender (send_next ?a1) ?l1" by (simp only: link_send_next_def view)
  moreover have "connection (sender ?h) = Some c"
    by (cases rule: send_next_cases [of ?a1]) (simp_all add: s'_eq async_send_on_def c(1))
  ultimately show ?thesis using l1 step by (intro exI [of _ "link_send_next ?l1"] exI [of _ ?h]) simp
qed

definition link_match :: "'m client_link \<Rightarrow> 'm sender_history \<Rightarrow> bool" where
  "link_match l h \<longleftrightarrow> link_sim l h \<and> link_settled l h"

text \<open>Steps of the connector that the sender does not see.\<close>

lemma link_match_frame:
  assumes "link_match l h"
    and "get_connection l' = get_connection l" "is_stopped (lk_connector l') = is_stopped (lk_connector l)"
      "notices l' = notices l" "losing l' = losing l" "write_on l' = write_on l" "lk_sender l' = lk_sender l"
      "taken l' = taken l" "written l' = written l"
  shows "\<exists>h'. sender_step\<^sup>*\<^sup>* h h' \<and> link_match l' h'"
proof -
  have sim: "link_sim l h" using assms(1) by (simp add: link_match_def)
  have "link_sim l' h"
    by (rule link_sim_cong [OF sim]) (use assms(2-9) link_simD(1-3) [OF sim] in simp_all)
  moreover have "link_settled l' h" using assms(1) unfolding link_match_def link_settled_def assms(2-4) by blast
  ultimately show ?thesis unfolding link_match_def by blast
qed

lemma link_drop_settled:
  assumes "link_match l h" "get_connection l' = None" "losing l' \<or> is_stopped (lk_connector l')"
    and "lk_sender l' = lk_sender l" "write_on l' = write_on l" "taken l' = taken l" "written l' = written l"
  shows "\<exists>h'. sender_step\<^sup>*\<^sup>* h h' \<and> link_match l' h'"
proof -
  have "link_sim l h" using assms(1) by (simp add: link_match_def)
  from link_drop_match [OF this assms(2-)] show ?thesis
    using assms(2) by (simp add: link_match_def link_settled_def)
qed

lemma stop_frame:
  "is_stopped (connector_stop s)"
  "is_stopped s \<Longrightarrow> connector_stop s = s"
  "\<not> is_stopped s \<Longrightarrow> cn_connection (connector_stop s) = None"
  by (auto simp: connector_stop_def Let_def record_action_def split: option.splits)

lemma failure_frame:
  "cn_connection (snd (on_connection_failure j s)) = cn_connection s"
  "is_stopped (snd (on_connection_failure j s)) = is_stopped s"
  by (auto simp: on_connection_failure_def record_action_def split: outcome.splits prod.splits)

lemma losing_no_connection: "link_inv l \<Longrightarrow> losing l \<Longrightarrow> get_connection l = None"
  unfolding link_inv_def activities_def get_connection_def by simp

lemma link_step_match:
  assumes m: "link_match l h" and inv: "sender_inv h" and link: "link_inv l" and can: "link_can ev l"
  shows "\<exists>h'. sender_step\<^sup>*\<^sup>* h h' \<and> link_match (snd (link_exec ev l)) h'"
proof -
  have sim: "link_sim l h" using m by (simp add: link_match_def)
  show ?thesis
  proof (cases "(ev, l)" rule: link_exec.cases)
    case (1 x i l')
    obtain h1 where h1: "sender_step\<^sup>*\<^sup>* h h1" "link_sim (link_send_next l) h1"
        "\<not> is_stopped (lk_connector l) \<and> get_connection l \<noteq> None \<longrightarrow> connection (sender h1) \<noteq> None"
        "\<not> is_sending (sender_view (link_send_next l)) \<longrightarrow> sender_view (link_send_next l) = sender h1"
      using link_send_next_match [OF sim inv link] by blast
    obtain h2 where h2: "sender_step h1 h2" "link_sim (link_send x i (link_send_next l)) h2"
        "connection (sender h2) = connection (sender h1)"
      using link_send_match [OF h1(2,4)] by blast
    have "link_settled (link_send x i l) h2" using h1(3) h2(3) by (simp add: link_settled_def)
    then have "link_match (link_send x i l) h2" using h2(2) by (simp add: link_match_def link_send_after_send_next)
    then show ?thesis using 1 h1(1) h2(1) by (intro exI [of _ h2]) simp
  next
    case (2 c l')
    then show ?thesis
      by (intro link_match_frame [OF m]) (simp_all add: link_connected_def Let_def get_connection_def)
  next
    case (3 jitter l')
    then show ?thesis
      by (intro link_match_frame [OF m]) (simp_all add: failure_frame get_connection_def split_beta)
  next
    case (4 l')
    then obtain c where c: "accepting l = Some c" using can by auto
    have none: "get_connection l = None" using accepting_no_connection [OF link] c by simp
    then have a: "connection (sender h) = None" "\<not> is_sending (sender h)" using link_simD(5,6) [OF sim] by auto
    have k: "get_connection (link_accept c l) = Some c" "connector_alive l" "c \<notin> fst ` set (outbox (lk_sender l))"
      using link c by (auto simp: link_inv_def link_accept_def get_connection_def on_connection_locked_def record_action_def)
    have "link_sim (link_accept c l) h"
      using link_simD(1-4,10) [OF sim] link_simD(7) [OF sim _ a(2)] a k(3)
      by (auto simp: link_sim_def k(1)) (auto simp: link_accept_def on_connection_locked_def record_action_def)
    moreover have "link_settled (link_accept c l) h" by (simp add: link_settled_def link_accept_def)
    ultimately show ?thesis using 4 c by (intro exI [of _ h]) (simp add: link_match_def)
  next
    case (5 l')
    let ?l = "l\<lparr>notices := notices l - 1\<rparr>"
    have "link_sim ?l h" by (rule link_sim_cong [OF sim]) (use link_simD(1-3) [OF sim] in simp_all)
    moreover have "link_inv ?l" using link by (simp add: link_inv_def)
    ultimately obtain h1 where "sender_step\<^sup>*\<^sup>* h h1" "link_sim (link_send_next ?l) h1"
        "\<not> is_stopped (lk_connector ?l) \<and> get_connection ?l \<noteq> None \<longrightarrow> connection (sender h1) \<noteq> None"
      using link_send_next_match inv by blast
    then show ?thesis using 5
      by (intro exI [of _ h1]) (simp add: link_match_def link_notify_def link_settled_def)
  next
    case (6 l')
    then obtain c where w: "write_on l = Some c" "get_connection l = Some c"
      using can by (auto simp: get_connection_def)
    obtain l2 h2 where h2: "link_sent l = (Ok (), l2)" "sender_step h h2" "link_sim l2 h2" "connection (sender h2) \<noteq> None"
      using link_sent_match [OF sim inv w] by blast
    have "link_match l2 h2" using h2(3,4) by (simp add: link_match_def link_settled_def)
    then show ?thesis using 6 h2(1,2) by (intro exI [of _ h2]) auto
  next
    case (7 l')
    show ?thesis
    proof (cases "is_stopped (lk_connector l)")
      case True
      then show ?thesis using 7 m by (intro exI [of _ h]) (simp add: link_lost_def)
    next
      case False
      then show ?thesis using 7
        by (intro link_drop_settled [OF m])
          (simp_all add: link_lost_def get_connection_def reset_connection_def record_action_def)
    qed
  next
    case (8 l')
    have none: "get_connection l = None" using losing_no_connection link can 8 by simp
    then have a: "connection (sender h) = None" "\<not> is_sending (sender h)" using link_simD(5,6) [OF sim] by auto
    have k: "get_connection (link_closed l) = None"
      using none by (simp add: link_closed_def get_connection_def begin_connect_def record_action_def split: if_splits)
    have "link_sim (link_closed l) h"
      using link_simD(1-4,10) [OF sim] a by (auto simp: link_sim_def k) (auto simp: link_closed_def handle_disconnection_def)
    then show ?thesis using 8 k by (intro exI [of _ h]) (simp add: link_match_def link_settled_def)
  next
    case (9 l')
    then show ?thesis
      by (intro link_match_frame [OF m]) (simp_all add: begin_connect_def record_action_def get_connection_def)
  next
    case (10 l')
    show ?thesis
    proof (cases "is_stopped (lk_connector l)")
      case True
      then show ?thesis using 10 m by (intro exI [of _ h]) (simp add: stop_frame(2))
    next
      case False
      then show ?thesis using 10
        by (intro link_drop_settled [OF m]) (simp_all add: get_connection_def stop_frame)
    qed
  next
    case (11 l')
    then show ?thesis using can by (intro link_drop_settled [OF m]) (simp_all add: get_connection_def)
  qed
qed

interpretation link_refines: simulation link_init link_step sender_init sender_step link_match
proof
  fix l :: "'m client_link"
  assume "link_init l"
  then obtain s where s: "connector_init (connector_start s)" "l = link_start s" unfolding link_init_def by blast
  let ?h = "\<lparr>sender = mk_sender, accepted = [], completed = []\<rparr> :: 'm sender_history"
  obtain config s0 where s0: "mk_connector config = Ok s0" "connector_start s = connector_start s0"
    using s(1) unfolding connector_init_def by blast
  have "cn_connection s0 = None" using s0(1) by (auto simp: mk_connector_def bind_out_Ok_iff)
  then have "cn_connection (connector_start s) = None"
    unfolding s0(2) by (simp add: connector_start_def begin_connect_def record_action_def)
  then have "get_connection l = None" by (simp add: s(2) link_start_def get_connection_def)
  then have "link_match l ?h" unfolding link_match_def link_sim_def link_settled_def
    by (simp add: s(2) link_start_def mk_sender_def)
  then show "\<exists>h. sender_init h \<and> link_match l h" by (intro exI [of _ ?h]) (simp add: sender_init_def)
next
  fix l l' :: "'m client_link" and h
  assume r: "reach link_init link_step l" "reach sender_init sender_step h" and m: "link_match l h" and "link_step l l'"
  then obtain ev where ev: "link_can ev l" "l' = snd (link_exec ev l)" unfolding link_step_def by fastforce
  from link_step_match [OF m sender_sys.reach_inv [OF r(2)] link_sys.reach_inv [OF r(1)] ev(1)]
  show "\<exists>h'. sender_step\<^sup>*\<^sup>* h h' \<and> link_match l' h'" by (simp add: ev(2))
qed

section \<open>Properties\<close>

lemma link_sent_returns:
  "reach link_init link_step l \<Longrightarrow> link_can LSent l \<Longrightarrow> fst (link_sent l) = Ok ()"
proof -
  assume r: "reach link_init link_step l" and can: "link_can LSent l"
  obtain h where h: "reach sender_init sender_step h" "link_match l h" using link_refines.reach_match [OF r] by blast
  obtain c where w: "write_on l = Some c" "get_connection l = Some c" using can by (auto simp: get_connection_def)
  show "fst (link_sent l) = Ok ()"
    using link_sent_match [OF _ sender_sys.reach_inv [OF h(1)] w] h(2) by (auto simp: link_match_def)
qed



end
