(* ===== verification/Zones.thy ===== *)
theory Zones
  imports Handles Client_Calls Msgpack_Reference
begin

text \<open>
  Who owns the memory of MessagePack objects. A \<open>msgpack::object\<close> points into a zone, and so does the
  view of a method name in a parsed message. Parsed messages, parameters, results and the two
  exceptions with an object (\<open>messages/parsed_*.h\<close>, \<open>messages/call_result.h\<close>,
  \<open>methods/method_exception.h\<close>, \<open>clients/server_exception.h\<close>) keep a \<open>std::shared_ptr\<close> to the zone beside the
  object, with the copies, moves and destructors the compiler generates.

  The other theories have objects as values. Here they are pointers, reading one after its zone is
  gone is undefined, and the refinement below shows that a program that only reads what it has not
  moved from cannot tell the difference.
\<close>

section \<open>Zones and shared pointers\<close>

text \<open>The use count of every zone that exists.\<close>

record zone_heap =
  zones :: "nat \<rightharpoonup> nat"
  next_zone :: nat

definition make_zone :: "zone_heap \<Rightarrow> nat \<times> zone_heap" where
  "make_zone h = (next_zone h, \<lparr>zones = (zones h)(next_zone h \<mapsto> 1), next_zone = Suc (next_zone h)\<rparr>)"

definition zone_acquire :: "nat \<Rightarrow> zone_heap \<Rightarrow> zone_heap option" where
  "zone_acquire z h = map_option (\<lambda>n. h\<lparr>zones := (zones h)(z \<mapsto> Suc n)\<rparr>) (zones h z)"

definition zone_release :: "nat \<Rightarrow> zone_heap \<Rightarrow> zone_heap option" where
  "zone_release z h =
     map_option (\<lambda>n. h\<lparr>zones := (zones h)(z := if n \<le> 1 then None else Some (n - 1))\<rparr>) (zones h z)"

text \<open>A \<open>std::shared_ptr<zone>\<close> is copied and destroyed; it may be null.\<close>

definition shared_copy :: "nat option \<Rightarrow> zone_heap \<Rightarrow> (exn, zone_heap) outcome" where
  "shared_copy ptr h = (case ptr of None \<Rightarrow> Ok h | Some z \<Rightarrow> (case zone_acquire z h of None \<Rightarrow> Undefined | Some h \<Rightarrow> Ok h))"

definition shared_drop :: "nat option \<Rightarrow> zone_heap \<Rightarrow> (exn, zone_heap) outcome" where
  "shared_drop ptr h = (case ptr of None \<Rightarrow> Ok h | Some z \<Rightarrow> (case zone_release z h of None \<Rightarrow> Undefined | Some h \<Rightarrow> Ok h))"

interpretation zone_ptr: counted_resource zones zone_acquire zone_release
  by unfold_locales (auto simp: zone_acquire_def zone_release_def)

section \<open>Objects and their owners\<close>

text \<open>
  An object as the code has it: what it shows and the zone its pointers lead to. Numbers, \<open>nil\<close>, booleans and
  empty strings or containers are read without following a pointer.
\<close>

record raw_object =
  raw_value :: mp_object
  raw_in :: nat

fun follows_pointer :: "mp_object \<Rightarrow> bool" where
  "follows_pointer (MStr s) = (s \<noteq> [])"
| "follows_pointer (MBin bs) = (bs \<noteq> [])"
| "follows_pointer (MExt t bs) = True"
| "follows_pointer (MArray xs) = (xs \<noteq> [])"
| "follows_pointer (MMap kvs) = (kvs \<noteq> [])"
| "follows_pointer _ = False"

definition readable :: "zone_heap \<Rightarrow> raw_object \<Rightarrow> bool" where
  "readable h r \<longleftrightarrow> (follows_pointer (raw_value r) \<longrightarrow> zones h (raw_in r) \<noteq> None)"

definition read_raw :: "zone_heap \<Rightarrow> raw_object \<Rightarrow> (exn, mp_object) outcome" where
  "read_raw h r = (if readable h r then Ok (raw_value r) else Undefined)"

text \<open>
  The classes that own an object, with the objects they hold: pointers in the program, values in the
  other theories.
\<close>

datatype 'o owned =
    OwnedRequest u32 'o 'o
  | OwnedNotification 'o 'o
  | OwnedResponse u32 bool 'o
  | OwnedResult bool 'o
  | OwnedMethodException 'o
  | OwnedServerException rpc_exception 'o

fun owned_message :: "(mp_object \<Rightarrow> 'o) \<Rightarrow> parsed_message \<Rightarrow> 'o owned" where
  "owned_message f (PRequest r) = OwnedRequest (req_id r) (f (MStr (req_method r))) (f (params_object (req_params r)))"
| "owned_message f (PNotification n) = OwnedNotification (f (MStr (notif_method n))) (f (params_object (notif_params n)))"
| "owned_message f (PResponse r) = OwnedResponse (resp_id r) (is_error (resp_result r)) (f (result_object (resp_result r)))"

text \<open>
  The variables of a program that are of one of the classes: the objects they hold and their \<open>zone_\<close>.
\<close>

record zone_world =
  heap :: zone_heap
  owners :: "nat \<rightharpoonup> raw_object owned"
  zone_of :: "(nat, nat) handles"

definition empty_world :: zone_world where
  "empty_world = \<lparr>heap = \<lparr>zones = Map.empty, next_zone = 0\<rparr>, owners = Map.empty, zone_of = Map.empty\<rparr>"

definition owner :: "nat \<Rightarrow> zone_world \<Rightarrow> (exn, raw_object owned \<times> nat option) outcome" where
  "owner v w = (case owners w v of None \<Rightarrow> Undefined
     | Some x \<Rightarrow> (case zone_of w v of None \<Rightarrow> Undefined | Some z \<Rightarrow> Ok (x, z)))"

definition no_owner :: "nat \<Rightarrow> zone_world \<Rightarrow> (exn, unit) outcome" where
  "no_owner v w = (if owners w v = None then Ok () else Undefined)"

definition put_owner :: "nat \<Rightarrow> raw_object owned \<Rightarrow> nat option \<Rightarrow> zone_heap \<Rightarrow> zone_world \<Rightarrow> zone_world" where
  "put_owner v x z h w = \<lparr>heap = h, owners = (owners w)(v \<mapsto> x), zone_of = (zone_of w)(v \<mapsto> z)\<rparr>"

text \<open>An operation that does not throw: its new state, or nothing when it is undefined.\<close>

definition as_action :: "(zone_world \<Rightarrow> (exn, zone_world) outcome) \<Rightarrow> (zone_world, mp_object owned option) action" where
  "as_action f w = (case f w of Ok w' \<Rightarrow> (Ok None, w') | Throw e \<Rightarrow> (Throw e, w) | Undefined \<Rightarrow> (Undefined, w))"

section \<open>Operations\<close>

text \<open>
  \<open>try_parse\<close> once the parser has an object: it comes with its zone, which the message takes over, and
  which is destroyed with the object when there is no message.
\<close>

definition parse_into :: "mp_conv \<Rightarrow> mp_object \<Rightarrow> nat \<Rightarrow> (zone_world, mp_object owned option) action" where
  "parse_into cv obj v w =
     (let (z, h) = make_zone (heap w)
      in case bind_out (no_owner v w) (\<lambda>_. bind_out (read_raw h \<lparr>raw_value = obj, raw_in = z\<rparr>) (parse_message_from_object cv)) of
           Ok m \<Rightarrow> (Ok None, put_owner v (owned_message (\<lambda>x. \<lparr>raw_value = x, raw_in = z\<rparr>) m) (Some z) h w)
         | Throw e \<Rightarrow> (case shared_drop (Some z) h of Ok h \<Rightarrow> (Throw e, w\<lparr>heap := h\<rparr>) | _ \<Rightarrow> (Undefined, w))
         | Undefined \<Rightarrow> (Undefined, w))"

text \<open>The copy and move operations and the destructors that are declared as \<open>default\<close>.\<close>

definition owner_copy :: "nat \<Rightarrow> nat \<Rightarrow> zone_world \<Rightarrow> (exn, zone_world) outcome" where
  "owner_copy v u w =
     bind_out (no_owner v w) (\<lambda>_.
     bind_out (owner u w) (\<lambda>(x, z).
     bind_out (shared_copy z (heap w)) (\<lambda>h. Ok (put_owner v x z h w))))"

definition owner_move :: "nat \<Rightarrow> nat \<Rightarrow> zone_world \<Rightarrow> (exn, zone_world) outcome" where
  "owner_move v u w =
     bind_out (no_owner v w) (\<lambda>_.
     bind_out (owner u w) (\<lambda>(x, z).
       Ok (put_owner v x z (heap w) (w\<lparr>zone_of := (zone_of w)(u \<mapsto> None)\<rparr>))))"

definition owner_copy_assign :: "nat \<Rightarrow> nat \<Rightarrow> zone_world \<Rightarrow> (exn, zone_world) outcome" where
  "owner_copy_assign v u w =
     bind_out (owner v w) (\<lambda>(_, old).
     bind_out (owner u w) (\<lambda>(x, z).
     bind_out (shared_copy z (heap w)) (\<lambda>h.
     bind_out (shared_drop old h) (\<lambda>h. Ok (put_owner v x z h w)))))"

definition owner_move_assign :: "nat \<Rightarrow> nat \<Rightarrow> zone_world \<Rightarrow> (exn, zone_world) outcome" where
  "owner_move_assign v u w =
     bind_out (owner v w) (\<lambda>(_, old).
     bind_out (owner u w) (\<lambda>(x, z).
       if v = u then Ok w
       else bind_out (shared_drop old (heap w)) (\<lambda>h.
         Ok (put_owner v x z h (w\<lparr>zone_of := (zone_of w)(u \<mapsto> None)\<rparr>)))))"

definition owner_destroy :: "nat \<Rightarrow> zone_world \<Rightarrow> (exn, zone_world) outcome" where
  "owner_destroy v w =
     bind_out (owner v w) (\<lambda>(_, old).
     bind_out (shared_drop old (heap w)) (\<lambda>h.
       Ok \<lparr>heap = h, owners = (owners w)(v := None), zone_of = (zone_of w)(v := None)\<rparr>))"

text \<open>The \<open>CallResult\<close> in a response is copied out of it into a future.\<close>

definition copy_result :: "nat \<Rightarrow> nat \<Rightarrow> zone_world \<Rightarrow> (exn, zone_world) outcome" where
  "copy_result v u w =
     bind_out (no_owner v w) (\<lambda>_.
     bind_out (owner u w) (\<lambda>(x, z).
       case x of
         OwnedResponse _ err obj \<Rightarrow>
           bind_out (shared_copy z (heap w)) (\<lambda>h. Ok (put_owner v (OwnedResult err obj) z h w))
       | _ \<Rightarrow> Undefined))"

text \<open>\<open>MethodException\<close>: a new zone, into which the object of the user is copied.\<close>

definition new_method_exception :: "nat \<Rightarrow> mp_object \<Rightarrow> zone_world \<Rightarrow> (exn, zone_world) outcome" where
  "new_method_exception v obj w =
     bind_out (no_owner v w) (\<lambda>_.
       let (z, h) = make_zone (heap w)
       in Ok (put_owner v (OwnedMethodException \<lparr>raw_value = obj, raw_in = z\<rparr>) (Some z) h w))"

text \<open>
  \<open>throw ServerException(call_result.object(), call_result.zone())\<close>: the arguments are copies, the
  object is formatted for the message, and the exception takes over the copy of the pointer.
\<close>

definition new_server_exception :: "(u64 \<Rightarrow> string) \<Rightarrow> nat \<Rightarrow> nat \<Rightarrow> (zone_world, mp_object owned option) action" where
  "new_server_exception sd v u w =
     (case bind_out (no_owner v w) (\<lambda>_. owner u w) of
        Ok (OwnedResult _ obj, z) \<Rightarrow>
          (case shared_copy z (heap w) of
             Ok h \<Rightarrow>
               (case bind_out (read_raw h obj) (mk_server_exception sd) of
                  Ok (ServerException e _) \<Rightarrow> (Ok None, put_owner v (OwnedServerException e obj) z h w)
                | Throw e \<Rightarrow> (case shared_drop z h of Ok h \<Rightarrow> (Throw e, w\<lparr>heap := h\<rparr>) | _ \<Rightarrow> (Undefined, w))
                | _ \<Rightarrow> (Undefined, w))
           | _ \<Rightarrow> (Undefined, w))
      | _ \<Rightarrow> (Undefined, w))"

text \<open>Reading everything an owner holds.\<close>

definition read_owner :: "nat \<Rightarrow> zone_world \<Rightarrow> (exn, mp_object owned) outcome" where
  "read_owner v w =
     bind_out (owner v w) (\<lambda>(x, _).
       if \<forall>r \<in> set_owned x. readable (heap w) r then Ok (map_owned raw_value x) else Undefined)"

section \<open>Programs\<close>

datatype zone_cmd =
    ParseInto nat mp_object
  | CopyOwner nat nat
  | MoveOwner nat nat
  | CopyAssignOwner nat nat
  | MoveAssignOwner nat nat
  | DestroyOwner nat
  | CopyResult nat nat
  | NewMethodException nat mp_object
  | NewServerException nat nat
  | ReadOwner nat

fun zone_exec :: "mp_conv \<Rightarrow> (u64 \<Rightarrow> string) \<Rightarrow> zone_cmd \<Rightarrow> (zone_world, mp_object owned option) action" where
  "zone_exec cv sd (ParseInto v obj) w = parse_into cv obj v w"
| "zone_exec cv sd (CopyOwner v u) w = as_action (owner_copy v u) w"
| "zone_exec cv sd (MoveOwner v u) w = as_action (owner_move v u) w"
| "zone_exec cv sd (CopyAssignOwner v u) w = as_action (owner_copy_assign v u) w"
| "zone_exec cv sd (MoveAssignOwner v u) w = as_action (owner_move_assign v u) w"
| "zone_exec cv sd (DestroyOwner v) w = as_action (owner_destroy v) w"
| "zone_exec cv sd (CopyResult v u) w = as_action (copy_result v u) w"
| "zone_exec cv sd (NewMethodException v obj) w = as_action (new_method_exception v obj) w"
| "zone_exec cv sd (NewServerException v u) w = new_server_exception sd v u w"
| "zone_exec cv sd (ReadOwner v) w = (bind_out (read_owner v w) (\<lambda>x. Ok (Some x)), w)"

fun zone_run where
  "zone_run cv sd [] w = ([], w)"
| "zone_run cv sd (c # cs) w =
     (let (r, w) = zone_exec cv sd c w; (rs, w) = zone_run cv sd cs w in (r # rs, w))"

text \<open>
  The same programs over values: a variable holds a value, or nothing that may be used when it was
  moved from.
\<close>

type_synonym value_store = "nat \<rightharpoonup> mp_object owned option"

definition store_value :: "nat \<Rightarrow> mp_object owned option \<Rightarrow> (value_store, mp_object owned option) action" where
  "store_value v x a = (Ok None, a(v \<mapsto> x))"

fun value_exec :: "mp_conv \<Rightarrow> (u64 \<Rightarrow> string) \<Rightarrow> zone_cmd \<Rightarrow> (value_store, mp_object owned option) action" where
  "value_exec cv sd (ParseInto v obj) a =
     (case parse_message_from_object cv obj of
        Ok m \<Rightarrow> store_value v (Some (owned_message (\<lambda>x. x) m)) a | Throw e \<Rightarrow> (Throw e, a) | Undefined \<Rightarrow> (Undefined, a))"
| "value_exec cv sd (CopyOwner v u) a = store_value v (the (a u)) a"
| "value_exec cv sd (MoveOwner v u) a = store_value v (the (a u)) (a(u \<mapsto> None))"
| "value_exec cv sd (CopyAssignOwner v u) a = store_value v (the (a u)) a"
| "value_exec cv sd (MoveAssignOwner v u) a =
     (if v = u then (Ok None, a) else store_value v (the (a u)) (a(u \<mapsto> None)))"
| "value_exec cv sd (DestroyOwner v) a = (Ok None, a(v := None))"
| "value_exec cv sd (CopyResult v u) a =
     (case a u of Some (Some (OwnedResponse _ err obj)) \<Rightarrow> store_value v (Some (OwnedResult err obj)) a
      | _ \<Rightarrow> (Undefined, a))"
| "value_exec cv sd (NewMethodException v obj) a = store_value v (Some (OwnedMethodException obj)) a"
| "value_exec cv sd (NewServerException v u) a =
     (case a u of
        Some (Some (OwnedResult _ obj)) \<Rightarrow>
          (case mk_server_exception sd obj of
             Ok (ServerException e _) \<Rightarrow> store_value v (Some (OwnedServerException e obj)) a
           | Throw e \<Rightarrow> (Throw e, a)
           | _ \<Rightarrow> (Undefined, a))
      | _ \<Rightarrow> (Undefined, a))"
| "value_exec cv sd (ReadOwner v) a = (case a v of Some (Some x) \<Rightarrow> (Ok (Some x), a) | _ \<Rightarrow> (Undefined, a))"

fun value_run where
  "value_run cv sd [] a = ([], a)"
| "value_run cv sd (c # cs) a =
     (let (r, a) = value_exec cv sd c a; (rs, a) = value_run cv sd cs a in (r # rs, a))"

text \<open>
  What a program may do, in terms of values: construct only new variables, use only live ones, take a
  result out of a response and an error out of a result, and read only what was not moved from.
\<close>

fun value_allowed :: "zone_cmd \<Rightarrow> value_store \<Rightarrow> bool" where
  "value_allowed (ParseInto v obj) a = (a v = None)"
| "value_allowed (CopyOwner v u) a = (a v = None \<and> a u \<noteq> None)"
| "value_allowed (MoveOwner v u) a = (a v = None \<and> a u \<noteq> None)"
| "value_allowed (CopyAssignOwner v u) a = (a v \<noteq> None \<and> a u \<noteq> None)"
| "value_allowed (MoveAssignOwner v u) a = (a v \<noteq> None \<and> a u \<noteq> None)"
| "value_allowed (DestroyOwner v) a = (a v \<noteq> None)"
| "value_allowed (CopyResult v u) a =
     (a v = None \<and> (case a u of Some (Some (OwnedResponse _ _ _)) \<Rightarrow> True | _ \<Rightarrow> False))"
| "value_allowed (NewMethodException v obj) a = (a v = None)"
| "value_allowed (NewServerException v u) a =
     (a v = None \<and> (case a u of Some (Some (OwnedResult _ _)) \<Rightarrow> True | _ \<Rightarrow> False))"
| "value_allowed (ReadOwner v) a = (case a v of Some (Some _) \<Rightarrow> True | _ \<Rightarrow> False)"

fun program_allowed :: "mp_conv \<Rightarrow> (u64 \<Rightarrow> string) \<Rightarrow> zone_cmd list \<Rightarrow> value_store \<Rightarrow> bool" where
  "program_allowed cv sd [] a = True"
| "program_allowed cv sd (c # cs) a \<longleftrightarrow> value_allowed c a \<and> program_allowed cv sd cs (snd (value_exec cv sd c a))"

section \<open>Shared pointers keep the counts exact\<close>

definition heap_ok :: "zone_heap \<Rightarrow> (nat, nat) handles \<Rightarrow> bool" where
  "heap_ok h vs \<longleftrightarrow> zone_ptr.consistent h vs \<and> (\<forall>z \<ge> next_zone h. zones h z = None)"

lemma make_zone_ok:
  assumes "heap_ok h vs" and "vs v = None" and "make_zone h = (z, h')"
  shows "heap_ok h' (vs(v \<mapsto> Some z))" "zones h' z \<noteq> None" "zone_release z h' = Some (h\<lparr>next_zone := Suc (next_zone h)\<rparr>)"
    "heap_ok (h\<lparr>next_zone := Suc (next_zone h)\<rparr>) vs"
proof -
  have z: "z = next_zone h" "zones h' = (zones h)(z \<mapsto> Suc 0)" "next_zone h' = Suc (next_zone h)" "zones h z = None"
    using assms by (auto simp: make_zone_def heap_ok_def)
  have "zone_ptr.consistent h' (vs(v \<mapsto> Some z))"
    using assms z by (intro zone_ptr.fresh_consistent [of h]) (simp_all add: heap_ok_def)
  then show "heap_ok h' (vs(v \<mapsto> Some z))" using assms(1) z by (simp add: heap_ok_def)
  show "zones h' z \<noteq> None" by (simp add: z)
  have "(zones h)(next_zone h := None) = zones h" using z by (simp add: fun_upd_idem)
  then show "zone_release z h' = Some (h\<lparr>next_zone := Suc (next_zone h)\<rparr>)"
    using z assms(3) by (auto simp: zone_release_def make_zone_def)
  show "heap_ok (h\<lparr>next_zone := Suc (next_zone h)\<rparr>) vs"
    using assms(1) unfolding heap_ok_def by (auto intro: zone_ptr.same_counts_consistent)
qed

lemma shared_copy_ok:
  assumes ok: "heap_ok h vs" and u: "vs u = Some x" and v: "vs v = None \<or> vs v = Some None"
  shows "\<exists>h'. shared_copy x h = Ok h' \<and> heap_ok h' (vs(v \<mapsto> x))"
proof (cases x)
  case None
  then show ?thesis using ok v zone_ptr.null_consistent [of h vs v "Some None"]
    by (simp add: shared_copy_def heap_ok_def)
next
  case (Some z)
  then obtain h' where h': "zone_acquire z h = Some h'" "zone_ptr.consistent h' (vs(v \<mapsto> Some z))"
    using zone_ptr.copy_consistent [of h vs u z v] ok u v by (auto simp: heap_ok_def)
  then show ?thesis using ok Some by (auto simp: shared_copy_def heap_ok_def zone_acquire_def)
qed

lemma shared_drop_ok:
  assumes ok: "heap_ok h vs" and v: "vs v = Some x" and y: "y = None \<or> y = Some None"
  shows "\<exists>h'. shared_drop x h = Ok h' \<and> heap_ok h' (vs(v := y))"
proof (cases x)
  case None
  then show ?thesis using ok v y zone_ptr.null_consistent [of h vs v y] by (simp add: shared_drop_def heap_ok_def)
next
  case (Some z)
  then obtain h' where h': "zone_release z h = Some h'" "zone_ptr.consistent h' (vs(v := y))"
    using zone_ptr.drop_consistent [of h vs v z y] ok v y by (auto simp: heap_ok_def)
  then show ?thesis using ok Some by (auto simp: shared_drop_def heap_ok_def zone_release_def)
qed

lemma shared_move_ok:
  assumes ok: "heap_ok h vs" and u: "vs u = Some x" and v: "vs v = None \<or> vs v = Some None" and uv: "u \<noteq> v"
  shows "heap_ok h (vs(u \<mapsto> None, v \<mapsto> x))"
proof -
  have "zone_ptr.consistent h (vs(v \<mapsto> None))"
    using ok v by (intro zone_ptr.null_consistent) (auto simp: heap_ok_def)
  from zone_ptr.swap_consistent [OF this, of v None u x] u uv
  have "zone_ptr.consistent h (vs(v \<mapsto> x, u \<mapsto> None))" by simp
  then show ?thesis using ok uv by (simp add: heap_ok_def fun_upd_twist)
qed

text \<open>Copy assignment: the copy is made in a temporary, swapped in, and the old pointer dropped.\<close>

lemma shared_assign_ok:
  assumes ok: "heap_ok h vs" and u: "vs u = Some x" and v: "vs v = Some old"
  shows "\<exists>h1 h2. shared_copy x h = Ok h1 \<and> shared_drop old h1 = Ok h2 \<and> heap_ok h2 (vs(v \<mapsto> x))"
proof -
  have "finite (dom vs)" using ok by (simp add: heap_ok_def zone_ptr.consistent_def)
  then obtain t where t: "t \<notin> dom vs" using ex_new_if_finite infinite_UNIV_nat by blast
  then have vt: "v \<noteq> t" using v by auto
  obtain h1 where h1: "shared_copy x h = Ok h1" "heap_ok h1 (vs(t \<mapsto> x))"
    using shared_copy_ok [OF ok u, of t] t by (auto simp: domIff)
  have "heap_ok h1 (vs(t \<mapsto> x, t \<mapsto> old, v \<mapsto> x))"
    using h1(2) zone_ptr.swap_consistent [of h1 "vs(t \<mapsto> x)" t x v old] v vt by (simp add: heap_ok_def)
  then have "heap_ok h1 (vs(v \<mapsto> x, t \<mapsto> old))" using vt by (simp add: fun_upd_twist)
  from shared_drop_ok [OF this, of t old None] obtain h2 where
    "shared_drop old h1 = Ok h2" "heap_ok h2 ((vs(v \<mapsto> x, t \<mapsto> old))(t := None))" by auto
  moreover have "(vs(v \<mapsto> x, t \<mapsto> old))(t := None) = vs(v \<mapsto> x)" using t vt by (auto simp: fun_eq_iff)
  ultimately show ?thesis using h1(1) by auto
qed

section \<open>Refinement\<close>

text \<open>
  A variable with a pointer shows the value it stands for, and its objects are in the zone it points to;
  one that was moved from has no pointer.
\<close>

fun var_match :: "raw_object owned option \<Rightarrow> nat option option \<Rightarrow> mp_object owned option option \<Rightarrow> bool" where
  "var_match None None y \<longleftrightarrow> y = None"
| "var_match (Some x) (Some None) y \<longleftrightarrow> y = Some None"
| "var_match (Some x) (Some (Some z)) y \<longleftrightarrow> y = Some (Some (map_owned raw_value x)) \<and> (\<forall>r \<in> set_owned x. raw_in r = z)"
| "var_match _ _ _ \<longleftrightarrow> False"

definition zone_match :: "zone_world \<Rightarrow> value_store \<Rightarrow> bool" where
  "zone_match w a \<longleftrightarrow> heap_ok (heap w) (zone_of w) \<and> (\<forall>v. var_match (owners w v) (zone_of w v) (a v))"

lemma var_match_cases:
  assumes "var_match x p y"
  obtains (dead) "x = None" "p = None" "y = None"
    | (moved) q where "x = Some q" "p = Some None" "y = Some None"
    | (live) q z where "x = Some q" "p = Some (Some z)" "y = Some (Some (map_owned raw_value q))" "\<forall>r \<in> set_owned q. raw_in r = z"
  using assms by (cases "(x, p, y)" rule: var_match.cases) auto

lemma zone_match_var: "zone_match w a \<Longrightarrow> var_match (owners w v) (zone_of w v) (a v)"
  by (simp add: zone_match_def)

lemma no_owner_match: "zone_match w a \<Longrightarrow> no_owner v w = (if a v = None then Ok () else Undefined)"
  by (rule var_match_cases [OF zone_match_var [of w a v]]) (simp_all add: no_owner_def)

lemma owner_match:
  assumes "zone_match w a" and "a v \<noteq> None"
  obtains x p where "owner v w = Ok (x, p)" "owners w v = Some x" "zone_of w v = Some p" "var_match (Some x) (Some p) (a v)"
proof (rule var_match_cases [OF zone_match_var [OF assms(1), of v]])
qed (use assms(2) that in \<open>simp_all add: owner_def\<close>)

lemma value_owner:
  assumes "zone_match w a" and "a v = Some (Some y)"
  obtains x z where "owner v w = Ok (x, Some z)" "zone_of w v = Some (Some z)" "y = map_owned raw_value x"
    "\<forall>r \<in> set_owned x. raw_in r = z" "zones (heap w) z \<noteq> None"
proof (rule var_match_cases [OF zone_match_var [OF assms(1), of v]])
  fix x z
  assume x: "owners w v = Some x" "zone_of w v = Some (Some z)" "a v = Some (Some (map_owned raw_value x))"
      "\<forall>r \<in> set_owned x. raw_in r = z"
  have "zone_ptr.consistent (heap w) (zone_of w)" using assms(1) by (simp add: zone_match_def heap_ok_def)
  then have "zones (heap w) z \<noteq> None" using zone_ptr.consistent_live x(2) by fastforce
  then show thesis using that x assms(2) by (simp add: owner_def)
qed (use assms(2) in simp_all)

lemma zone_match_set:
  assumes "heap_ok h (zs(v := p))" and "\<And>u. u \<noteq> v \<Longrightarrow> var_match (owners w u) (zs u) (a u)" and "var_match x p y"
  shows "zone_match \<lparr>heap = h, owners = (owners w)(v := x), zone_of = zs(v := p)\<rparr> (a(v := y))"
  using assms by (simp add: zone_match_def)

lemma copy_match:
  assumes m: "zone_match w a" and v: "a v = None" and u: "a u \<noteq> None"
  shows "\<exists>w'. owner_copy v u w = Ok w' \<and> zone_match w' (a(v \<mapsto> the (a u)))"
proof -
  obtain x p where x: "owner u w = Ok (x, p)" "zone_of w u = Some p" "var_match (Some x) (Some p) (a u)"
    using owner_match [OF m u] by metis
  have "zone_of w v = None" using zone_match_var [OF m, of v] v by (auto elim: var_match_cases)
  then obtain h where h: "shared_copy p (heap w) = Ok h" "heap_ok h ((zone_of w)(v \<mapsto> p))"
    using shared_copy_ok [of "heap w" "zone_of w" u p v] m x(2) by (auto simp: zone_match_def)
  have "zone_match (put_owner v x p h w) (a(v \<mapsto> the (a u)))"
    unfolding put_owner_def using h(2) x(3) zone_match_var [OF m] u by (intro zone_match_set) auto
  then show ?thesis using h(1) x(1) v no_owner_match [OF m, of v] by (simp add: owner_copy_def)
qed

lemma move_match:
  assumes m: "zone_match w a" and v: "a v = None" and u: "a u \<noteq> None"
  shows "\<exists>w'. owner_move v u w = Ok w' \<and> zone_match w' (a(u \<mapsto> None, v \<mapsto> the (a u)))"
proof -
  obtain x p where x: "owner u w = Ok (x, p)" "owners w u = Some x" "zone_of w u = Some p" "var_match (Some x) (Some p) (a u)"
    using owner_match [OF m u] by blast
  have uv: "u \<noteq> v" using u v by auto
  have zv: "zone_of w v = None" using zone_match_var [OF m, of v] v by (auto elim: var_match_cases)
  let ?w = "w\<lparr>zone_of := (zone_of w)(u \<mapsto> None)\<rparr>"
  have "heap_ok (heap w) ((zone_of w)(u \<mapsto> None, v \<mapsto> p))"
    using shared_move_ok [of "heap w" "zone_of w" u p v] m x(3) zv uv by (simp add: zone_match_def)
  then have "zone_match \<lparr>heap = heap w, owners = (owners w)(v \<mapsto> x), zone_of = (zone_of w)(u \<mapsto> None, v \<mapsto> p)\<rparr>
      (a(u \<mapsto> None, v \<mapsto> the (a u)))"
    by (rule zone_match_set) (use x zone_match_var [OF m] u uv in auto)
  then have "zone_match (put_owner v x p (heap w) ?w) (a(u \<mapsto> None, v \<mapsto> the (a u)))" by (simp add: put_owner_def)
  then show ?thesis using x(1) v no_owner_match [OF m, of v] by (simp add: owner_move_def)
qed

lemma copy_assign_match:
  assumes m: "zone_match w a" and v: "a v \<noteq> None" and u: "a u \<noteq> None"
  shows "\<exists>w'. owner_copy_assign v u w = Ok w' \<and> zone_match w' (a(v \<mapsto> the (a u)))"
proof -
  obtain x p where x: "owner u w = Ok (x, p)" "zone_of w u = Some p" "var_match (Some x) (Some p) (a u)"
    using owner_match [OF m u] by metis
  obtain y old where y: "owner v w = Ok (y, old)" "zone_of w v = Some old" using owner_match [OF m v] by metis
  obtain h1 h2 where h: "shared_copy p (heap w) = Ok h1" "shared_drop old h1 = Ok h2" "heap_ok h2 ((zone_of w)(v \<mapsto> p))"
    using shared_assign_ok [of "heap w" "zone_of w" u p v old] m x(2) y(2) by (auto simp: zone_match_def)
  have "zone_match (put_owner v x p h2 w) (a(v \<mapsto> the (a u)))"
    unfolding put_owner_def using h(3) x(3) zone_match_var [OF m] u by (intro zone_match_set) auto
  then show ?thesis using h(1,2) x(1) y(1) by (simp add: owner_copy_assign_def)
qed

lemma move_assign_match:
  assumes m: "zone_match w a" and v: "a v \<noteq> None" and u: "a u \<noteq> None" and uv: "v \<noteq> u"
  shows "\<exists>w'. owner_move_assign v u w = Ok w' \<and> zone_match w' (a(u \<mapsto> None, v \<mapsto> the (a u)))"
proof -
  obtain x p where x: "owner u w = Ok (x, p)" "owners w u = Some x" "zone_of w u = Some p" "var_match (Some x) (Some p) (a u)"
    using owner_match [OF m u] by blast
  obtain y old where y: "owner v w = Ok (y, old)" "zone_of w v = Some old" using owner_match [OF m v] by metis
  let ?w = "w\<lparr>zone_of := (zone_of w)(u \<mapsto> None)\<rparr>"
  obtain h where h: "shared_drop old (heap w) = Ok h" "heap_ok h ((zone_of w)(v \<mapsto> None))"
    using shared_drop_ok [of "heap w" "zone_of w" v old "Some None"] m y(2) by (auto simp: zone_match_def)
  have "heap_ok h ((zone_of w)(v \<mapsto> None, u \<mapsto> None, v \<mapsto> p))"
    using shared_move_ok [OF h(2), of u p v] x(3) uv by simp
  then have "heap_ok h ((zone_of w)(u \<mapsto> None, v \<mapsto> p))" by (simp add: fun_upd_twist uv)
  then have "zone_match \<lparr>heap = h, owners = (owners w)(v \<mapsto> x), zone_of = (zone_of w)(u \<mapsto> None, v \<mapsto> p)\<rparr>
      (a(u \<mapsto> None, v \<mapsto> the (a u)))"
    by (rule zone_match_set) (use x zone_match_var [OF m] u uv in auto)
  then have "zone_match (put_owner v x p h ?w) (a(u \<mapsto> None, v \<mapsto> the (a u)))" by (simp add: put_owner_def)
  then show ?thesis using x(1) y(1) uv h(1) by (simp add: owner_move_assign_def)
qed

lemma destroy_match:
  assumes m: "zone_match w a" and v: "a v \<noteq> None"
  shows "\<exists>w'. owner_destroy v w = Ok w' \<and> zone_match w' (a(v := None))"
proof -
  obtain y old where y: "owner v w = Ok (y, old)" "zone_of w v = Some old" using owner_match [OF m v] by metis
  obtain h where h: "shared_drop old (heap w) = Ok h" "heap_ok h ((zone_of w)(v := None))"
    using shared_drop_ok [of "heap w" "zone_of w" v old None] m y(2) by (auto simp: zone_match_def)
  have "zone_match \<lparr>heap = h, owners = (owners w)(v := None), zone_of = (zone_of w)(v := None)\<rparr> (a(v := None))"
    using h(2) zone_match_var [OF m] by (intro zone_match_set) auto
  then show ?thesis using h(1) y(1) by (simp add: owner_destroy_def)
qed

lemma fresh_match:
  assumes m: "zone_match w a" and v: "a v = None" and z: "make_zone (heap w) = (z, h)"
    and x: "\<forall>r \<in> set_owned x. raw_in r = z"
  shows "zone_match (put_owner v x (Some z) h w) (a(v \<mapsto> Some (map_owned raw_value x)))"
proof -
  have "zone_of w v = None" using zone_match_var [OF m, of v] v by (auto elim: var_match_cases)
  then have "heap_ok h ((zone_of w)(v \<mapsto> Some z))" using make_zone_ok(1) [OF _ _ z] m by (simp add: zone_match_def)
  then show ?thesis unfolding put_owner_def using zone_match_var [OF m] x by (intro zone_match_set) auto
qed

lemma owned_message_raw:
  "set_owned (owned_message (\<lambda>x. \<lparr>raw_value = x, raw_in = z\<rparr>) m) \<subseteq> {r. raw_in r = z}"
  "map_owned raw_value (owned_message (\<lambda>x. \<lparr>raw_value = x, raw_in = z\<rparr>) m) = owned_message (\<lambda>x. x) m"
  by (cases m; auto)+

text \<open>One command: the same outcome, and the variables still show their values.\<close>

definition same_step where
  "same_step cv sd c w a \<longleftrightarrow> fst (zone_exec cv sd c w) = fst (value_exec cv sd c a) \<and> fst (value_exec cv sd c a) \<noteq> Undefined \<and>
     zone_match (snd (zone_exec cv sd c w)) (snd (value_exec cv sd c a))"

lemma heap_only_match:
  "zone_match w a \<Longrightarrow> heap_ok h (zone_of w) \<Longrightarrow> zone_match (w\<lparr>heap := h\<rparr>) a"
  by (simp add: zone_match_def)

lemma parse_match:
  assumes m: "zone_match w a" and v: "a v = None"
  shows "same_step cv sd (ParseInto v obj) w a"
proof -
  obtain z h where z: "make_zone (heap w) = (z, h)" by fastforce
  have zv: "zone_of w v = None" using zone_match_var [OF m, of v] v by (auto elim: var_match_cases)
  have ok: "heap_ok (heap w) (zone_of w)" using m by (simp add: zone_match_def)
  note mz = make_zone_ok [OF ok zv z]
  have read: "read_raw h \<lparr>raw_value = obj, raw_in = z\<rparr> = Ok obj" using mz(2) by (simp add: read_raw_def readable_def)
  have new: "no_owner v w = Ok ()" using no_owner_match [OF m] v by simp
  show ?thesis
  proof (cases "parse_message_from_object cv obj")
    case (Ok msg)
    then show ?thesis
      using fresh_match [OF m v z, of "owned_message (\<lambda>x. \<lparr>raw_value = x, raw_in = z\<rparr>) msg"] owned_message_raw [of z msg]
      by (auto simp: same_step_def parse_into_def z new read store_value_def)
  next
    case (Throw e)
    have "shared_drop (Some z) h = Ok ((heap w)\<lparr>next_zone := Suc (next_zone (heap w))\<rparr>)"
      by (simp add: shared_drop_def mz(3))
    then show ?thesis using heap_only_match [OF m mz(4)] Throw
      by (simp add: same_step_def parse_into_def z new read)
  next
    case Undefined
    then show ?thesis using parse_message_outcome [of cv obj] by (simp add: message_outcome_def)
  qed
qed

lemma copy_result_match:
  assumes m: "zone_match w a" and v: "a v = None" and u: "a u = Some (Some (OwnedResponse i err y))"
  shows "same_step cv sd (CopyResult v u) w a"
proof -
  obtain x z where x: "owner u w = Ok (x, Some z)" "zone_of w u = Some (Some z)"
      "OwnedResponse i err y = map_owned raw_value x" "\<forall>r \<in> set_owned x. raw_in r = z"
    using value_owner [OF m u] by metis
  then obtain obj where obj: "x = OwnedResponse i err obj" "raw_value obj = y" "raw_in obj = z" by (cases x) auto
  have zv: "zone_of w v = None" using zone_match_var [OF m, of v] v by (auto elim: var_match_cases)
  then obtain h where h: "shared_copy (Some z) (heap w) = Ok h" "heap_ok h ((zone_of w)(v \<mapsto> Some z))"
    using shared_copy_ok [of "heap w" "zone_of w" u "Some z" v] m x(2) by (auto simp: zone_match_def)
  have "zone_match (put_owner v (OwnedResult err obj) (Some z) h w) (a(v \<mapsto> Some (OwnedResult err y)))"
    unfolding put_owner_def using h(2) obj(2,3) zone_match_var [OF m] by (intro zone_match_set) auto
  then show ?thesis using h(1) x(1) obj v no_owner_match [OF m, of v] u
    by (simp add: same_step_def copy_result_def as_action_def store_value_def)
qed

lemma server_exception_match:
  assumes m: "zone_match w a" and v: "a v = None" and u: "a u = Some (Some (OwnedResult err y))"
  shows "same_step cv sd (NewServerException v u) w a"
proof -
  obtain x z where x: "owner u w = Ok (x, Some z)" "zone_of w u = Some (Some z)"
      "OwnedResult err y = map_owned raw_value x" "\<forall>r \<in> set_owned x. raw_in r = z"
    using value_owner [OF m u] by metis
  then obtain obj where obj: "x = OwnedResult err obj" "raw_value obj = y" "raw_in obj = z" by (cases x) auto
  have zv: "zone_of w v = None" using zone_match_var [OF m, of v] v by (auto elim: var_match_cases)
  then obtain h where h: "shared_copy (Some z) (heap w) = Ok h" "heap_ok h ((zone_of w)(v \<mapsto> Some z))"
    using shared_copy_ok [of "heap w" "zone_of w" u "Some z" v] m x(2) by (auto simp: zone_match_def)
  have zv': "(zone_of w)(v := None) = zone_of w" using zv by (simp add: fun_upd_idem)
  obtain h' where h': "shared_drop (Some z) h = Ok h'" "heap_ok h' (zone_of w)"
    using shared_drop_ok [OF h(2), of v "Some z" None] zv' by auto
  have "zones h z \<noteq> None" using zone_ptr.consistent_live [of h "(zone_of w)(v \<mapsto> Some z)" v z] h(2) by (simp add: heap_ok_def)
  then have read: "read_raw h obj = Ok y" using obj by (simp add: read_raw_def readable_def)
  have new: "no_owner v w = Ok ()" using no_owner_match [OF m] v by simp
  note start = new x(1) obj(1) h(1) read u
  show ?thesis
  proof (cases "well_typed y")
    case True
    let ?e = "mk_rpc_exception SERVER_ERROR (''An error in a server: '' @ render sd y)"
    have mk: "mk_server_exception sd y = Ok (ServerException ?e y)" using True
      by (simp add: mk_server_exception_def format_to_string_render)
    have "zone_match (put_owner v (OwnedServerException ?e obj) (Some z) h w) (a(v \<mapsto> Some (OwnedServerException ?e y)))"
      unfolding put_owner_def using h(2) obj(2,3) zone_match_var [OF m] by (intro zone_match_set) auto
    then show ?thesis by (simp add: same_step_def new_server_exception_def start mk store_value_def)
  next
    case False
    have mk: "mk_server_exception sd y = throw_rpc INVALID_ARGUMENT ''Invalid message type.''" using False
      by (simp add: mk_server_exception_def format_to_string_render)
    show ?thesis using heap_only_match [OF m h'(2)]
      by (simp add: same_step_def new_server_exception_def start mk h'(1))
  qed
qed

lemma read_match:
  assumes m: "zone_match w a" and v: "a v = Some (Some y)"
  shows "same_step cv sd (ReadOwner v) w a"
proof -
  obtain x z where x: "owner v w = Ok (x, Some z)" "y = map_owned raw_value x"
    "\<forall>r \<in> set_owned x. raw_in r = z" "zones (heap w) z \<noteq> None"
    using value_owner [OF m v] by metis
  then have "read_owner v w = Ok y" by (simp add: read_owner_def readable_def)
  then show ?thesis using m v by (simp add: same_step_def)
qed

lemma zone_exec_match:
  assumes m: "zone_match w a" and ok: "value_allowed c a"
  shows "same_step cv sd c w a"
proof (cases c)
  case (ParseInto v obj)
  then show ?thesis using parse_match [OF m] ok by simp
next
  case (CopyOwner v u)
  then show ?thesis using copy_match [OF m, of v u] ok by (auto simp: same_step_def as_action_def store_value_def)
next
  case (MoveOwner v u)
  then show ?thesis using move_match [OF m, of v u] ok by (auto simp: same_step_def as_action_def store_value_def)
next
  case (CopyAssignOwner v u)
  then show ?thesis using copy_assign_match [OF m, of v u] ok by (auto simp: same_step_def as_action_def store_value_def)
next
  case (MoveAssignOwner v u)
  show ?thesis
  proof (cases "v = u")
    case True
    have "a v \<noteq> None" using ok MoveAssignOwner by simp
    from owner_match [OF m this] obtain y p where "owner v w = Ok (y, p)" by blast
    then show ?thesis using MoveAssignOwner True m by (simp add: same_step_def as_action_def owner_move_assign_def)
  next
    case False
    then show ?thesis using MoveAssignOwner move_assign_match [OF m, of v u] ok
      by (auto simp: same_step_def as_action_def store_value_def)
  qed
next
  case (DestroyOwner v)
  then show ?thesis using destroy_match [OF m, of v] ok by (auto simp: same_step_def as_action_def)
next
  case (CopyResult v u)
  then show ?thesis using copy_result_match [OF m] ok by (auto split: option.splits owned.splits)
next
  case (NewMethodException v obj)
  obtain z h where z: "make_zone (heap w) = (z, h)" by fastforce
  show ?thesis using fresh_match [OF m _ z, of v "OwnedMethodException \<lparr>raw_value = obj, raw_in = z\<rparr>"]
      NewMethodException ok no_owner_match [OF m, of v] z
    by (simp add: same_step_def as_action_def new_method_exception_def store_value_def)
next
  case (NewServerException v u)
  then show ?thesis using server_exception_match [OF m] ok by (auto split: option.splits owned.splits)
next
  case (ReadOwner v)
  then show ?thesis using read_match [OF m] ok by (auto split: option.splits)
qed

lemma zone_run_match:
  "zone_match w a \<Longrightarrow> program_allowed cv sd cs a \<Longrightarrow>
     fst (zone_run cv sd cs w) = fst (value_run cv sd cs a) \<and> Undefined \<notin> set (fst (value_run cv sd cs a)) \<and>
     zone_match (snd (zone_run cv sd cs w)) (snd (value_run cv sd cs a))"
proof (induction cs arbitrary: w a)
  case Nil
  then show ?case by simp
next
  case (Cons c cs)
  obtain r w1 where w1: "zone_exec cv sd c w = (r, w1)" by fastforce
  obtain q a1 where a1: "value_exec cv sd c a = (q, a1)" by fastforce
  have s: "r = q" "q \<noteq> Undefined" "zone_match w1 a1" using zone_exec_match [OF Cons.prems(1), of c cv sd] Cons.prems(2)
    by (simp_all add: same_step_def w1 a1)
  have "program_allowed cv sd cs a1" using Cons.prems(2) by (simp add: a1)
  then show ?case using Cons.IH [OF s(3)] s(1,2) by (simp add: w1 a1 split_beta)
qed

lemma empty_match: "zone_match empty_world Map.empty"
  by (simp add: zone_match_def empty_world_def heap_ok_def zone_ptr.consistent_def handle_count_def)

section \<open>Properties\<close>

text \<open>
  C17. The owners of objects behave like values. A program that parses messages, copies, moves, assigns and
  destroys messages, results and exceptions in any order, and reads only what it has not moved
  from, sees at every step the same outcome as the same program over values: no object is read
  after its zone is gone. At the end every zone is in memory exactly while a variable points to it and its
  use count is the number of those variables, so nothing leaks, and every object or view of a name
  that was taken out of a variable can be read exactly while such a variable is left.
\<close>

theorem owners_behave_like_values:
  assumes "program_allowed cv sd cs Map.empty"
  shows "fst (zone_run cv sd cs empty_world) = fst (value_run cv sd cs Map.empty) \<and>
    Undefined \<notin> set (fst (zone_run cv sd cs empty_world)) \<and>
    (let w = snd (zone_run cv sd cs empty_world) in
      (\<forall>z. zones (heap w) z = (if handle_count (zone_of w) z = 0 then None else Some (handle_count (zone_of w) z))) \<and>
      (\<forall>r. readable (heap w) r \<longleftrightarrow>
         (follows_pointer (raw_value r) \<longrightarrow> (\<exists>v. zone_of w v = Some (Some (raw_in r))))))"
proof -
  note run = zone_run_match [OF empty_match assms]
  let ?w = "snd (zone_run cv sd cs empty_world)"
  have c: "zone_ptr.consistent (heap ?w) (zone_of ?w)" using run by (simp add: zone_match_def heap_ok_def)
  then have "\<forall>z. zones (heap ?w) z = (if handle_count (zone_of ?w) z = 0 then None else Some (handle_count (zone_of ?w) z))"
    by (simp add: zone_ptr.consistent_def)
  moreover have "readable (heap ?w) r \<longleftrightarrow>
      (follows_pointer (raw_value r) \<longrightarrow> (\<exists>v. zone_of ?w v = Some (Some (raw_in r))))" for r
    using zone_ptr.consistent_freed [OF c, of "raw_in r"] by (auto simp: readable_def)
  ultimately show ?thesis using run by (simp add: Let_def)
qed

text \<open>An error response: the exception of the user outlives the message, the future and the result.\<close>

definition error_program :: "zone_cmd list" where
  "error_program =
     [ParseInto 0 (MArray [MPosInt 1, MPosInt 5, MStr ''no'', MNil]), CopyResult 1 0, DestroyOwner 0, CopyOwner 2 1,
      NewServerException 3 2, DestroyOwner 2, DestroyOwner 1, ReadOwner 3]"

theorem owners_behave_like_values_witness:
  "program_allowed ref_conv (\<lambda>_. ''0'') error_program Map.empty \<and>
   last (fst (zone_run ref_conv (\<lambda>_. ''0'') error_program empty_world)) =
     Ok (Some (OwnedServerException (mk_rpc_exception SERVER_ERROR (''An error in a server: '' @ render (\<lambda>_. ''0'') (MStr ''no'')))
       (MStr ''no'')))"
proof -
  let ?sd = "\<lambda>_. ''0''"
  have parse: "parse_message_from_object ref_conv (MArray [MPosInt 1, MPosInt 5, MStr ''no'', MNil]) =
      Ok (PResponse \<lparr>resp_id = 5, resp_result = create_error (MStr ''no'')\<rparr>)"
    unfolding parse_message_Ok_iff create_error_def by (rule error_form) (simp_all add: ref_conv_def)
  have mk: "mk_server_exception ?sd (MStr ''no'') = Ok (ServerException
      (mk_rpc_exception SERVER_ERROR (''An error in a server: '' @ render ?sd (MStr ''no''))) (MStr ''no''))"
    by (simp add: mk_server_exception_def format_to_string_render)
  have ok: "program_allowed ref_conv ?sd error_program Map.empty"
    by (simp add: error_program_def parse mk store_value_def create_error_def)
  have "last (fst (value_run ref_conv ?sd error_program Map.empty)) = Ok (Some (OwnedServerException
      (mk_rpc_exception SERVER_ERROR (''An error in a server: '' @ render ?sd (MStr ''no''))) (MStr ''no'')))"
    by (simp add: error_program_def parse mk store_value_def create_error_def)
  with ok owners_behave_like_values [OF ok] show ?thesis by simp
qed

text \<open>
  What was moved from keeps its object but not the zone: reading it is defined only while another
  owner of the zone is left.
\<close>

theorem moved_from_owner_dangles:
  "map is_ok (fst (zone_run cv sd [NewMethodException 0 (MStr ''no''), MoveOwner 1 0, ReadOwner 0, DestroyOwner 1, ReadOwner 0] empty_world)) =
     [True, True, True, True, False]"
  by (simp add: empty_world_def as_action_def new_method_exception_def no_owner_def make_zone_def put_owner_def owner_move_def
      owner_def read_owner_def readable_def owner_destroy_def shared_drop_def zone_release_def)

end
