(* ===== verification/Future_Wait.thy ===== *)
theory Future_Wait
  imports Client_Calls
begin

text \<open>
  Threads that wait for a future while others set it (\<open>clients/impl/call_future_impl.h\<close>), with the mutex and
  the condition variable. \<open>Client_Calls\<close> has the functions on the state of the future, and describes a
  waiting thread by what it sees at its wake-ups. Here the threads take the lock, sleep, notify and
  time out step by step, and that description is proved.

  \<open>wait_until\<close> of a condition variable with a predicate tests the predicate under the lock, releases the
  lock and sleeps in one step, and takes the lock again when it was notified, when the deadline has passed
  or for no reason; after a timeout the predicate is tested a last time.
\<close>

section \<open>Threads\<close>

text \<open>
  Where a thread in \<open>get_result\<close> is: before it takes the lock, in the test of the predicate with the lock
  (both with whether it has timed out), asleep, back from the wait without the lock, at the end.
\<close>

datatype wait_point =
    ToLock bool
  | Checking bool
  | Asleep
  | Reading
  | Finished "(exn, call_result) outcome"

text \<open>
  Where a thread in \<open>set\<close> is: before it takes the lock, in the test of \<open>is_set_\<close>, after the result or the
  status was written, after \<open>is_set_\<close> was, after the lock was released, at the end.
\<close>

datatype set_point =
    SetToLock "call_result + status"
  | SetChecking "call_result + status"
  | SetWritten
  | SetFlagged
  | SetNotifying
  | SetFinished "(exn, unit) outcome"

datatype future_thread = WaitThread nat | SetThread nat

text \<open>A waiting thread comes with its deadline.\<close>

record future_world =
  fw_future :: call_future
  fw_lock :: "future_thread option"
  fw_waiters :: "nat \<rightharpoonup> int \<times> wait_point"
  fw_setters :: "nat \<rightharpoonup> set_point"
  fw_clock :: int

definition move_waiter :: "nat \<Rightarrow> int \<Rightarrow> wait_point \<Rightarrow> future_thread option \<Rightarrow> future_world \<Rightarrow> future_world" where
  "move_waiter i d p lock w = w\<lparr>fw_lock := lock, fw_waiters := (fw_waiters w)(i \<mapsto> (d, p))\<rparr>"

definition move_setter :: "nat \<Rightarrow> set_point \<Rightarrow> future_thread option \<Rightarrow> call_future \<Rightarrow> future_world \<Rightarrow> future_world" where
  "move_setter i p lock f w = w\<lparr>fw_future := f, fw_lock := lock, fw_setters := (fw_setters w)(i \<mapsto> p)\<rparr>"

text \<open>The next step of a thread, when it has one.\<close>

fun waiter_moves :: "nat \<Rightarrow> int \<times> wait_point \<Rightarrow> future_world \<Rightarrow> future_world option" where
  "waiter_moves i (d, ToLock out) w =
     (if fw_lock w = None then Some (move_waiter i d (Checking out) (Some (WaitThread i)) w) else None)"
| "waiter_moves i (d, Checking out) w =
     Some (move_waiter i d
       (if fut_set (fw_future w) then Reading else if out then Finished (throw_rpc TIMEOUT timeout_message) else Asleep)
       None w)"
| "waiter_moves i (d, Asleep) w = None"
| "waiter_moves i (d, Reading) w = Some (move_waiter i d (Finished (get_result_impl (fw_future w))) (fw_lock w) w)"
| "waiter_moves i (d, Finished r) w = None"

definition wake_all :: "(nat \<rightharpoonup> int \<times> wait_point) \<Rightarrow> (nat \<rightharpoonup> int \<times> wait_point)" where
  "wake_all ws i = map_option (\<lambda>(d, p). (d, if p = Asleep then ToLock False else p)) (ws i)"

fun setter_moves :: "nat \<Rightarrow> set_point \<Rightarrow> future_world \<Rightarrow> future_world option" where
  "setter_moves i (SetToLock x) w =
     (if fw_lock w = None then Some (move_setter i (SetChecking x) (Some (SetThread i)) (fw_future w) w) else None)"
| "setter_moves i (SetChecking x) w =
     (let f = fw_future w
      in if fut_set f then Some (move_setter i (SetFinished (Ok ())) None f w)
         else case x of
           Inl r \<Rightarrow> Some (move_setter i SetWritten (fw_lock w) (f\<lparr>fut_result := Some r\<rparr>) w)
         | Inr e \<Rightarrow>
             if code_of e = SUCCESS
             then Some (move_setter i (SetFinished (throw_rpc INVALID_ARGUMENT ''Invalid error status.'')) None f w)
             else Some (move_setter i SetWritten (fw_lock w) (f\<lparr>fut_status := e\<rparr>) w))"
| "setter_moves i SetWritten w = Some (move_setter i SetFlagged (fw_lock w) ((fw_future w)\<lparr>fut_set := True\<rparr>) w)"
| "setter_moves i SetFlagged w = Some (move_setter i SetNotifying None (fw_future w) w)"
| "setter_moves i SetNotifying w =
     Some (move_setter i (SetFinished (Ok ())) (fw_lock w) (fw_future w) (w\<lparr>fw_waiters := wake_all (fw_waiters w)\<rparr>))"
| "setter_moves i (SetFinished r) w = None"

text \<open>
  A thread calls \<open>get_result\<close> or \<open>set\<close>, moves, wakes up for no reason or because of its deadline, and time
  passes.
\<close>

inductive future_step :: "future_world \<Rightarrow> future_world \<Rightarrow> bool" where
  get: "fw_waiters w i = None \<Longrightarrow> future_step w (move_waiter i d (ToLock False) (fw_lock w) w)"
| set: "fw_setters w i = None \<Longrightarrow> future_step w (move_setter i (SetToLock x) (fw_lock w) (fw_future w) w)"
| waiter: "fw_waiters w i = Some p \<Longrightarrow> waiter_moves i p w = Some w' \<Longrightarrow> future_step w w'"
| setter: "fw_setters w i = Some p \<Longrightarrow> setter_moves i p w = Some w' \<Longrightarrow> future_step w w'"
| spurious: "fw_waiters w i = Some (d, Asleep) \<Longrightarrow> future_step w (move_waiter i d (ToLock False) (fw_lock w) w)"
| timeout: "fw_waiters w i = Some (d, Asleep) \<Longrightarrow> d \<le> fw_clock w \<Longrightarrow>
    future_step w (move_waiter i d (ToLock True) (fw_lock w) w)"
| time: "fw_clock w \<le> t \<Longrightarrow> future_step w (w\<lparr>fw_clock := t\<rparr>)"

definition future_init :: "future_world \<Rightarrow> bool" where
  "future_init w \<longleftrightarrow> (\<exists>d now. w = \<lparr>fw_future = mk_future d, fw_lock = None, fw_waiters = Map.empty,
     fw_setters = Map.empty, fw_clock = now\<rparr>)"

text \<open>A setter alone does what \<open>set_result\<close> and \<open>set_error\<close> say.\<close>

fun setter_run :: "nat \<Rightarrow> nat \<Rightarrow> future_world \<Rightarrow> future_world" where
  "setter_run 0 i w = w"
| "setter_run (Suc n) i w =
     (case Option.bind (fw_setters w i) (\<lambda>p. setter_moves i p w) of None \<Rightarrow> w | Some w' \<Rightarrow> setter_run n i w')"

lemma setter_alone:
  assumes "fw_lock w = None" "fw_setters w i = Some (SetToLock x)"
  shows "(case x of Inl r \<Rightarrow> fw_future (setter_run 5 i w) = set_result r (fw_future w) \<and>
        fw_setters (setter_run 5 i w) i = Some (SetFinished (Ok ()))
     | Inr e \<Rightarrow> (case set_error e (fw_future w) of
          Ok f \<Rightarrow> fw_future (setter_run 5 i w) = f \<and> fw_setters (setter_run 5 i w) i = Some (SetFinished (Ok ()))
        | Throw x \<Rightarrow> fw_future (setter_run 5 i w) = fw_future w \<and> fw_setters (setter_run 5 i w) i = Some (SetFinished (Throw x))
        | Undefined \<Rightarrow> False))"
proof (cases x)
  case (Inl r)
  then show ?thesis using assms
    by (cases "fut_set (fw_future w)") (simp_all add: numeral_eq_Suc move_setter_def set_result_def Let_def)
next
  case (Inr e)
  then show ?thesis using assms
    by (cases "fut_set (fw_future w)"; cases "code_of e = SUCCESS")
      (simp_all add: numeral_eq_Suc move_setter_def set_error_def Let_def)
qed

section \<open>Invariant\<close>

definition waiter_locks :: "(int \<times> wait_point) option \<Rightarrow> bool" where
  "waiter_locks p \<longleftrightarrow> (case p of Some (d, Checking out) \<Rightarrow> True | _ \<Rightarrow> False)"

definition setter_locks :: "set_point option \<Rightarrow> bool" where
  "setter_locks p \<longleftrightarrow> (case p of Some (SetChecking x) \<Rightarrow> True | Some SetWritten \<Rightarrow> True | Some SetFlagged \<Rightarrow> True | _ \<Rightarrow> False)"

text \<open>What a thread that is asleep, has timed out, reads or has finished relies on.\<close>

fun waiter_ok :: "future_world \<Rightarrow> int \<times> wait_point \<Rightarrow> bool" where
  "waiter_ok w (d, ToLock out) = (out \<longrightarrow> d \<le> fw_clock w)"
| "waiter_ok w (d, Checking out) = (out \<longrightarrow> d \<le> fw_clock w)"
| "waiter_ok w (d, Asleep) =
     (fut_set (fw_future w) \<longrightarrow> (\<exists>j. fw_setters w j = Some SetFlagged \<or> fw_setters w j = Some SetNotifying))"
| "waiter_ok w (d, Reading) = fut_set (fw_future w)"
| "waiter_ok w (d, Finished r) =
     (fut_set (fw_future w) \<and> r = get_result_impl (fw_future w) \<or> r = throw_rpc TIMEOUT timeout_message \<and> d \<le> fw_clock w)"

definition future_inv :: "future_world \<Rightarrow> bool" where
  "future_inv w \<longleftrightarrow>
     (\<forall>i. waiter_locks (fw_waiters w i) \<longleftrightarrow> fw_lock w = Some (WaitThread i)) \<and>
     (\<forall>i. setter_locks (fw_setters w i) \<longleftrightarrow> fw_lock w = Some (SetThread i)) \<and>
     (\<forall>i. fw_setters w i = Some SetWritten \<longrightarrow> \<not> fut_set (fw_future w)) \<and>
     (\<forall>i. fw_setters w i = Some SetFlagged \<longrightarrow> fut_set (fw_future w)) \<and>
     (\<forall>i p. fw_waiters w i = Some p \<longrightarrow> waiter_ok w p)"

lemma future_invD:
  assumes "future_inv w"
  shows "waiter_locks (fw_waiters w i) \<longleftrightarrow> fw_lock w = Some (WaitThread i)"
    "setter_locks (fw_setters w i) \<longleftrightarrow> fw_lock w = Some (SetThread i)"
    "fw_setters w i = Some SetWritten \<Longrightarrow> \<not> fut_set (fw_future w)"
    "fw_setters w i = Some SetFlagged \<Longrightarrow> fut_set (fw_future w)"
    "fw_waiters w i = Some p \<Longrightarrow> waiter_ok w p"
  using assms unfolding future_inv_def by blast+

text \<open>A step of a waiting thread leaves the future and the setters alone.\<close>

lemma waiter_ok_same:
  assumes "waiter_ok w p" "fw_future w' = fw_future w" "fw_setters w' = fw_setters w" "fw_clock w \<le> fw_clock w'"
  shows "waiter_ok w' p"
  using assms by (cases "(w, p)" rule: waiter_ok.cases) auto

lemma move_waiter_inv:
  assumes inv: "future_inv w"
    and lock: "(waiter_locks (Some (d, p)) \<longleftrightarrow> lock = Some (WaitThread i))"
      "lock = fw_lock w \<or> lock = None \<and> fw_lock w = Some (WaitThread i) \<or> fw_lock w = None \<and> lock = Some (WaitThread i)"
    and ok: "waiter_ok w (d, p)"
  shows "future_inv (move_waiter i d p lock w)"
proof -
  let ?w = "move_waiter i d p lock w"
  note I = future_invD [OF inv]
  have f: "fw_future ?w = fw_future w" "fw_setters ?w = fw_setters w" "fw_clock ?w = fw_clock w" "fw_lock ?w = lock"
    by (simp_all add: move_waiter_def)
  have others: "lock = Some (WaitThread j) \<longleftrightarrow> fw_lock w = Some (WaitThread j)" if "j \<noteq> i" for j using lock(2) that by auto
  have setters: "lock = Some (SetThread j) \<longleftrightarrow> fw_lock w = Some (SetThread j)" for j using lock(2) by auto
  have "waiter_locks (fw_waiters ?w j) \<longleftrightarrow> lock = Some (WaitThread j)" for j
    using lock(1) I(1) [of j] others [of j] by (cases "j = i") (simp_all add: move_waiter_def)
  moreover have "setter_locks (fw_setters ?w j) \<longleftrightarrow> lock = Some (SetThread j)" for j using I(2) setters f(2) by simp
  moreover have "waiter_ok ?w q" if "fw_waiters ?w j = Some q" for j q
  proof -
    have "waiter_ok w q" using that ok I(5) [of j q] by (cases "j = i") (simp_all add: move_waiter_def)
    then show ?thesis by (rule waiter_ok_same) (simp_all add: f)
  qed
  ultimately show ?thesis using I(3,4) unfolding future_inv_def f by blast
qed

text \<open>A step of a setter that leaves \<open>is_set_\<close> and what is written after it alone.\<close>

lemma waiter_ok_setter:
  assumes ok: "waiter_ok w p" and f: "fut_set (fw_future w) \<Longrightarrow> f = fw_future w" "fut_set f \<Longrightarrow> fut_set (fw_future w) \<or> q = SetFlagged"
    and q: "snd p = Asleep \<Longrightarrow> fw_setters w i = Some SetFlagged \<or> fw_setters w i = Some SetNotifying \<Longrightarrow>
      q = SetFlagged \<or> q = SetNotifying"
  shows "waiter_ok (move_setter i q lock f w) p"
proof (cases "(w, p)" rule: waiter_ok.cases)
  case (3 w d)
  show ?thesis
  proof (cases "fut_set f \<and> q \<noteq> SetFlagged \<and> q \<noteq> SetNotifying")
    case True
    then have "fut_set (fw_future w)" using 3 f(2) by auto
    then obtain j where "fw_setters w j = Some SetFlagged \<or> fw_setters w j = Some SetNotifying" using 3 ok by auto
    moreover then have "j \<noteq> i" using q True 3 by auto
    ultimately show ?thesis using 3 by (auto simp: move_setter_def)
  next
    case False
    then show ?thesis using 3 by (auto simp: move_setter_def)
  qed
qed (use ok f in \<open>auto simp: move_setter_def\<close>)

lemma move_setter_inv:
  assumes inv: "future_inv w"
    and lock: "setter_locks (Some q) \<longleftrightarrow> lock = Some (SetThread i)"
      "lock = fw_lock w \<or> lock = None \<and> fw_lock w = Some (SetThread i) \<or> fw_lock w = None \<and> lock = Some (SetThread i)"
    and f: "fut_set (fw_future w) \<Longrightarrow> f = fw_future w" "fut_set f \<Longrightarrow> fut_set (fw_future w) \<or> q = SetFlagged"
    and q: "\<And>j d. fw_waiters w j = Some (d, Asleep) \<Longrightarrow> fw_setters w i = Some SetFlagged \<or> fw_setters w i = Some SetNotifying \<Longrightarrow>
        q = SetFlagged \<or> q = SetNotifying"
      "q = SetWritten \<Longrightarrow> \<not> fut_set f" "q = SetFlagged \<Longrightarrow> fut_set f"
    and excl: "fut_set f \<noteq> fut_set (fw_future w) \<Longrightarrow> fw_lock w = Some (SetThread i)"
  shows "future_inv (move_setter i q lock f w)"
proof -
  let ?w = "move_setter i q lock f w"
  note I = future_invD [OF inv]
  have fs: "fw_future ?w = f" "fw_lock ?w = lock" "fw_waiters ?w = fw_waiters w" by (simp_all add: move_setter_def)
  have others: "lock = Some (SetThread j) \<longleftrightarrow> fw_lock w = Some (SetThread j)" if "j \<noteq> i" for j using lock(2) that by auto
  have waiters: "lock = Some (WaitThread j) \<longleftrightarrow> fw_lock w = Some (WaitThread j)" for j using lock(2) by auto
  have "setter_locks (fw_setters ?w j) \<longleftrightarrow> lock = Some (SetThread j)" for j
    using lock(1) I(2) [of j] others [of j] by (cases "j = i") (simp_all add: move_setter_def)
  moreover have "waiter_locks (fw_waiters ?w j) \<longleftrightarrow> lock = Some (WaitThread j)" for j using I(1) waiters fs(3) by simp
  moreover have "fut_set f = fut_set (fw_future w)" if "j \<noteq> i" "setter_locks (fw_setters w j)" for j
    using that I(2) [of j] excl by (cases "fut_set f = fut_set (fw_future w)") auto
  then have "fw_setters ?w j = Some SetWritten \<longrightarrow> \<not> fut_set f" "fw_setters ?w j = Some SetFlagged \<longrightarrow> fut_set f" for j
    using I(3,4) [of j] q(2,3) by (auto simp: move_setter_def setter_locks_def split: if_splits)
  moreover have "waiter_ok ?w p" if "fw_waiters ?w j = Some p" for j p
  proof -
    have j: "fw_waiters w j = Some p" using that fs(3) by simp
    then have "q = SetFlagged \<or> q = SetNotifying"
      if "snd p = Asleep" "fw_setters w i = Some SetFlagged \<or> fw_setters w i = Some SetNotifying"
      using that q(1) [of j "fst p"] by (cases p) simp
    then show ?thesis using waiter_ok_setter [OF I(5) [OF j] f] by blast
  qed
  ultimately show ?thesis unfolding future_inv_def fs by blast
qed

lemma waiter_moves_inv:
  assumes inv: "future_inv w" and p: "fw_waiters w i = Some p" and m: "waiter_moves i p w = Some w'"
  shows "future_inv w'"
proof (cases "(i, p, w)" rule: waiter_moves.cases)
  case (1 j d out u)
  have "waiter_ok w p" using future_invD(5) [OF inv p] .
  then show ?thesis using 1 m move_waiter_inv [OF inv, of d "Checking out" "Some (WaitThread i)" i]
    by (auto simp: waiter_locks_def split: if_splits)
next
  case (2 j d out u)
  have l: "fw_lock w = Some (WaitThread i)" using future_invD(1) [OF inv, of i] p 2 by (simp add: waiter_locks_def)
  have ok: "waiter_ok w p" using future_invD(5) [OF inv p] .
  let ?q = "if fut_set (fw_future w) then Reading else if out then Finished (throw_rpc TIMEOUT timeout_message) else Asleep"
  have w': "w' = move_waiter i d ?q None w" using 2 m by simp
  show ?thesis unfolding w' by (rule move_waiter_inv [OF inv]) (use ok l 2 in \<open>auto simp: waiter_locks_def\<close>)
next
  case (4 j d u)
  have "fw_lock w \<noteq> Some (WaitThread i)" using future_invD(1) [OF inv, of i] p 4 by (simp add: waiter_locks_def)
  moreover have "waiter_ok w p" using future_invD(5) [OF inv p] .
  moreover have "w' = move_waiter i d (Finished (get_result_impl (fw_future w))) (fw_lock w) w" using 4 m by simp
  ultimately show ?thesis using move_waiter_inv [OF inv, of d _ "fw_lock w" i] 4 by (simp add: waiter_locks_def)
qed (use m in simp_all)

lemma wake_all_inv:
  assumes inv: "future_inv w"
  shows "future_inv (w\<lparr>fw_waiters := wake_all (fw_waiters w)\<rparr>)"
proof -
  let ?w = "w\<lparr>fw_waiters := wake_all (fw_waiters w)\<rparr>"
  note I = future_invD [OF inv]
  have "waiter_locks (wake_all (fw_waiters w) i) = waiter_locks (fw_waiters w i)" for i
    by (cases "fw_waiters w i") (auto simp: wake_all_def waiter_locks_def split: wait_point.splits)
  moreover have "waiter_ok ?w p" if p: "wake_all (fw_waiters w) i = Some p" for i p
  proof -
    obtain d q where q: "fw_waiters w i = Some (d, q)" "p = (d, if q = Asleep then ToLock False else q)"
      using p by (auto simp: wake_all_def)
    have "waiter_ok w (d, q)" using I(5) [OF q(1)] .
    then have "waiter_ok w p" using q(2) by simp
    then show ?thesis by (rule waiter_ok_same) simp_all
  qed
  ultimately show ?thesis using I(1-4) unfolding future_inv_def by simp
qed

lemma wake_all_none: "wake_all ws j \<noteq> Some (d, Asleep)"
  by (auto simp: wake_all_def)

lemma setter_moves_inv:
  assumes inv: "future_inv w" and p: "fw_setters w i = Some p" and m: "setter_moves i p w = Some w'"
  shows "future_inv w'"
proof (cases "(i, p, w)" rule: setter_moves.cases)
  case (1 j x u)
  then have l: "fw_lock w = None" and w': "w' = move_setter i (SetChecking x) (Some (SetThread i)) (fw_future w) w"
    using m by (simp_all split: if_splits)
  show ?thesis unfolding w' by (rule move_setter_inv [OF inv]) (use l p 1 in \<open>simp_all add: setter_locks_def\<close>)
next
  case (2 j x u)
  let ?f = "fw_future w"
  have l: "fw_lock w = Some (SetThread i)" using future_invD(2) [OF inv, of i] p 2 by (simp add: setter_locks_def)
  have ended: "future_inv (move_setter i (SetFinished r) None ?f w)" for r
    by (rule move_setter_inv [OF inv]) (use l p 2 in \<open>simp_all add: setter_locks_def\<close>)
  have written: "future_inv (move_setter i SetWritten (fw_lock w) f w)" if "\<not> fut_set ?f" "\<not> fut_set f" for f
    by (rule move_setter_inv [OF inv]) (use that l p 2 in \<open>simp_all add: setter_locks_def\<close>)
  show ?thesis
  proof (cases "fut_set ?f")
    case True
    then show ?thesis using 2 m ended [of "Ok ()"] by auto
  next
    case False
    then show ?thesis using 2 m ended written by (cases x) (auto simp: Let_def split: if_splits)
  qed
next
  case (3 j u)
  have l: "fw_lock w = Some (SetThread i)" using future_invD(2) [OF inv, of i] p 3 by (simp add: setter_locks_def)
  have n: "\<not> fut_set (fw_future w)" using future_invD(3) [OF inv, of i] p 3 by simp
  have w': "w' = move_setter i SetFlagged (fw_lock w) ((fw_future w)\<lparr>fut_set := True\<rparr>) w" using 3 m by simp
  show ?thesis unfolding w' by (rule move_setter_inv [OF inv]) (use l n in \<open>simp_all add: setter_locks_def\<close>)
next
  case (4 j u)
  have l: "fw_lock w = Some (SetThread i)" using future_invD(2) [OF inv, of i] p 4 by (simp add: setter_locks_def)
  have w': "w' = move_setter i SetNotifying None (fw_future w) w" using 4 m by simp
  show ?thesis unfolding w' by (rule move_setter_inv [OF inv]) (use l in \<open>simp_all add: setter_locks_def\<close>)
next
  case (5 j u)
  let ?u = "w\<lparr>fw_waiters := wake_all (fw_waiters w)\<rparr>"
  have l: "fw_lock w \<noteq> Some (SetThread i)" using future_invD(2) [OF inv, of i] p 5 by (simp add: setter_locks_def)
  have w': "w' = move_setter i (SetFinished (Ok ())) (fw_lock ?u) (fw_future ?u) ?u" using 5 m by simp
  show ?thesis unfolding w'
    by (rule move_setter_inv [OF wake_all_inv [OF inv]]) (use l in \<open>simp_all add: setter_locks_def wake_all_none\<close>)
qed (use m in simp_all)

lemma future_step_inv: "future_inv w \<Longrightarrow> future_step w w' \<Longrightarrow> future_inv w'"
proof (erule future_step.cases, goal_cases)
  case (1 u i d)
  have "fw_lock u \<noteq> Some (WaitThread i)" using future_invD(1) [of u i] 1 by (simp add: waiter_locks_def)
  then show ?case using 1 by (simp add: move_waiter_inv waiter_locks_def)
next
  case (2 u i x)
  have "fw_lock u \<noteq> Some (SetThread i)" using future_invD(2) [of u i] 2 by (simp add: setter_locks_def)
  moreover have "future_inv (move_setter i (SetToLock x) (fw_lock u) (fw_future u) u)"
    by (rule move_setter_inv) (use 2 calculation in \<open>simp_all add: setter_locks_def\<close>)
  ultimately show ?case using 2 by simp
next
  case (3 u i p v)
  then show ?case using waiter_moves_inv by blast
next
  case (4 u i p v)
  then show ?case using setter_moves_inv by blast
next
  case (5 u i d)
  have "fw_lock u \<noteq> Some (WaitThread i)" using future_invD(1) [of u i] 5 by (simp add: waiter_locks_def)
  then show ?case using 5 by (simp add: move_waiter_inv waiter_locks_def)
next
  case (6 u i d)
  have "fw_lock u \<noteq> Some (WaitThread i)" using future_invD(1) [of u i] 6 by (simp add: waiter_locks_def)
  then show ?case using 6 by (simp add: move_waiter_inv waiter_locks_def)
next
  case (7 u t)
  have "waiter_ok (u\<lparr>fw_clock := t\<rparr>) p" if "fw_waiters u i = Some p" for i p
    using waiter_ok_same [OF future_invD(5) [OF _ that], of "u\<lparr>fw_clock := t\<rparr>"] 7 by simp
  then show ?case using 7 by (simp add: future_inv_def)
qed

interpretation future_sys: invariant_system future_init future_step future_inv
proof
  fix w
  assume "future_init w"
  then show "future_inv w" by (auto simp: future_init_def future_inv_def waiter_locks_def setter_locks_def)
next
  fix w w'
  assume "future_inv w" "future_step w w'"
  then show "future_inv w'" by (rule future_step_inv)
qed

section \<open>Progress\<close>

text \<open>Whoever holds the lock releases it, without a step of anyone else.\<close>

lemma step_waiter:
  "fw_waiters w i = Some p \<Longrightarrow> waiter_moves i p w = Some w' \<Longrightarrow> future_step\<^sup>*\<^sup>* w' w'' \<Longrightarrow> future_step\<^sup>*\<^sup>* w w''"
  using future_step.waiter by (meson converse_rtranclp_into_rtranclp)

lemma step_setter:
  "fw_setters w i = Some p \<Longrightarrow> setter_moves i p w = Some w' \<Longrightarrow> future_step\<^sup>*\<^sup>* w' w'' \<Longrightarrow> future_step\<^sup>*\<^sup>* w w''"
  using future_step.setter by (meson converse_rtranclp_into_rtranclp)

lemma setter_releases:
  assumes p: "fw_setters w j = Some q" "setter_locks (Some q)"
  shows "\<exists>w'. future_step\<^sup>*\<^sup>* w w' \<and> fw_lock w' = None \<and> fw_waiters w' = fw_waiters w \<and> fw_clock w' = fw_clock w"
proof -
  have flagged: "\<exists>w'. future_step\<^sup>*\<^sup>* u w' \<and> fw_lock w' = None \<and> fw_waiters w' = fw_waiters u \<and> fw_clock w' = fw_clock u"
    if "fw_setters u j = Some SetFlagged" for u
    by (intro exI conjI, rule step_setter [OF that], simp, rule rtranclp.rtrancl_refl) (simp_all add: move_setter_def)
  have written: "\<exists>w'. future_step\<^sup>*\<^sup>* u w' \<and> fw_lock w' = None \<and> fw_waiters w' = fw_waiters u \<and> fw_clock w' = fw_clock u"
    if u: "fw_setters u j = Some SetWritten" for u
  proof -
    let ?v = "move_setter j SetFlagged (fw_lock u) ((fw_future u)\<lparr>fut_set := True\<rparr>) u"
    have v: "fw_setters ?v j = Some SetFlagged" "fw_waiters ?v = fw_waiters u" "fw_clock ?v = fw_clock u"
      by (simp_all add: move_setter_def)
    obtain w' where "future_step\<^sup>*\<^sup>* ?v w'" "fw_lock w' = None" "fw_waiters w' = fw_waiters u" "fw_clock w' = fw_clock u"
      using flagged [OF v(1)] v(2,3) by auto
    then show ?thesis using step_setter [OF u, of ?v w'] by auto
  qed
  consider (check) x where "q = SetChecking x" | (wr) "q = SetWritten" | (flag) "q = SetFlagged"
    using p(2) by (cases q) (simp_all add: setter_locks_def)
  then show ?thesis
  proof cases
    case check
    obtain v where v: "setter_moves j q w = Some v" "fw_waiters v = fw_waiters w" "fw_clock v = fw_clock w"
        "fw_lock v = None \<or> fw_setters v j = Some SetWritten"
      by (cases "fut_set (fw_future w)"; cases x; cases "\<exists>e. x = Inr e \<and> code_of e = SUCCESS")
        (auto simp: check Let_def move_setter_def)
    obtain w' where w': "future_step\<^sup>*\<^sup>* v w'" "fw_lock w' = None" "fw_waiters w' = fw_waiters v" "fw_clock w' = fw_clock v"
      using v(4) written by blast
    show ?thesis using step_setter [OF p(1) v(1) w'(1)] w'(2-4) v(2,3) by auto
  next
    case wr
    then show ?thesis using written p(1) by blast
  next
    case flag
    then show ?thesis using flagged p(1) by blast
  qed
qed

lemma lock_released:
  assumes inv: "future_inv w" and i: "fw_waiters w i = Some (d, p)"
  shows "\<exists>w' p'. future_step\<^sup>*\<^sup>* w w' \<and> fw_lock w' = None \<and> fw_waiters w' i = Some (d, p')"
proof (cases "fw_lock w")
  case None
  then show ?thesis using i by blast
next
  case (Some t)
  show ?thesis
  proof (cases t)
    case (WaitThread j)
    then have "waiter_locks (fw_waiters w j)" using future_invD(1) [OF inv] Some by simp
    then obtain d' out where j: "fw_waiters w j = Some (d', Checking out)"
      by (auto simp: waiter_locks_def split: option.splits prod.splits wait_point.splits)
    obtain w' where w': "waiter_moves j (d', Checking out) w = Some w'" by simp
    have "fw_lock w' = None" "\<exists>p'. fw_waiters w' i = Some (d, p')"
      using w' i j by (auto simp: move_waiter_def)
    then show ?thesis using future_step.waiter [OF j w'] by blast
  next
    case (SetThread j)
    then have "setter_locks (fw_setters w j)" using future_invD(2) [OF inv] Some by simp
    then obtain q where "fw_setters w j = Some q" "setter_locks (Some q)"
      by (cases "fw_setters w j") (simp_all add: setter_locks_def)
    from setter_releases [OF this] show ?thesis using i by auto
  qed
qed

text \<open>A thread that finds the lock free finishes, after its deadline at the latest.\<close>

lemma reading_finishes:
  "fw_waiters w i = Some (d, Reading) \<Longrightarrow> \<exists>w' r. future_step\<^sup>*\<^sup>* w w' \<and> fw_waiters w' i = Some (d, Finished r)"
  by (intro exI conjI, rule step_waiter, assumption, simp, rule rtranclp.rtrancl_refl) (simp add: move_waiter_def)

lemma check_moves:
  assumes "fw_lock w = None" "fw_waiters w i = Some (d, ToLock out)"
  shows "\<exists>w'. future_step\<^sup>*\<^sup>* w w' \<and> fw_lock w' = None \<and> fw_waiters w' i = Some (d,
    if fut_set (fw_future w) then Reading else if out then Finished (throw_rpc TIMEOUT timeout_message) else Asleep)"
proof -
  let ?v = "move_waiter i d (Checking out) (Some (WaitThread i)) w"
  have v: "fw_waiters ?v i = Some (d, Checking out)" "fw_future ?v = fw_future w" by (simp_all add: move_waiter_def)
  obtain u where u: "waiter_moves i (d, Checking out) ?v = Some u" by simp
  have "future_step\<^sup>*\<^sup>* w u"
    by (rule step_waiter [OF assms(2), of ?v], simp add: assms(1), rule step_waiter [OF v(1) u]) simp
  moreover have "fw_lock u = None" "fw_waiters u i = Some (d,
      if fut_set (fw_future w) then Reading else if out then Finished (throw_rpc TIMEOUT timeout_message) else Asleep)"
    using u by (auto simp: move_waiter_def)
  ultimately show ?thesis by blast
qed

lemma asleep_finishes:
  assumes "fw_lock w = None" "fw_waiters w i = Some (d, Asleep)"
  shows "\<exists>w' r. future_step\<^sup>*\<^sup>* w w' \<and> fw_waiters w' i = Some (d, Finished r)"
proof -
  let ?u = "w\<lparr>fw_clock := max (fw_clock w) d\<rparr>"
  have u: "future_step w ?u" "fw_waiters ?u i = Some (d, Asleep)" "d \<le> fw_clock ?u"
    using future_step.time [of w "max (fw_clock w) d"] assms(2) by simp_all
  let ?v = "move_waiter i d (ToLock True) (fw_lock ?u) ?u"
  have "future_step ?u ?v" using future_step.timeout [OF u(2,3)] .
  then have v: "future_step\<^sup>*\<^sup>* w ?v" using u(1) by (meson converse_rtranclp_into_rtranclp r_into_rtranclp)
  have "fw_lock ?v = None" "fw_waiters ?v i = Some (d, ToLock True)" using assms(1) by (simp_all add: move_waiter_def)
  from check_moves [OF this] obtain x where x: "future_step\<^sup>*\<^sup>* ?v x"
      "fw_waiters x i = Some (d, Reading) \<or> (\<exists>r. fw_waiters x i = Some (d, Finished r))"
    by (cases "fut_set (fw_future ?v)") auto
  have wx: "future_step\<^sup>*\<^sup>* w x" using rtranclp_trans [OF v x(1)] .
  show ?thesis using x(2)
  proof
    assume "fw_waiters x i = Some (d, Reading)"
    from reading_finishes [OF this] obtain y r where "future_step\<^sup>*\<^sup>* x y" "fw_waiters y i = Some (d, Finished r)" by blast
    then show ?thesis using rtranclp_trans [OF wx] by blast
  qed (use wx in blast)
qed

lemma waiter_finishes:
  assumes inv: "future_inv w" and i: "fw_waiters w i = Some (d, p)"
  shows "\<exists>w' r. future_step\<^sup>*\<^sup>* w w' \<and> fw_waiters w' i = Some (d, Finished r)"
proof -
  obtain u p' where u: "future_step\<^sup>*\<^sup>* w u" "fw_lock u = None" "fw_waiters u i = Some (d, p')"
    using lock_released [OF inv i] by blast
  have "\<exists>v q. future_step\<^sup>*\<^sup>* u v \<and> fw_lock v = None \<and> fw_waiters v i = Some (d, q) \<and> (\<nexists>b. q = ToLock b)"
  proof (cases "\<exists>b. p' = ToLock b")
    case True
    then obtain b where "fw_waiters u i = Some (d, ToLock b)" using u(3) by blast
    from check_moves [OF u(2) this] show ?thesis by (cases "fut_set (fw_future u)"; cases b) auto
  next
    case False
    then show ?thesis using u(2,3) by blast
  qed
  then obtain v q where v: "future_step\<^sup>*\<^sup>* u v" "fw_lock v = None" "fw_waiters v i = Some (d, q)" "\<nexists>b. q = ToLock b" by blast
  have wv: "future_step\<^sup>*\<^sup>* w v" using rtranclp_trans [OF u(1) v(1)] .
  have "future_inv v" using future_sys.steps_inv [OF wv inv] .
  then have "\<nexists>b. q = Checking b" using future_invD(1) [of v i] v(2,3) by (auto simp: waiter_locks_def)
  then have "\<exists>x r. future_step\<^sup>*\<^sup>* v x \<and> fw_waiters x i = Some (d, Finished r)"
    using v(2-4) asleep_finishes reading_finishes by (cases q) blast+
  then show ?thesis using rtranclp_trans [OF wv] by blast
qed

section \<open>Properties\<close>

text \<open>
  C10. Waiting for a future loses no wake-up and never blocks. In every state of any number of threads
  that wait for a future, with their own deadlines, and threads that set it: when the future is
  set, a thread that still sleeps is one that the notification of the setter will wake up; what a
  thread returned is what \<open>Client_Calls\<close> says it returns for the wake-ups it had, so it is the content
  of the future, the same for all, or \<open>TIMEOUT\<close> after its deadline; a thread that reads the content
  without the lock reads it when no other thread writes; and every waiting thread can finish,
  whatever the others do.
\<close>

theorem waiting_loses_no_wakeup:
  assumes "reach future_init future_step w" and "fw_waiters w i = Some (d, p)"
  shows "(p = Asleep \<and> fut_set (fw_future w) \<longrightarrow>
      (\<exists>j. fw_setters w j = Some SetFlagged \<or> fw_setters w j = Some SetNotifying)) \<and>
    (\<forall>r. p = Finished r \<longrightarrow>
      (\<exists>t f. t \<le> fw_clock w \<and> get_result d [(t, f)] = Some r \<and> (fut_set f \<longrightarrow> f = fw_future w))) \<and>
    (p = Reading \<longrightarrow> fut_set (fw_future w) \<and> (\<forall>j. fw_setters w j \<noteq> Some SetWritten) \<and>
      (\<forall>w'. future_step w w' \<longrightarrow> fw_future w' = fw_future w)) \<and>
    (\<exists>w' r. future_step\<^sup>*\<^sup>* w w' \<and> fw_waiters w' i = Some (d, Finished r))"
proof (intro conjI allI impI)
  have inv: "future_inv w" using assms(1) by (rule future_sys.reach_inv)
  note I = future_invD [OF inv]
  have ok: "waiter_ok w (d, p)" using I(5) [OF assms(2)] .
  show "\<exists>j. fw_setters w j = Some SetFlagged \<or> fw_setters w j = Some SetNotifying" if "p = Asleep \<and> fut_set (fw_future w)"
    using ok that by simp
  show "\<exists>t f. t \<le> fw_clock w \<and> get_result d [(t, f)] = Some r \<and> (fut_set f \<longrightarrow> f = fw_future w)" if "p = Finished r" for r
  proof (cases "fut_set (fw_future w) \<and> r = get_result_impl (fw_future w)")
    case True
    then show ?thesis by (intro exI [of _ "fw_clock w"] exI [of _ "fw_future w"]) (simp add: get_result_def)
  next
    case False
    then have "r = throw_rpc TIMEOUT timeout_message" "d \<le> fw_clock w" using ok that by auto
    then show ?thesis
      by (intro exI [of _ "fw_clock w"] exI [of _ "mk_future d"]) (simp add: get_result_def mk_future_def)
  qed
  show s: "fut_set (fw_future w)" if "p = Reading" using ok that by simp
  show "fw_setters w j \<noteq> Some SetWritten" if "p = Reading" for j using I(3) [of j] s [OF that] by blast
  show "fw_future w' = fw_future w" if "p = Reading" "future_step w w'" for w'
    using that(2)
  proof cases
    case (waiter j q)
    then show ?thesis by (cases "(j, q, w)" rule: waiter_moves.cases) (auto simp: move_waiter_def split: if_splits)
  next
    case (setter j q)
    have "q \<noteq> SetWritten" using I(3) [of j] s [OF that(1)] setter(1) by blast
    then show ?thesis using setter s [OF that(1)]
      by (cases "(j, q, w)" rule: setter_moves.cases) (auto simp: move_setter_def Let_def split: if_splits)
  qed (simp_all add: move_waiter_def move_setter_def)
  show "\<exists>w' r. future_step\<^sup>*\<^sup>* w w' \<and> fw_waiters w' i = Some (d, Finished r)"
    using waiter_finishes [OF inv assms(2)] .
qed

theorem waiting_loses_no_wakeup_witness:
  "\<exists>w. reach future_init future_step w \<and> fw_waiters w 0 = Some (10, Asleep) \<and> fut_set (fw_future w) \<and>
     (\<exists>j. fw_setters w j = Some SetFlagged \<or> fw_setters w j = Some SetNotifying) \<and>
     (\<exists>w' r. future_step\<^sup>*\<^sup>* w w' \<and> fw_waiters w' 0 = Some (10, Finished r))"
proof -
  let ?w0 = "\<lparr>fw_future = mk_future 10, fw_lock = None, fw_waiters = Map.empty, fw_setters = Map.empty, fw_clock = 0\<rparr>"
  have r0: "reach future_init future_step ?w0" by (rule reach_init) (auto simp: future_init_def)
  let ?w1 = "move_waiter 0 10 (ToLock False) None ?w0"
  let ?w2 = "move_waiter 0 10 (Checking False) (Some (WaitThread 0)) ?w1"
  let ?w3 = "move_waiter 0 10 Asleep None ?w2"
  let ?w4 = "move_setter 0 (SetToLock (Inl (create_result MNil))) None (mk_future 10) ?w3"
  let ?w5 = "move_setter 0 (SetChecking (Inl (create_result MNil))) (Some (SetThread 0)) (mk_future 10) ?w4"
  let ?f = "(mk_future 10)\<lparr>fut_result := Some (create_result MNil)\<rparr>"
  let ?w6 = "move_setter 0 SetWritten (Some (SetThread 0)) ?f ?w5"
  let ?w7 = "move_setter 0 SetFlagged (Some (SetThread 0)) (?f\<lparr>fut_set := True\<rparr>) ?w6"
  let ?w8 = "move_setter 0 SetNotifying None (?f\<lparr>fut_set := True\<rparr>) ?w7"
  note defs = move_waiter_def move_setter_def mk_future_def Let_def
  have "future_step ?w0 ?w1" using future_step.get [of ?w0 0 10] by simp
  moreover have "future_step ?w1 ?w2" by (rule future_step.waiter [of _ 0 "(10, ToLock False)"]) (simp_all add: defs)
  moreover have "future_step ?w2 ?w3" by (rule future_step.waiter [of _ 0 "(10, Checking False)"]) (simp_all add: defs)
  moreover have "future_step ?w3 ?w4"
    using future_step.set [of ?w3 0 "Inl (create_result MNil)"] by (simp add: defs)
  moreover have "future_step ?w4 ?w5"
    by (rule future_step.setter [of _ 0 "SetToLock (Inl (create_result MNil))"]) (simp_all add: defs)
  moreover have "future_step ?w5 ?w6"
    by (rule future_step.setter [of _ 0 "SetChecking (Inl (create_result MNil))"]) (simp_all add: defs)
  moreover have "future_step ?w6 ?w7" by (rule future_step.setter [of _ 0 SetWritten]) (simp_all add: defs)
  moreover have "future_step ?w7 ?w8" by (rule future_step.setter [of _ 0 SetFlagged]) (simp_all add: defs)
  ultimately have r: "reach future_init future_step ?w8" using r0 by (meson reach_step)
  have a: "fw_waiters ?w8 0 = Some (10, Asleep)" by (simp add: defs)
  have f: "fut_set (fw_future ?w8)" by (simp add: defs)
  from waiting_loses_no_wakeup [OF r a] r a f show ?thesis by blast
qed

end
