(* ===== verification/Spec2Isabelle.thy ===== *)
theory Spec2Isabelle
  imports Format_Object Addresses Message_Roundtrip Methods Public_Interface Server_Connection Connection Transport_Base
    Logging Config_Toml Executors Serialized_Message Shared_Objects Acceptor Server Remote_Progress
    Method_Names Call_Timers Signal_Wait Client_Link Zones Future_Wait
begin

text \<open>
  A verified model of cpp-msgpack-rpc, a C++ library for remote procedure calls over MessagePack
  (documentation in \<open>doc\<close>, interfaces in \<open>include/msgpack_rpc\<close>, implementation in
  \<open>src/msgpack_rpc\<close>). File names below are relative to the last two.

  \<^bold>\<open>The program.\<close> A client serializes a request with a fresh id into a reference-counted block of
  memory, queues it, and sends it over a connection that it keeps alive by reconnecting. A server
  accepts connections, cuts the bytes it reads into messages, runs the registered method in a thread
  of its executor, and sends the serialized answer back, one at a time. The client finds the call by
  the id of the answer and sets the future the user waits for. Everything runs in threads of
  executors; the handlers of one connection or acceptor run one after the other.

  \<^bold>\<open>How the code is represented.\<close> A class is a record of its members and a method is a function that
  takes and returns the record. Theory \<open>Prelude\<close> has the outcome of a call, a value, a thrown
  exception or undefined behaviour (\<open>Ok\<close>, \<open>Throw\<close>, \<open>Undefined\<close>), its sequencing (\<open>bind_out\<close>), and
  the same with a state (\<open>action\<close>, \<open>bind_act\<close>, \<open>try_act\<close> for \<open>catch\<close>). Null and dangling
  dereferences, overflow of signed integers, division by zero and exceptions that leave a thread are
  \<open>Undefined\<close>, so a theorem that a call is not \<open>Undefined\<close> is a theorem about memory safety too.
  Machine integers are words where the code can wrap around. Concurrency is a step relation whose
  steps are the parts of the code between two points where another thread can act; invariants are
  proved through the locale \<open>invariant_system\<close>, interpreted once for every such relation, and refinements
  between relations through the locale \<open>simulation\<close>.

  \<^bold>\<open>The theories:\<close>
  \<^item> \<open>Prelude\<close>: the vocabulary above and the shared contracts \<open>fifo_queue\<close> and \<open>unique_table\<close>.
  \<^item> \<open>Common\<close>, \<open>Exceptions\<close> (\<open>common\<close>, exceptions of \<open>methods\<close> and \<open>clients\<close>): status codes, statuses,
    the exceptions and the C string \<open>what\<close> returns, and the objects of MessagePack.
  \<^item> \<open>Regex\<close>, \<open>Addresses\<close> (\<open>addresses\<close>): the fragment of regular expressions of \<open>uri.cpp\<close> with a proof
    that the greedy search agrees with the meaning of a match; URIs, their parser and formatter. The
    parser is characterised without regular expressions and is inverse to the formatter.
  \<^item> \<open>Handles\<close>: the contract \<open>counted_resource\<close> of hand-written reference counts and the operations of
    handle classes over it. Interpreted by \<open>Serialized_Message\<close>, \<open>Shared_Objects\<close> and \<open>Zones\<close>.
  \<^item> \<open>Sharable_Binary\<close>, \<open>Serialized_Message\<close> (\<open>messages\<close>, \<open>messages/impl\<close>): the memory blocks, the
    doubling reallocation with 64-bit wrap-around, the buffer, and the handle class. Counts are
    exact, nothing is freed twice or leaks, and what is written is what is read.
  \<^item> \<open>Messages\<close>, \<open>Msgpack_Reference\<close>, \<open>Message_Roundtrip\<close> (\<open>messages\<close>): parsed messages, the streaming
    parser and the serializer, a codec that shows that the assumptions on the MessagePack library
    can be met, and the round trip through memory.
  \<^item> \<open>Format_Object\<close> (\<open>util/format_msgpack_object_to.h\<close>): formatting of objects to an output iterator.
  \<^item> \<open>Methods\<close> (\<open>methods\<close>): functional methods, the dictionary, the processor.
  \<^item> \<open>Client_Calls\<close>, \<open>Message_Sender\<close>, \<open>Client_Connector\<close>, \<open>Client\<close>, \<open>Client_Builder\<close> (\<open>clients\<close>,
    \<open>clients/impl\<close>): request ids, futures and the list of calls; the queue and the sender, with every
    access of \<open>send_next\<close> as a step of its own for the races; the reconnection; the client over them
    with its lifetime; the builder and the executor it shares with its clients.
  \<^item> \<open>Client_Link\<close> (\<open>clients/impl/client_impl.h\<close>): the connector and the sender joined by the callbacks of
    the client, with the handlers split where another thread can act. A simulation (locale
    \<open>simulation\<close>) shows that they behave like the sender on its own, whose events are then in order.
  \<^item> \<open>Transport_Base\<close>, \<open>Connection\<close>, \<open>Acceptor\<close> (\<open>transport\<close>, \<open>transport/tcp\<close>, \<open>transport/unix_socket\<close>):
    the state machine of background tasks, backends and connectors; connections; acceptors, their
    factories and the list of open connections.
  \<^item> \<open>Server_Connection\<close>, \<open>Server\<close> (\<open>servers\<close>, \<open>servers/impl\<close>): the server's side of a connection with
    the responses computed in parallel; the server, its wait for a signal and its builder.
  \<^item> \<open>Executors\<close> (\<open>executors/general_executor.cpp\<close>): the threads and contexts of an executor.
  \<^item> \<open>Logging\<close>, \<open>Config\<close>, \<open>Config_Toml\<close> (\<open>logging\<close>, \<open>config\<close>): filtering by level, the configuration
    classes, and parsing them from TOML.
  \<^item> \<open>Shared_Objects\<close> (\<open>util/impl/shared_objects.h\<close>): the pool of reference-counted objects.
  \<^item> \<open>Public_Interface\<close> (\<open>clients\<close>, \<open>servers\<close>, \<open>transport/connection_wrapper.h\<close>): what the user sees of
    clients, futures and builders; a synchronous call (\<open>public_call\<close>) is the asynchronous one followed
    by the wait; the default builders know a backend for every URI they can be given.
  \<^item> \<open>Method_Names\<close> (\<open>messages/method_name.h\<close>, \<open>messages/method_name_view.h\<close>, \<open>methods/method_dict.h\<close>): names that
    own their characters and views that do not, over a store of character arrays, and the dictionary
    keyed by them. It refines the dictionary of \<open>Methods\<close>, which has strings as keys.
  \<^item> \<open>Call_Timers\<close> (\<open>executors/timer.h\<close>, \<open>clients/impl/call.h\<close>, \<open>clients/impl/call_list.h\<close>): timers with the
    handlers that are still to be delivered, and the list of calls over them: a timeout comes from the
    timer of its own call and never before the deadline.
  \<^item> \<open>Future_Wait\<close> (\<open>clients/impl/call_future_impl.h\<close>): the threads that wait for a future and those that set
    it, with the mutex and the condition variable. It proves the description by wake-ups that
    \<open>Client_Calls\<close> and \<open>Public_Interface\<close> use.
  \<^item> \<open>Zones\<close> (\<open>messages/parsed_*.h\<close>, \<open>messages/call_result.h\<close>, \<open>methods/method_exception.h\<close>,
    \<open>clients/server_exception.h\<close>): who owns the memory objects point to. The other theories have objects as
    values; here programs over shared pointers are shown to behave like programs over values.
  \<^item> \<open>Signal_Wait\<close> (\<open>servers/stop_signal_handler.h\<close>, the small executors of \<open>executors\<close>): the wait for a signal, the
    single-thread and the wrapping executor, and functions run asynchronously.
  \<^item> \<open>Channel\<close>, \<open>Remote_System\<close>, \<open>Remote_Safety\<close>: the parts composed. A channel is one direction of a
    connection, bytes written on one side and read in chunks on the other; the system is a client with
    its calls and sender and a server with its threads, joined by the channels of any number of
    connections. In all runs a future gets no answer but its own, and a connection runs and answers
    a call at most once; over two connections a method can run twice for one call, since the sender
    repeats a message whose write was not reported.
  \<^item> \<open>Remote_Progress\<close>: the system does not block: from every reachable state a call that is queued can
    still be answered, over a new connection if the client has none.
  \<^item> This theory: a remote call from end to end.

  \<^bold>\<open>What the lemmas show.\<close> Functional behaviour of every operation on every branch, errors included;
  invariants of each step relation (exactness of reference counts, order of messages, one report of
  the end of a connection, no joinable thread destroyed); termination of the loops; round trips; and
  where the code does not do what it means to, the exact condition and a run that shows it.

  \<^bold>\<open>Parameters.\<close> Code that is not in the repository is an argument of the definitions that use it:
  \<^item> the MessagePack library: \<open>mp_conv\<close>, \<open>mp_packer\<close> and \<open>next\<close>, with the laws \<open>conv_ok\<close> and \<open>codec_ok\<close>
    (conversion of integers, packing followed by unpacking, a prefix needs more bytes), instantiated
    by \<open>ref_conv\<close>, \<open>ref_packer\<close> and \<open>ref_next\<close>;
  \<^item> the network (\<open>net\<close>: resolving, connecting, binding), asio's results as events, \<open>malloc\<close> (\<open>mem_ok\<close>),
    the creation of threads (\<open>can_create\<close>), the clock, the random numbers, the text of numbers;
  \<^item> the TOML library (\<open>toml_conv\<close>), the registry of spdlog;
  \<^item> the functions of the user.

  \<^bold>\<open>Bounds and fuel.\<close> The loops that may not end in general are \<open>partial_function (option)\<close>: the search for
  a capacity (\<open>expand_capacity\<close>), the loop of a connection over the messages it has read
  (\<open>parse_loop\<close>) and the search for a free buffer; the theorems prove that they end. Only the decoder
  of \<open>Msgpack_Reference\<close> takes fuel; the number of bytes is enough, since every value takes at least
  one byte. Sizes of messages are bounded by \<open>MAX_MESSAGE\<close>, \<open>2 ^ 62\<close>; for sizes above \<open>2 ^ 63\<close> the doubling of
  the capacity wraps around to zero and does not end. Reference counters are unbounded in the model; 32 bits suffice
  for fewer than \<open>2 ^ 31\<close> handles.

  \<^bold>\<open>Not modelled.\<close> The abstract interfaces (\<open>i_*.h\<close>), which have no code of their own: the classes that
  implement them are modelled; functions that only forward to another object; the specialisations of
  \<open>fmt::formatter\<close> and of \<open>operator<<\<close> that only print; the insides of asio, spdlog, the TOML library and the MessagePack
  library; examples, tests and benchmarks. Weak memory is not modelled: the atomic accesses of the
  code are steps in one order.
\<close>

section \<open>A remote call from end to end\<close>

text \<open>
  C1. A remote call from end to end. When a running client calls a method a server has registered,
  the call serializes the request, gives a future and queues the bytes; read by the server in any
  chunks, they are reported as exactly that request; handling it on an idle connection runs the
  function once, serializes its answer and hands it to the connection; read by the client in any
  chunks, the bytes are reported as exactly that answer; and when it is processed, whatever other
  calls, responses and timeouts of other calls came before, the future returns at once what the
  function returned, converted to the type the caller asked for, or throws the error of the server
  with the object the function threw.
\<close>

theorem remote_call_returns_result:
  fixes cl :: "bytes client" and cmds :: "bytes call_cmd list"
  assumes codec: "codec_ok pk next" and conv: "conv_ok cv"
    and running: "reach client_init client_step cl" "executor_running cl"
      "clock_ok (now + call_timeout (calls_obj cl))" "calls (calls_obj cl) i = None" "i = next_id (calls_obj cl)"
    and request: "can_send (OutRequest nm i ps)" "length (wire pk (OutRequest nm i ps)) \<le> MAX_MESSAGE"
    and memory: "memory_wf cm" "memory_wf sm" "\<forall>n. mem_ok n"
    and registered: "methods mp nm = Some (functional_method (serialized mem_ok pk sm) is_void nm num as_tuple fn)"
    and answer: "call_spec is_void num as_tuple fn \<lparr>req_id = i, req_method = nm, req_params = \<lparr>params_object = MArray ps\<rparr>\<rparr>
        (app s) = (Ok out, a)" "can_send out" "length (wire pk out) \<le> MAX_MESSAGE"
    and idle: "\<not> sc_is_sending s" "message_queue s = []" "connected s"
    and readers: "idle_reader sc" "\<forall>m. suser (OnReceived m) = Ok ()" "idle_reader cc" "\<forall>m. cuser (OnReceived m) = Ok ()"
    and chunks: "concat sds = wire pk (OutRequest nm i ps)" "\<forall>d \<in> set sds. length d \<le> read_buffer_size (parser sc)"
      "concat cds = wire pk out" "\<forall>d \<in> set cds. length d \<le> read_buffer_size (parser cc)"
  shows "\<exists>f cl1 sc' s' cc' r.
    public_async_call mem_ok pk cm now nm ps cl = (Ok f, cl1) \<and>
    sender_obj cl1 = send_message (wire pk (OutRequest nm i ps)) (Some i) (sender_obj cl) \<and>
    feed_chunks suser next cv sds sc = Some (Ok (), sc') \<and>
    callbacks sc' = callbacks sc @
      [OnReceived (PRequest \<lparr>req_id = i, req_method = nm, req_params = \<lparr>params_object = MArray ps\<rparr>\<rparr>)] \<and>
    on_request (serialized mem_ok pk sm) mp \<lparr>req_id = i, req_method = nm, req_params = \<lparr>params_object = MArray ps\<rparr>\<rparr> s
      = (Ok (), s') \<and>
    out_box s' = out_box s @ [wire pk out] \<and> app s' = a \<and>
    feed_chunks cuser next cv cds cc = Some (Ok (), cc') \<and>
    callbacks cc' = callbacks cc @ [OnReceived (PResponse \<lparr>resp_id = i, resp_result = r\<rparr>)] \<and>
    (case out of OutResult _ v \<Rightarrow> r = create_result v | OutError _ e \<Rightarrow> r = create_error e | _ \<Rightarrow> False) \<and>
    (\<forall>cl2 t. first_answer i cmds = None \<and>
      call_run (cmds @ [Received (PResponse \<lparr>resp_id = i, resp_result = r\<rparr>)]) (calls_obj cl1) = Some cl2 \<longrightarrow>
      (\<forall>v. out = OutResult i v \<longrightarrow> typed_result sd as_T d [(t, futures cl2 f)] =
         Some (case as_T v of Some x \<Rightarrow> Ok x | None \<Rightarrow> throw_rpc TYPE_ERROR ''Invalid type of the result.'')) \<and>
      (\<forall>e. out = OutError i e \<and> well_typed e \<longrightarrow> (\<exists>ex. code_of (exc_status ex) = SERVER_ERROR \<and>
         typed_result sd as_T d [(t, futures cl2 f)] = Some (Throw (ServerException ex e)))))"
proof -
  let ?req = "\<lparr>req_id = i, req_method = nm, req_params = \<lparr>params_object = MArray ps\<rparr>\<rparr>"
  have inv: "client_inv cl" using running(1) by (rule client_sys.reach_inv)
  obtain f cl1 where call: "public_async_call mem_ok pk cm now nm ps cl = (Ok f, cl1)"
      "calls_ok (calls_obj cl1)" "calls (calls_obj cl1) i = Some f" "fut_result (futures (calls_obj cl1) f) = None"
      "sender_obj cl1 = send_message (wire pk (OutRequest nm i ps)) (Some i) (sender_obj cl)"
    using public_call_running [OF inv running(2,3,5,4) memory(1,3) request(2)] by blast
  obtain sc' where sc': "feed_chunks suser next cv sds sc = Some (Ok (), sc')"
      "callbacks sc' = callbacks sc @ [OnReceived (PRequest ?req)]"
    using feed_message [OF codec conv readers(2) request(1) readers(1) chunks(2,1)] by auto
  have reg: "methods mp (req_method ?req) = Some (functional_method (serialized mem_ok pk sm) is_void nm num as_tuple fn)"
    using registered by simp
  obtain s' where s': "on_request (serialized mem_ok pk sm) mp ?req s = (Ok (), s')"
      "out_box s' = out_box s @ [wire pk out]" "app s' = a"
    using on_request_idle [OF reg answer(1) serialized_wire [OF memory(2,3) answer(3)] idle] by blast
  obtain cc' where cc': "feed_chunks cuser next cv cds cc = Some (Ok (), cc')"
      "callbacks cc' = callbacks cc @ [OnReceived (sent_message out)]"
    using feed_message [OF codec conv readers(4) answer(2) readers(3) chunks(4,3)] by blast
  obtain r where r: "sent_message out = PResponse \<lparr>resp_id = i, resp_result = r\<rparr>"
      "case out of OutResult _ v \<Rightarrow> r = create_result v | OutError _ e \<Rightarrow> r = create_error e | _ \<Rightarrow> False"
    by (rule call_spec_response [OF answer(1)]) simp_all
  have final: "(\<forall>v. out = OutResult i v \<longrightarrow> typed_result sd as_T d [(t, futures cl2 f)] =
         Some (case as_T v of Some x \<Rightarrow> Ok x | None \<Rightarrow> throw_rpc TYPE_ERROR ''Invalid type of the result.'')) \<and>
      (\<forall>e. out = OutError i e \<and> well_typed e \<longrightarrow> (\<exists>ex. code_of (exc_status ex) = SERVER_ERROR \<and>
         typed_result sd as_T d [(t, futures cl2 f)] = Some (Throw (ServerException ex e))))"
    if "first_answer i cmds = None \<and>
      call_run (cmds @ [Received (PResponse \<lparr>resp_id = i, resp_result = r\<rparr>)]) (calls_obj cl1) = Some cl2" for cl2 t
  proof -
    have "typed_result sd as_T d [(t, futures cl2 f)] = Some (get_from_call_result sd as_T r)"
      using pending_call_result [OF call(2-4), of cmds r cl2] that by (intro typed_result_of) simp_all
    moreover have "\<exists>ex. code_of (exc_status ex) = SERVER_ERROR \<and>
        get_from_call_result sd as_T (create_error e) = Throw (ServerException ex e)" if "well_typed e" for e
      using that by (rule get_from_error) blast
    ultimately show ?thesis using r(2) by (auto simp: get_from_success)
  qed
  show ?thesis using call(1,5) sc' s' cc' r final by (intro exI conjI) (assumption | simp)+
qed

theorem remote_call_returns_result_witness:
  "\<exists>(cl :: bytes client) f cl1 s' cc' cl2.
     public_async_call (\<lambda>_. True) ref_packer empty_memory 0 ''add'' [MPosInt 1, MPosInt 2] cl = (Ok f, cl1) \<and>
     on_request (serialized (\<lambda>_. True) ref_packer empty_memory)
       (add_processor (serialized (\<lambda>_. True) ref_packer empty_memory))
       (add_request [MPosInt 1, MPosInt 2]) (mk_server_connection 0) = (Ok (), s') \<and>
     out_box s' = [wire ref_packer (OutResult 5 (MPosInt 3))] \<and>
     callbacks (cc' :: connection) = [OnReceived (PResponse \<lparr>resp_id = 5, resp_result = create_result (MPosInt 3)\<rparr>)] \<and>
     call_run [Received (PResponse \<lparr>resp_id = 5, resp_result = create_result (MPosInt 3)\<rparr>) :: bytes call_cmd] (calls_obj cl1)
       = Some cl2 \<and>
     typed_result (\<lambda>_. ''0'') (\<lambda>obj. case obj of MPosInt n \<Rightarrow> Some n | _ \<Rightarrow> None) 0 [(0, futures cl2 f)] = Some (Ok (3 :: u64))"
proof -
  let ?out = "OutResult 5 (MPosInt 3)"
  let ?ser = "serialized (\<lambda>_. True) ref_packer empty_memory"
  let ?as = "\<lambda>obj. case obj of MPosInt n \<Rightarrow> Some (n :: u64) | _ \<Rightarrow> None"
  obtain s0 :: "bytes client" where s0: "mk_client (default_client_config 8192) 5 = Ok s0"
    by (simp add: mk_client_def mk_connector_def mk_reconnection_timer_def default_client_config_def default_reconnection_config_def)
  obtain cl where cl: "client_start (Ok ()) (Ok ()) s0 = (Ok (), cl)" "executor_running cl" "reach client_init client_step cl"
    using client_started_running [OF s0] by blast
  have "calls_obj cl = mk_call_list 15000000000 5"
    using cl(1) s0 by (auto simp: client_start_def bind_act_def deref_def mk_client_def bind_out_Ok_iff default_client_config_def
        split: if_splits)
  then have running: "clock_ok (0 + call_timeout (calls_obj cl))" "calls (calls_obj cl) 5 = None" "5 = next_id (calls_obj cl)"
    by (simp_all add: mk_call_list_def clock_ok_def)
  let ?c = "\<lambda>n. async_read_next (snd (conn_start (mk_connection n)))"
  have c: "callbacks (?c n) = []" "read_buffer_size (parser (?c n)) = n" for n
    by (simp_all add: async_read_next_def conn_start_def mk_connection_def handle_start_request_def prepare_buffer_def
        handle_processing_started_def mk_parser_def)
  have send: "can_send (OutRequest ''add'' 5 [MPosInt 1, MPosInt 2])" "can_send ?out" by (simp_all add: can_send_def)
  have small: "length (wire ref_packer (OutRequest ''add'' 5 [MPosInt 1, MPosInt 2])) \<le> MAX_MESSAGE"
      "length (wire ref_packer ?out) \<le> MAX_MESSAGE"
    by (simp_all add: wire_pack_list pack_list_ref MAX_MESSAGE_def)
  have ok: "\<forall>n. (\<lambda>_ :: u64. True) n" by simp
  have reg: "methods (add_processor ?ser) ''add'' = Some (functional_method ?ser False ''add'' 2 add_params add_function)"
    by (simp add: add_processor_def add_method_def)
  let ?s = "mk_server_connection 0 :: (nat, bytes) server_connection"
  have spec: "call_spec False 2 add_params add_function
      \<lparr>req_id = 5, req_method = ''add'', req_params = \<lparr>params_object = MArray [MPosInt 1, MPosInt 2]\<rparr>\<rparr> (app ?s) = (Ok ?out, 1)"
    by (simp add: call_spec_def parameters_as_def add_params_def add_function_def mk_server_connection_def)
  have idle: "\<not> sc_is_sending ?s" "message_queue ?s = []" "connected ?s" "out_box ?s = []"
    by (simp_all add: mk_server_connection_def)
  have user: "\<forall>m. (\<lambda>_ :: conn_callback. Ok () :: (exn, unit) outcome) (OnReceived m) = Ok ()" by simp
  let ?n = "length (wire ref_packer (OutRequest ''add'' 5 [MPosInt 1, MPosInt 2]))"
  let ?k = "length (wire ref_packer ?out)"
  have chunks: "concat [wire ref_packer (OutRequest ''add'' 5 [MPosInt 1, MPosInt 2])] =
        wire ref_packer (OutRequest ''add'' 5 [MPosInt 1, MPosInt 2])"
      "\<forall>d \<in> set [wire ref_packer (OutRequest ''add'' 5 [MPosInt 1, MPosInt 2])]. length d \<le> read_buffer_size (parser (?c ?n))"
      "concat [wire ref_packer ?out] = wire ref_packer ?out"
      "\<forall>d \<in> set [wire ref_packer ?out]. length d \<le> read_buffer_size (parser (?c ?k))"
    by (simp_all add: c(2))
  from remote_call_returns_result [where cmds = "[]" and now = 0 and sd = "\<lambda>_. ''0''" and as_T = ?as and d = 0,
      OF codec_ok_ref conv_ok_ref cl(3,2) running send(1) small(1) memory_wf_empty memory_wf_empty ok reg spec send(2) small(2)
      idle(1-3) idle_reader_start user idle_reader_start user chunks]
  obtain f cl1 s' cc' r where
    res: "public_async_call (\<lambda>_. True) ref_packer empty_memory 0 ''add'' [MPosInt 1, MPosInt 2] cl = (Ok f, cl1)"
      "on_request ?ser (add_processor ?ser)
         \<lparr>req_id = 5, req_method = ''add'', req_params = \<lparr>params_object = MArray [MPosInt 1, MPosInt 2]\<rparr>\<rparr> ?s = (Ok (), s')"
      "out_box s' = [wire ref_packer ?out]"
      "callbacks (cc' :: connection) = [OnReceived (PResponse \<lparr>resp_id = 5, resp_result = r\<rparr>)]" "r = create_result (MPosInt 3)"
      and typed: "\<forall>cl2 t. call_run [Received (PResponse \<lparr>resp_id = 5, resp_result = r\<rparr>) :: bytes call_cmd] (calls_obj cl1) = Some cl2
         \<longrightarrow> typed_result (\<lambda>_. ''0'') ?as 0 [(t, futures cl2 f)] = Some (Ok 3)"
    unfolding c(1) idle(4) append_Nil first_answer.simps simp_thms outgoing.case
    by (elim exE conjE) (rule that, assumption+, simp)
  obtain cl2 where run: "call_run [Received (PResponse \<lparr>resp_id = 5, resp_result = r\<rparr>) :: bytes call_cmd] (calls_obj cl1) = Some cl2"
    by (cases "calls (calls_obj cl1) 5") (simp_all add: process_received_def handle_response_def)
  have "typed_result (\<lambda>_. ''0'') ?as 0 [(0, futures cl2 f)] = Some (Ok 3)" using typed run by blast
  then show ?thesis using res(1-4) run unfolding res(5) add_request_def [symmetric] by blast
qed

end
